(* ===== verification/GoPrelude.thy ===== *)
theory GoPrelude
  imports Main "HOL-Library.Word"
begin

text \<open>
  Shared ground of the development: the run-time faults of Go as values, the result type of
  operations that can panic, slice indexing with its bounds check, and the lemmas on words,
  lists and strings that several components use.

  A Go function that may panic (index out of range, nil map write, failed type assertion,
  division by zero) or end the process is a function into \<open>'a go\<close>: \<open>Inl\<close> of the fault or
  \<open>Inr\<close> of the value it returns. Go's \<open>error\<close> results are ordinary values of the model,
  not faults. Strings are lists of bytes, which is what Go's \<open>len\<close>, indexing and
  comparison of strings work on.
\<close>

unbundle bit_operations_syntax

named_theorems go_simps \<open>unfolding rules for the result type and the slice accesses\<close>

type_synonym int64 = "64 word"
type_synonym uint64 = "64 word"
type_synonym uint32 = "32 word"

datatype go_fault =
    IndexOutOfRange
  | SliceOutOfRange
  | NilDereference
  | NilMapWrite
  | DivideByZero
  | TypeAssertionFailed
  | ProcessExit

type_synonym 'a go = "go_fault + 'a"

subsection \<open>Sequencing\<close>

definition rbind :: "'a go \<Rightarrow> ('a \<Rightarrow> 'b go) \<Rightarrow> 'b go" where
  "rbind m f = (case m of Inl e \<Rightarrow> Inl e | Inr x \<Rightarrow> f x)"

lemma rbind_simps [simp, go_simps]:
  "rbind (Inl e) f = Inl e"
  "rbind (Inr x) f = f x"
  by (simp_all add: rbind_def)

lemma rbind_eq_Inr: "rbind m f = Inr y \<longleftrightarrow> (\<exists>x. m = Inr x \<and> f x = Inr y)"
  by (cases m) simp_all

lemma rbind_eq_Inl: "rbind m f = Inl e \<longleftrightarrow> m = Inl e \<or> (\<exists>x. m = Inr x \<and> f x = Inl e)"
  by (cases m) auto

lemma rbind_cong [fundef_cong]:
  "m = m' \<Longrightarrow> (\<And>x. m' = Inr x \<Longrightarrow> f x = g x) \<Longrightarrow> rbind m f = rbind m' g"
  by (cases m') simp_all

definition is_fault :: "'a go \<Rightarrow> bool" where
  "is_fault r = (case r of Inl _ \<Rightarrow> True | Inr _ \<Rightarrow> False)"

lemma is_fault_simps [simp]: "is_fault (Inl e)" "\<not> is_fault (Inr x)"
  by (simp_all add: is_fault_def)

subsection \<open>Slices\<close>

text \<open>Reading and writing a slice element; an index outside \<open>[0, len)\<close> panics.\<close>

definition go_index :: "'a list \<Rightarrow> int \<Rightarrow> 'a go" where
  "go_index xs i =
     (if 0 \<le> i \<and> i < int (length xs) then Inr (xs ! nat i) else Inl IndexOutOfRange)"

definition go_update :: "'a list \<Rightarrow> int \<Rightarrow> 'a \<Rightarrow> 'a list go" where
  "go_update xs i x =
     (if 0 \<le> i \<and> i < int (length xs) then Inr (xs[nat i := x]) else Inl IndexOutOfRange)"

lemma go_index_ok [simp, go_simps]: "n < length xs \<Longrightarrow> go_index xs (int n) = Inr (xs ! n)"
  by (simp add: go_index_def)

lemma go_update_ok [simp, go_simps]:
  "n < length xs \<Longrightarrow> go_update xs (int n) x = Inr (xs[n := x])"
  by (simp add: go_update_def)

lemma go_index_Nil [simp, go_simps]: "go_index [] i = Inl IndexOutOfRange"
  by (simp add: go_index_def)

lemma go_index_fault: "\<not> (0 \<le> i \<and> i < int (length xs)) \<Longrightarrow> go_index xs i = Inl IndexOutOfRange"
  by (auto simp: go_index_def)

subsection \<open>Machine integers\<close>

lemma unat_of_nat64: "n < 2 ^ 64 \<Longrightarrow> unat (of_nat n :: int64) = n"
  by (rule of_nat_inverse [OF refl]) simp

lemma sint_of_nat64:
  assumes "n < 2 ^ 63"
  shows "sint (of_nat n :: int64) = int n"
proof -
  from assms have "n < 2 ^ 64" by simp
  then have "uint (of_nat n :: int64) = int n"
    using unat_of_nat64 [of n] by (simp only: uint_nat)
  then show ?thesis
    using assms by (simp add: sint_uint signed_take_bit_int_eq_self)
qed

lemma of_nat64_eq_0: "n < 2 ^ 64 \<Longrightarrow> (of_nat n :: int64) = 0 \<longleftrightarrow> n = 0"
  using unat_of_nat64 [of n] unat_eq_zero [of "of_nat n :: int64"] by simp

lemma of_nat64_sle:
  "m < 2 ^ 63 \<Longrightarrow> n < 2 ^ 63 \<Longrightarrow> (of_nat m :: int64) \<le>s of_nat n \<longleftrightarrow> m \<le> n"
  by (simp add: word_sle_eq sint_of_nat64)

lemma of_nat64_sless:
  "m < 2 ^ 63 \<Longrightarrow> n < 2 ^ 63 \<Longrightarrow> (of_nat m :: int64) <s of_nat n \<longleftrightarrow> m < n"
  by (simp add: word_sless_alt sint_of_nat64)

lemma bit_unat64: "bit (x :: int64) k \<longleftrightarrow> odd (unat x div 2 ^ k)"
proof -
  have "bit (unat x) k \<longleftrightarrow> bit x k" by (simp add: bit_unsigned_iff)
  then show ?thesis by (simp add: bit_iff_odd)
qed

lemma unat_less64: "unat (x :: int64) < 2 ^ 64"
proof -
  have "unat x < 2 ^ LENGTH(64)" by (rule unsigned_less)
  then show ?thesis by simp
qed

subsection \<open>Lists\<close>

lemma sum_list_update_nat:
  fixes f :: "'a \<Rightarrow> nat"
  assumes "i < length xs"
  shows "sum_list (map f (xs[i := x])) + f (xs ! i) = sum_list (map f xs) + f x"
  using assms
proof (induction xs arbitrary: i)
  case (Cons a xs)
  then show ?case by (cases i) (auto simp: algebra_simps)
qed simp

end
