(* ===== verification/DickTable.thy ===== *)
theory DickTable
  imports GoPrelude "HOL-Library.Multiset"
begin

text \<open>
  The hash table proper: the entries (database/DickEntry.go), the table with its buckets and
  counters (database/dickTable.go), and \<open>nextPower\<close> (database/dick.go), which rounds a table
  size up to a power of two.
\<close>

subsection \<open>Entries and tables\<close>

text \<open>
  An entry holds a key, a value and the pointer to the next entry of its bucket. A bucket,
  the chain that starts at \<open>table[i]\<close> and ends at nil, is the list of its entries in the
  order of the \<open>next\<close> pointers; nil is the empty list.
\<close>

record 'v DickEntry =
  ekey :: string
  evalue :: 'v

definition NewDickEntry :: "string \<Rightarrow> 'v \<Rightarrow> 'v DickEntry" where
  "NewDickEntry k v = \<lparr>ekey = k, evalue = v\<rparr>"

record 'v DickTable =
  table :: "'v DickEntry list list"
  tsize :: int64
  sizemask :: uint64
  used :: int64

definition NewDickTable :: "int64 \<Rightarrow> 'v DickTable" where
  "NewDickTable sz =
     (if 0 <s sz
      then \<lparr>table = replicate (unat sz) [], tsize = sz, sizemask = sz - 1, used = 0\<rparr>
      else \<lparr>table = [], tsize = sz, sizemask = 0, used = 0\<rparr>)"

definition empty_table :: "'v DickTable \<Rightarrow> bool" where
  "empty_table t = (tsize t = 0)"

subsection \<open>The next power of two\<close>

definition INITIAL_SIZE :: int64 where
  "INITIAL_SIZE = 128"

definition nextPower :: "int64 \<Rightarrow> int64" where
  "nextPower size0 =
     (if size0 \<le>s INITIAL_SIZE then INITIAL_SIZE
      else
        let s0 = size0 - 1;
            s1 = s0 OR signed_drop_bit 1 s0;
            s2 = s1 OR signed_drop_bit 2 s1;
            s3 = s2 OR signed_drop_bit 4 s2;
            s4 = s3 OR signed_drop_bit 8 s3;
            s5 = s4 OR signed_drop_bit 16 s4;
            s6 = s5 OR signed_drop_bit 32 s5
        in s6 + 1)"

text \<open>
  The shifts smear the highest set bit downwards. After the shifts by 1, 2, \<dots>, w/2 a bit
  is set exactly when one of the w bits from it upwards was set at the start.
\<close>

definition smeared :: "int64 \<Rightarrow> nat \<Rightarrow> int64 \<Rightarrow> bool" where
  "smeared x w y = (\<forall>i. bit y i \<longleftrightarrow> (\<exists>j<w. bit x (i + j)))"

lemma smeared_start: "smeared x 1 x"
  by (simp add: smeared_def)

lemma smeared_step:
  assumes sm: "smeared x w y" and pos: "0 < w" and sign: "\<not> bit x 63"
  shows "smeared x (w + w) (y OR signed_drop_bit w y)"
proof -
  have y: "bit y i \<longleftrightarrow> (\<exists>j<w. bit x (i + j))" for i
    using sm by (simp add: smeared_def)
  have top: "\<not> bit x k" if "63 \<le> k" for k
  proof (cases "k = 63")
    case True
    then show ?thesis using sign by simp
  next
    case False
    with that have "64 \<le> k" by simp
    then show ?thesis using bit_imp_le_length [of x k] by auto
  qed
  have ytop: "\<not> bit y k" if "63 \<le> k" for k
    using that y top by auto
  have shift: "bit (signed_drop_bit w y) i \<longleftrightarrow> bit y (i + w)" for i
  proof (cases "i < 64 \<and> 64 - w \<le> i")
    case True
    then have "63 \<le> i + w" by arith
    with True show ?thesis using ytop [of 63] ytop [of "i + w"] by (simp add: bit_signed_drop_bit_iff)
  next
    case False
    then show ?thesis using ytop by (auto simp: bit_signed_drop_bit_iff add.commute)
  qed
  have "bit y i \<or> bit y (i + w) \<longleftrightarrow> (\<exists>j<w + w. bit x (i + j))" for i
  proof
    assume "bit y i \<or> bit y (i + w)"
    then show "\<exists>j<w + w. bit x (i + j)"
      by (metis y add.assoc add_less_cancel_left trans_less_add1)
  next
    assume "\<exists>j<w + w. bit x (i + j)"
    then obtain j where j: "j < w + w" "bit x (i + j)" by blast
    show "bit y i \<or> bit y (i + w)"
    proof (cases "j < w")
      case True
      with j show ?thesis using y by blast
    next
      case False
      with j have "j - w < w" "bit x (i + w + (j - w))" by simp_all
      then show ?thesis using y by blast
    qed
  qed
  then show ?thesis by (simp add: smeared_def bit_or_iff shift)
qed

lemma smeared_all:
  assumes sm: "smeared x 64 y" and lo: "2 ^ m \<le> unat x" and hi: "unat x < 2 ^ Suc m"
  shows "y + 1 = 2 ^ Suc m"
proof -
  have m: "m < 64"
    using le_less_trans [OF lo unat_less64] by (rule power_less_imp_less_exp [rotated]) simp
  note bit_x = bit_unat64 [of x]
  have above: "\<not> bit x k" if "m < k" for k
  proof -
    from that have "(2::nat) ^ Suc m \<le> 2 ^ k" by (intro power_increasing) auto
    with hi have "unat x div 2 ^ k = 0" by simp
    then show ?thesis using bit_x by simp
  qed
  have "unat x div 2 ^ m = 1"
    using lo hi by (intro div_nat_eqI) (simp_all add: mult.commute)
  then have at: "bit x m" using bit_x by simp
  have "bit y i \<longleftrightarrow> i < Suc m" for i
  proof
    assume "bit y i"
    then obtain j where "bit x (i + j)" using sm by (auto simp: smeared_def)
    then show "i < Suc m" using above [of "i + j"] by (meson not_less_eq trans_less_add1)
  next
    assume "i < Suc m"
    then have "m - i < 64" "bit x (i + (m - i))" using at m by auto
    then show "bit y i" using sm by (auto simp: smeared_def)
  qed
  then have "y = mask (Suc m)"
    by (intro bit_word_eqI) (simp add: bit_mask_iff)
  then show ?thesis by (simp add: mask_eq_decr_exp)
qed

lemma nextPower_word:
  assumes "128 < n" and "n < 2 ^ 63" and "2 ^ m \<le> n - 1" and "n - 1 < 2 ^ Suc m"
  shows "nextPower (of_nat n) = 2 ^ Suc m"
proof -
  let ?x = "of_nat n - 1 :: int64"
  have "?x = of_nat (n - 1)" using assms(1) by (simp add: of_nat_diff)
  then have ux: "unat ?x = n - 1" using assms(2) by (simp add: unat_of_nat64)
  have sign: "\<not> bit ?x 63"
  proof -
    have "unat ?x div 2 ^ 63 = 0" using ux assms(2) by simp
    then show ?thesis by (simp add: bit_unat64)
  qed
  note step = smeared_step [OF _ _ sign]
  define s1 where "s1 = (?x OR signed_drop_bit 1 ?x)"
  define s2 where "s2 = (s1 OR signed_drop_bit 2 s1)"
  define s3 where "s3 = (s2 OR signed_drop_bit 4 s2)"
  define s4 where "s4 = (s3 OR signed_drop_bit 8 s3)"
  define s5 where "s5 = (s4 OR signed_drop_bit 16 s4)"
  define s6 where "s6 = (s5 OR signed_drop_bit 32 s5)"
  note defs = s1_def s2_def s3_def s4_def s5_def s6_def
  have "smeared ?x (1 + 1) s1" unfolding s1_def by (rule step [OF smeared_start]) simp
  then have "smeared ?x 2 s1" by (simp only: one_add_one)
  then have "smeared ?x (2 + 2) s2" unfolding s2_def by (intro step) simp_all
  then have "smeared ?x (4 + 4) s3" unfolding s3_def by (intro step) simp_all
  then have "smeared ?x (8 + 8) s4" unfolding s4_def by (intro step) simp_all
  then have "smeared ?x (16 + 16) s5" unfolding s5_def by (intro step) simp_all
  then have "smeared ?x (32 + 32) s6" unfolding s6_def by (intro step) simp_all
  then have "smeared ?x 64 s6" by simp
  then have "s6 + 1 = 2 ^ Suc m"
    by (rule smeared_all) (use ux assms(3,4) in simp_all)
  moreover have "\<not> (of_nat n :: int64) \<le>s INITIAL_SIZE"
    using assms(1,2) of_nat64_sle [of n 128] by (simp add: INITIAL_SIZE_def)
  then have "nextPower (of_nat n) = s6 + 1"
    by (simp only: nextPower_def Let_def defs if_False)
  ultimately show ?thesis by simp
qed

text \<open>
  On every size up to \<open>2 ^ 62\<close> the result is a power of two that is at least the size; it is
  the least such power above \<open>INITIAL_SIZE\<close>.
\<close>

lemma nextPower_nat:
  assumes "n \<le> 2 ^ 62"
  obtains k where "nextPower (of_nat n) = of_nat (2 ^ k)" and "7 \<le> k" and "k \<le> 62"
    and "n \<le> 2 ^ k" and "k = 7 \<or> 2 ^ k < 2 * n"
proof (cases "n \<le> 128")
  case True
  then have "nextPower (of_nat n) = of_nat (2 ^ 7)"
    using of_nat64_sle [of n 128] by (simp add: nextPower_def INITIAL_SIZE_def)
  with True show thesis by (intro that [of 7]) simp_all
next
  case False
  then obtain m where m: "2 ^ m \<le> n - 1" "n - 1 < 2 ^ Suc m"
  proof -
    have "\<exists>m. 2 ^ m \<le> n - 1 \<and> n - 1 < 2 ^ (m + 1)"
      using False by (intro ex_power_ivl1) simp_all
    then show thesis using that by auto
  qed
  have "(2::nat) ^ m < 2 ^ 62" using m(1) assms False by linarith
  then have lt62: "m < 62" by (rule power_less_imp_less_exp [rotated]) simp
  have "(2::nat) ^ 7 < 2 ^ Suc m" using m(2) False by simp
  then have gt7: "7 < Suc m" by (rule power_less_imp_less_exp [rotated]) simp
  have np: "nextPower (of_nat n) = of_nat (2 ^ Suc m)"
    using nextPower_word [of n m] m assms False by simp
  show thesis
    by (rule that [of "Suc m"]) (use m False lt62 gt7 np in auto)
qed

subsection \<open>Bucket chains\<close>

text \<open>
  The loops \<open>for entry != nil { if entry.key == key ...; entry = entry.next }\<close>: the position
  of the first entry with the key, if the chain has one.
\<close>

fun find_pos :: "string \<Rightarrow> 'v DickEntry list \<Rightarrow> nat option" where
  "find_pos k [] = None"
| "find_pos k (e # es) =
     (if ekey e = k then Some 0 else map_option Suc (find_pos k es))"

lemma find_pos_None: "find_pos k es = None \<longleftrightarrow> (\<forall>e \<in> set es. ekey e \<noteq> k)"
  by (induction es) auto

lemma find_pos_Some: "find_pos k es = Some p \<Longrightarrow> p < length es \<and> ekey (es ! p) = k"
  by (induction es arbitrary: p) (auto split: if_splits)

definition remove_at :: "nat \<Rightarrow> 'a list \<Rightarrow> 'a list" where
  "remove_at p xs = take p xs @ drop (Suc p) xs"

lemma mset_remove_at: "p < length xs \<Longrightarrow> add_mset (xs ! p) (mset (remove_at p xs)) = mset xs"
proof -
  assume p: "p < length xs"
  have "mset xs = mset (take p xs @ xs ! p # drop (Suc p) xs)"
    using id_take_nth_drop [OF p] by simp
  then show ?thesis by (simp add: remove_at_def)
qed

subsection \<open>Entries as a finite map\<close>

definition keys_distinct :: "'v DickEntry list \<Rightarrow> bool" where
  "keys_distinct es = distinct (map ekey es)"

definition amap :: "'v DickEntry list \<Rightarrow> string \<rightharpoonup> 'v" where
  "amap es = map_of (map (\<lambda>e. (ekey e, evalue e)) es)"

lemma keys_distinct_mset: "mset xs = mset ys \<Longrightarrow> keys_distinct xs \<longleftrightarrow> keys_distinct ys"
  unfolding keys_distinct_def by (rule mset_eq_imp_distinct_iff) simp

lemma amap_Cons: "amap (e # es) = (amap es)(ekey e \<mapsto> evalue e)"
  by (simp add: amap_def)

lemma amap_None: "amap es k = None \<longleftrightarrow> (\<forall>e \<in> set es. ekey e \<noteq> k)"
  by (auto simp: amap_def map_of_eq_None_iff image_iff)

lemma amap_Some:
  "keys_distinct es \<Longrightarrow> e \<in> set es \<Longrightarrow> amap es (ekey e) = Some (evalue e)"
  by (force simp: amap_def keys_distinct_def comp_def intro!: map_of_is_SomeI)

lemma amap_mset:
  assumes "mset xs = mset ys" and "keys_distinct xs"
  shows "amap xs = amap ys"
proof
  fix k
  have kd: "keys_distinct ys" using assms keys_distinct_mset by blast
  have st: "set xs = set ys" using assms(1) by (rule mset_eq_setD)
  show "amap xs k = amap ys k"
  proof (cases "\<exists>e \<in> set xs. ekey e = k")
    case True
    then show ?thesis
      using amap_Some [OF assms(2)] amap_Some [OF kd] st by force
  next
    case False
    then show ?thesis using st by (simp add: amap_None [THEN iffD2])
  qed
qed

lemma amap_insert:
  assumes "mset ys = add_mset e (mset xs)" and "keys_distinct xs" and "amap xs (ekey e) = None"
  shows "keys_distinct ys" and "amap ys = (amap xs)(ekey e \<mapsto> evalue e)"
proof -
  have kd: "keys_distinct (e # xs)"
    using assms(2,3) by (auto simp: keys_distinct_def amap_None)
  have eq: "mset (e # xs) = mset ys" using assms(1) by simp
  show "keys_distinct ys" using kd keys_distinct_mset [OF eq] by simp
  show "amap ys = (amap xs)(ekey e \<mapsto> evalue e)"
    using amap_mset [OF eq kd] by (simp add: amap_Cons)
qed

lemma amap_delete:
  assumes "add_mset e (mset ys) = mset xs" and "keys_distinct xs"
  shows "keys_distinct ys" and "amap ys = (amap xs)(ekey e := None)"
    and "amap xs (ekey e) = Some (evalue e)"
proof -
  have eq: "mset xs = mset (e # ys)" using assms(1) by simp
  have kd: "keys_distinct (e # ys)" using assms(2) keys_distinct_mset [OF eq] by simp
  then show "keys_distinct ys" by (simp add: keys_distinct_def)
  have "amap ys (ekey e) = None"
    using kd unfolding amap_None keys_distinct_def by (simp add: image_iff) metis
  then show "amap ys = (amap xs)(ekey e := None)"
    using amap_mset [OF eq assms(2)] by (auto simp: amap_Cons fun_eq_iff)
  show "amap xs (ekey e) = Some (evalue e)"
    using amap_mset [OF eq assms(2)] by (simp add: amap_Cons)
qed

lemma amap_replace:
  assumes "add_mset e (mset ys) = add_mset e' (mset xs)" and "ekey e' = ekey e"
    and "e \<in> set xs" and "keys_distinct xs"
  shows "keys_distinct ys" and "amap ys = (amap xs)(ekey e \<mapsto> evalue e')"
proof -
  let ?zs = "remove1 e xs"
  have zs: "add_mset e (mset ?zs) = mset xs" using assms(3) by simp
  note del = amap_delete [OF zs assms(4)]
  have "add_mset e (mset ys) = add_mset e (add_mset e' (mset ?zs))"
    using assms(1) zs by (metis add_mset_commute)
  then have ys: "mset ys = add_mset e' (mset ?zs)" by simp
  have none: "amap ?zs (ekey e') = None" using del(2) assms(2) by simp
  note ins = amap_insert [OF ys del(1) none]
  show "keys_distinct ys" by (rule ins(1))
  show "amap ys = (amap xs)(ekey e \<mapsto> evalue e')"
    using ins(2) del(2) assms(2) by simp
qed

subsection \<open>The table invariant\<close>

text \<open>
  For a hash function \<open>H\<close>, the slot of a key is what the code computes as
  \<open>hash & sizemask\<close>. A table is well formed when its length is a power of two, the stored
  size, mask and number of entries are those of the slice, and every entry sits in the bucket
  of its key.
\<close>

definition slot :: "(string \<Rightarrow> uint64) \<Rightarrow> 'v DickTable \<Rightarrow> string \<Rightarrow> nat" where
  "slot H t k = unat (H k AND sizemask t)"

definition entries :: "'v DickTable \<Rightarrow> 'v DickEntry list" where
  "entries t = concat (table t)"

definition slotted :: "(string \<Rightarrow> uint64) \<Rightarrow> 'v DickTable \<Rightarrow> bool" where
  "slotted H t = (\<forall>i < length (table t). \<forall>e \<in> set (table t ! i). slot H t (ekey e) = i)"

definition table_ok :: "(string \<Rightarrow> uint64) \<Rightarrow> 'v DickTable \<Rightarrow> bool" where
  "table_ok H t =
     ((\<exists>n \<le> 62. length (table t) = 2 ^ n) \<and>
      tsize t = of_nat (length (table t)) \<and>
      sizemask t = of_nat (length (table t)) - 1 \<and>
      used t = of_nat (length (entries t)) \<and>
      slotted H t)"

lemma table_ok_length:
  assumes "table_ok H t"
  shows "0 < length (table t)" and "length (table t) \<le> 2 ^ 62"
proof -
  obtain n where "n \<le> 62" "length (table t) = 2 ^ n"
    using assms by (auto simp: table_ok_def)
  then show "0 < length (table t)" "length (table t) \<le> 2 ^ 62"
    by (simp, metis one_le_numeral power_increasing)
qed

lemma table_ok_nonempty: "table_ok H t \<Longrightarrow> table t \<noteq> []"
  using table_ok_length(1) by force

lemma slot_mask:
  assumes "table_ok H t"
  shows "slot H t k = unat (H k) mod length (table t)"
proof -
  obtain n where n: "n \<le> 62" "length (table t) = 2 ^ n" "sizemask t = of_nat (2 ^ n) - 1"
    using assms by (auto simp: table_ok_def)
  then have "H k AND sizemask t = take_bit n (H k)"
    by (simp add: take_bit_eq_mask mask_eq_decr_exp)
  then have "slot H t k = take_bit n (unat (H k))"
    by (simp add: slot_def unsigned_take_bit_eq)
  then show ?thesis using n(2) by (simp add: take_bit_eq_mod)
qed

lemma slot_less: "table_ok H t \<Longrightarrow> slot H t k < length (table t)"
  using slot_mask table_ok_length(1) by force

lemma slot_index:
  assumes "table_ok H t"
  shows "uint (H k AND sizemask t) = int (slot H t k)"
    and "sint (H k AND sizemask t) = int (slot H t k)"
proof -
  show u: "uint (H k AND sizemask t) = int (slot H t k)"
    by (simp add: slot_def)
  have "slot H t k < 2 ^ 62"
    using slot_less [OF assms, of k] table_ok_length(2) [OF assms] by linarith
  then have "uint (H k AND sizemask t) < 2 ^ 63"
    unfolding u by simp
  then show "sint (H k AND sizemask t) = int (slot H t k)"
    using u by (simp add: sint_uint signed_take_bit_int_eq_self)
qed

text \<open>So the code's accesses to the slice stay in bounds.\<close>

lemma slot_access:
  assumes "table_ok H t"
  shows "go_index (table t) (uint (H k AND sizemask t)) = Inr (table t ! slot H t k)"
    and "go_index (table t) (sint (H k AND sizemask t)) = Inr (table t ! slot H t k)"
    and "go_update (table t) (uint (H k AND sizemask t)) c = Inr ((table t)[slot H t k := c])"
    and "unat (H k AND sizemask t) = slot H t k"
  unfolding slot_index [OF assms]
  by (simp_all only: go_index_ok [OF slot_less [OF assms]] go_update_ok [OF slot_less [OF assms]])
    (simp only: slot_def)

lemma slot_cong: "sizemask t = sizemask u \<Longrightarrow> slot H t k = slot H u k"
  by (simp add: slot_def)

lemma table_ok_used_eq_0:
  assumes "table_ok H t" and "length (entries t) < 2 ^ 64"
  shows "used t = 0 \<longleftrightarrow> entries t = []"
  using assms of_nat64_eq_0 by (auto simp: table_ok_def)

text \<open>Replacing one bucket of a table.\<close>

lemma mset_concat_update:
  assumes "i < length tb"
  shows "mset (concat (tb[i := b])) + mset (tb ! i) = mset (concat tb) + mset b"
  using assms
proof (induction tb arbitrary: i)
  case (Cons a tb)
  then show ?case by (cases i) (auto simp: ac_simps)
qed simp

lemma entries_update:
  assumes "i < length (table t)"
  shows "mset (entries (t\<lparr>table := (table t)[i := b]\<rparr>)) + mset (table t ! i)
       = mset (entries t) + mset b"
  using mset_concat_update [OF assms] by (simp add: entries_def)

lemma bucket_subset: "i < length (table t) \<Longrightarrow> set (table t ! i) \<subseteq> set (entries t)"
  by (auto simp: entries_def intro!: bexI [of _ "table t ! i"])

lemma slotted_bucket:
  assumes "slotted H t" and "e \<in> set (entries t)"
  shows "e \<in> set (table t ! slot H t (ekey e))"
proof -
  obtain i where "i < length (table t)" "e \<in> set (table t ! i)"
    using assms(2) unfolding entries_def set_concat UN_iff by (metis in_set_conv_nth)
  then show ?thesis using assms(1) by (auto simp: slotted_def)
qed

lemma slotted_update:
  assumes "slotted H t" and "sizemask u = sizemask t" and "table u = (table t)[i := b]"
    and "\<forall>e \<in> set b. slot H t (ekey e) = i"
  shows "slotted H u"
proof -
  have sl: "slot H u k = slot H t k" for k using assms(2) by (rule slot_cong)
  have "slot H t (ekey e) = j" if "j < length (table u)" "e \<in> set (table u ! j)" for j e
    using that assms(1,3,4) by (cases "j = i") (auto simp: slotted_def)
  then show ?thesis by (simp add: slotted_def sl)
qed

lemma table_ok_update:
  assumes "table_ok H t" and "sizemask u = sizemask t" and "tsize u = tsize t"
    and "table u = (table t)[i := b]" and "used u = of_nat (length (entries u))"
    and "\<forall>e \<in> set b. slot H t (ekey e) = i"
  shows "table_ok H u"
  using assms slotted_update [OF _ assms(2,4,6)] by (simp add: table_ok_def)

subsection \<open>Fresh tables\<close>

lemma NewDickTable_0 [simp]:
  "NewDickTable 0 = \<lparr>table = [], tsize = 0, sizemask = 0, used = 0\<rparr>"
  by (simp add: NewDickTable_def)

lemma entries_fresh [simp]: "entries \<lparr>table = [], tsize = s, sizemask = m, used = u\<rparr> = []"
  by (simp add: entries_def)

lemma NewDickTable_ok:
  assumes "k \<le> 62"
  shows "table_ok H (NewDickTable (of_nat (2 ^ k)))"
    and "length (table (NewDickTable (of_nat (2 ^ k)))) = 2 ^ k"
    and "entries (NewDickTable (of_nat (2 ^ k))) = []"
proof -
  have b: "(2::nat) ^ k \<le> 2 ^ 62" using assms by (intro power_increasing) simp_all
  have pos: "0 <s (of_nat (2 ^ k) :: int64)"
    using of_nat64_sless [of 0 "2 ^ k"] b by simp
  have len: "unat (of_nat (2 ^ k) :: int64) = 2 ^ k"
    using b by (intro unat_of_nat64) simp
  have eq: "NewDickTable (of_nat (2 ^ k)) =
      \<lparr>table = replicate (2 ^ k) [], tsize = of_nat (2 ^ k), sizemask = of_nat (2 ^ k) - 1, used = 0\<rparr>"
    unfolding NewDickTable_def len using pos by simp
  show "length (table (NewDickTable (of_nat (2 ^ k)))) = 2 ^ k"
    unfolding eq by simp
  show ent: "entries (NewDickTable (of_nat (2 ^ k))) = []"
    unfolding eq by (simp add: entries_def)
  show "table_ok H (NewDickTable (of_nat (2 ^ k)))"
    using assms unfolding eq by (auto simp: table_ok_def slotted_def entries_def)
qed

end
