(* ===== verification/KeyHash.thy ===== *)
theory KeyHash
  imports GoPrelude
begin

text \<open>
  How a key is hashed inside a shard (database/dick.go): the hash mode \<open>HASHER\<close>, the two key
  halves, \<open>hasher\<close>, and the salt from which the halves are taken.

  SipHash is a third-party package: the environment holds it as a function of the two key
  halves and the message. FNV-1a (hash/fnv) is written out.
\<close>

subsection \<open>The environment of the hash tables\<close>

record hash_env =
  HASHER :: int
  key0 :: uint64
  key1 :: uint64
  siphash_Hash :: "uint64 \<Rightarrow> uint64 \<Rightarrow> string \<Rightarrow> uint64"

definition HASH_siphash :: int where
  "HASH_siphash = 1"

definition HASH_FNV32A :: int where
  "HASH_FNV32A = 2"

definition HASH_FNV64A :: int where
  "HASH_FNV64A = 3"

definition fnv32a :: "string \<Rightarrow> uint32" where
  "fnv32a s = foldl (\<lambda>h c. (h XOR of_char c) * 16777619) 2166136261 s"

definition fnv64a :: "string \<Rightarrow> uint64" where
  "fnv64a s = foldl (\<lambda>h c. (h XOR of_char c) * 1099511628211) 14695981039346656037 s"

text \<open>A hash mode other than the three ends the process.\<close>

definition hasher :: "'a hash_env_scheme \<Rightarrow> string \<Rightarrow> uint64 go" where
  "hasher E any =
     (if HASHER E = HASH_siphash then Inr (siphash_Hash E (key0 E) (key1 E) any)
      else if HASHER E = HASH_FNV32A then Inr (ucast (fnv32a any))
      else if HASHER E = HASH_FNV64A then Inr (fnv64a any)
      else Inl ProcessExit)"

definition hasher_ok :: "'a hash_env_scheme \<Rightarrow> bool" where
  "hasher_ok E = (HASHER E \<in> {HASH_siphash, HASH_FNV32A, HASH_FNV64A})"

text \<open>The value of the hash where there is one.\<close>

definition hash_of :: "'a hash_env_scheme \<Rightarrow> string \<Rightarrow> uint64" where
  "hash_of E k = (case hasher E k of Inl _ \<Rightarrow> 0 | Inr h \<Rightarrow> h)"

lemma hasher_Inr [simp]: "hasher_ok E \<Longrightarrow> hasher E k = Inr (hash_of E k)"
  by (auto simp: hasher_ok_def hash_of_def hasher_def)

lemma hasher_fault: "\<not> hasher_ok E \<Longrightarrow> hasher E k = Inl ProcessExit"
  by (simp add: hasher_ok_def hasher_def)

subsection \<open>Splitting the salt\<close>

text \<open>\<open>binary.LittleEndian.Uint64\<close> of eight bytes.\<close>

definition le_uint64 :: "char list \<Rightarrow> uint64" where
  "le_uint64 bs = foldr (\<lambda>c w. of_char c OR push_bit 8 w) (take 8 bs) 0"

definition split_key :: "char list \<Rightarrow> uint64 \<times> uint64" where
  "split_key key =
     (if length key = 0 \<or> length key < 16 then (0, 0)
      else (le_uint64 (take 8 key), le_uint64 (take 8 (drop 8 key))))"

definition salt_charset :: string where
  "salt_charset = ''abcdefghijklmnopqrstuvwxyzABCDEFGHIJKLMNOPQRSTUVWXYZ0123456789''"

text \<open>
  The package variables of the salt: whether \<open>once\<close> has fired, and the salt itself. The
  argument \<open>rs\<close> holds the sixteen results of \<open>rand.Intn(len(cs))\<close>.
\<close>

record salt_state =
  once_done :: bool
  SALT :: "char list"

definition generateSALT ::
    "nat list \<Rightarrow> salt_state \<times> 'a hash_env_scheme \<Rightarrow> salt_state \<times> 'a hash_env_scheme" where
  "generateSALT rs p =
     (let (st, E) = p in
      if once_done st then (st, E)
      else
        let salt = map (\<lambda>i. salt_charset ! (rs ! i)) [0..<16];
            (k0, k1) = split_key salt
        in (st\<lparr>once_done := True, SALT := salt\<rparr>, E\<lparr>key0 := k0, key1 := k1\<rparr>))"

subsection \<open>The bytes of the key halves\<close>

definition le_bytes :: "nat \<Rightarrow> uint64 \<Rightarrow> char list" where
  "le_bytes n w = map (\<lambda>i. char_of (unat (drop_bit (8 * i) w))) [0..<n]"

lemma le_bytes_Suc: "le_bytes (Suc n) w = char_of (unat w) # le_bytes n (drop_bit 8 w)"
  by (simp add: le_bytes_def upt_conv_Cons map_Suc_upt [symmetric] comp_def drop_bit_drop_bit
      add.commute del: upt_Suc)

lemma unat_of_char: "unat (of_char c :: uint64) = of_char c"
proof -
  have "(of_char c :: nat) < 2 ^ 64" by (rule less_trans [of _ 256]) simp_all
  then have "unat (of_nat (of_char c) :: uint64) = of_char c" by (rule unat_of_nat64)
  then show ?thesis by (simp only: of_nat_of_char)
qed

lemma take_bit_of_char: "8 \<le> n \<Longrightarrow> take_bit n (of_char c :: uint64) = of_char c"
proof -
  assume n: "8 \<le> n"
  have "(of_char c :: nat) < 2 ^ 8" by simp
  also have "\<dots> \<le> 2 ^ n" using n by (rule power_increasing) simp
  finally have "take_bit n (unat (of_char c :: uint64)) = unat (of_char c :: uint64)"
    by (simp add: unat_of_char take_bit_nat_eq_self_iff)
  then have "unat (take_bit n (of_char c :: uint64)) = unat (of_char c :: uint64)"
    by (simp only: unsigned_take_bit_eq)
  then show ?thesis by (simp only: word_unat_eq_iff)
qed

abbreviation le_value :: "char list \<Rightarrow> uint64" where
  "le_value bs \<equiv> foldr (\<lambda>c w. of_char c OR push_bit 8 w) bs 0"

lemma le_value_bits: "take_bit (8 * length bs) (le_value bs) = le_value bs"
proof (induction bs)
  case (Cons c bs)
  have "take_bit (8 + 8 * length bs) (push_bit 8 (le_value bs)) = push_bit 8 (le_value bs)"
    using Cons by (simp add: take_bit_push_bit)
  then show ?case by (simp add: take_bit_of_char)
qed simp

lemma le_bytes_value: "length bs \<le> 8 \<Longrightarrow> le_bytes (length bs) (le_value bs) = bs"
proof (induction bs)
  case Nil
  show ?case by (simp add: le_bytes_def)
next
  case (Cons c bs)
  let ?w = "of_char c OR push_bit 8 (le_value bs) :: uint64"
  have tb: "take_bit 8 ?w = of_char c"
    by (simp add: take_bit_push_bit take_bit_of_char)
  have "take_bit 8 (unat ?w) = unat (take_bit 8 ?w)"
    by (rule unsigned_take_bit_eq [symmetric])
  also have "\<dots> = of_char c"
    by (simp only: tb unat_of_char)
  finally have "char_of (take_bit 8 (unat ?w)) = c"
    by (simp only: char_of_char)
  then have hd: "char_of (unat ?w) = c"
    by (simp only: char_of_take_bit_eq order_refl)
  have "drop_bit 8 (of_char c :: uint64) = 0"
    using drop_bit_take_bit [of 8 8 "of_char c :: uint64"] by (simp only: take_bit_of_char) simp
  moreover have "drop_bit 8 (push_bit 8 (le_value bs)) = take_bit 56 (le_value bs)"
    by (rule bit_word_eqI) (auto simp: bit_simps)
  moreover have "take_bit 56 (le_value bs) = le_value bs"
  proof -
    have m: "min 56 (8 * length bs) = 8 * length bs" using Cons.prems by simp
    show ?thesis
      using take_bit_take_bit [of 56 "8 * length bs" "le_value bs"]
      unfolding m by (simp only: le_value_bits)
  qed
  ultimately have "drop_bit 8 ?w = le_value bs" by simp
  then show ?case using Cons hd by (simp add: le_bytes_Suc)
qed

lemma split_key_bytes:
  assumes "length key = 16"
  shows "le_bytes 8 (fst (split_key key)) @ le_bytes 8 (snd (split_key key)) = key"
proof -
  have "le_bytes 8 (le_uint64 (take 8 bs)) = take 8 bs" if "8 \<le> length bs" for bs
    using le_bytes_value [of "take 8 bs"] that by (simp add: le_uint64_def)
  from this [of key] this [of "drop 8 key"] show ?thesis
    using assms by (simp add: split_key_def)
qed

lemma generateSALT_once:
  "generateSALT rs (generateSALT rs' p) = generateSALT rs' p"
  by (auto simp: generateSALT_def Let_def split: prod.splits)

end
