(* ===== verification/SubDick.thy ===== *)
theory SubDick
  imports DickTable KeyHash
begin

text \<open>
  One shard of the database, the \<open>SubDICK\<close> of database/dick.go: two hash tables and a
  rehash index. Growing is incremental. \<open>expand\<close> installs a larger second table, every later
  insertion and deletion moves at most one bucket over (\<open>rehashStep\<close>), and when the first
  table is empty the second takes its place.

  The functions of the code take the shard's index and reach the shard through it; here they
  take the shard itself and return it updated (XDick adds the array of shards and the locks).
\<close>

subsection \<open>State\<close>

record 'v SubDICK =
  ht0 :: "'v DickTable"
  ht1 :: "'v DickTable"
  rehashidx :: int

text \<open>\<open>hashTables[i]\<close> of the two-element array.\<close>

definition hashTable :: "nat \<Rightarrow> 'v SubDICK \<Rightarrow> 'v DickTable" where
  "hashTable i d = (if i = 0 then ht0 d else ht1 d)"

definition set_hashTable :: "nat \<Rightarrow> 'v DickTable \<Rightarrow> 'v SubDICK \<Rightarrow> 'v SubDICK" where
  "set_hashTable i t d = (if i = 0 then d\<lparr>ht0 := t\<rparr> else d\<lparr>ht1 := t\<rparr>)"

definition NewSubDICK :: "'v SubDICK" where
  "NewSubDICK = \<lparr>ht0 = NewDickTable 0, ht1 = NewDickTable 0, rehashidx = -1\<rparr>"

definition isRehashing :: "'v SubDICK \<Rightarrow> bool" where
  "isRehashing d = (rehashidx d \<noteq> -1)"

text \<open>A pointer to an entry: the table, the bucket and the position in its chain.\<close>

datatype entry_ref = EntryRef (ref_table: nat) (ref_bucket: nat) (ref_pos: nat)

definition deref :: "'v SubDICK \<Rightarrow> entry_ref \<Rightarrow> 'v DickEntry" where
  "deref d r = table (hashTable (ref_table r) d) ! ref_bucket r ! ref_pos r"

text \<open>\<open>entry.value = value\<close> through the pointer.\<close>

definition set_value :: "entry_ref \<Rightarrow> 'v \<Rightarrow> 'v SubDICK \<Rightarrow> 'v SubDICK" where
  "set_value r v d =
     (let t = hashTable (ref_table r) d;
          chain = table t ! ref_bucket r;
          chain' = chain[ref_pos r := (chain ! ref_pos r)\<lparr>evalue := v\<rparr>]
      in set_hashTable (ref_table r) (t\<lparr>table := (table t)[ref_bucket r := chain']\<rparr>) d)"

subsection \<open>Growing\<close>

definition expand :: "'v SubDICK \<Rightarrow> int64 \<Rightarrow> 'v SubDICK" where
  "expand d newSize =
     (let isrehashing = isRehashing d;
          istablefull = newSize <s used (ht0 d)
      in if isrehashing \<or> istablefull then d
         else
           let nextSize = nextPower newSize
           in if nextSize \<le>s used (ht0 d) then d
              else
                let newDickTable = NewDickTable nextSize
                in if length (table (ht0 d)) = 0 then d\<lparr>ht0 := newDickTable\<rparr>
                   else d\<lparr>ht1 := newDickTable, rehashidx := 0\<rparr>)"

definition expandIfNeeded :: "'v SubDICK \<Rightarrow> 'v SubDICK" where
  "expandIfNeeded d =
     (if isRehashing d then d
      else if length (table (ht0 d)) = 0 then expand d INITIAL_SIZE
      else if tsize (ht0 d) \<le>s used (ht0 d) then expand d (used (ht0 d) * 2)
      else d)"

subsection \<open>Rehashing\<close>

text \<open>
  The inner loop over empty buckets. \<open>ev\<close> is \<open>emptyVisits\<close>, which is positive whenever the
  loop is entered; the first equation is the return at the decrement that reaches 0, and a
  result with a positive count is the exit at a non-empty bucket.
\<close>

fun skip_empty :: "'v DickTable \<Rightarrow> int \<Rightarrow> nat \<Rightarrow> (int \<times> nat) go" where
  "skip_empty t i 0 = Inr (i, 0)"
| "skip_empty t i (Suc ev) =
     (if length (table t) = 0 then skip_empty t (i + 1) ev
      else rbind (go_index (table t) i) (\<lambda>chain.
        if chain = [] then skip_empty t (i + 1) ev else Inr (i, Suc ev)))"

text \<open>The loop that pushes the entries of a bucket onto the chains of the second table.\<close>

fun move_chain :: "'a hash_env_scheme \<Rightarrow> 'v DickEntry list \<Rightarrow> 'v SubDICK \<Rightarrow> 'v SubDICK go" where
  "move_chain E [] d = Inr d"
| "move_chain E (entry # rest) d =
     rbind (hasher E (ekey entry)) (\<lambda>h.
       let X = uint (h AND sizemask (ht1 d))
       in rbind (go_index (table (ht1 d)) X) (\<lambda>chain.
          rbind (go_update (table (ht1 d)) X (entry # chain)) (\<lambda>tb.
            move_chain E rest
              (d\<lparr>ht0 := (ht0 d)\<lparr>used := used (ht0 d) - 1\<rparr>,
                 ht1 := (ht1 d)\<lparr>table := tb, used := used (ht1 d) + 1\<rparr>\<rparr>))))"

text \<open>The outer loop; the flag of the result says that the function returned inside it.\<close>

fun rehash_loop ::
    "'a hash_env_scheme \<Rightarrow> nat \<Rightarrow> nat \<Rightarrow> 'v SubDICK \<Rightarrow> ('v SubDICK \<times> bool) go" where
  "rehash_loop E 0 ev d = Inr (d, False)"
| "rehash_loop E (Suc n) ev d =
     (if used (ht0 d) = 0 then Inr (d, False)
      else rbind (skip_empty (ht0 d) (rehashidx d) ev) (\<lambda>(i, ev').
        let d1 = d\<lparr>rehashidx := i\<rparr>
        in if ev' = 0 then Inr (d1, True)
           else rbind (go_index (table (ht0 d1)) i) (\<lambda>chain.
                rbind (move_chain E chain d1) (\<lambda>d2.
                rbind (go_update (table (ht0 d2)) (rehashidx d2) []) (\<lambda>tb.
                  rehash_loop E n ev'
                    (d2\<lparr>ht0 := (ht0 d2)\<lparr>table := tb\<rparr>, rehashidx := rehashidx d2 + 1\<rparr>))))))"

definition rehash :: "'a hash_env_scheme \<Rightarrow> nat \<Rightarrow> 'v SubDICK \<Rightarrow> 'v SubDICK go" where
  "rehash E n d =
     (if \<not> isRehashing d then Inr d
      else rbind (rehash_loop E n (n * 10) d) (\<lambda>(d1, returned).
        if returned then Inr d1
        else if used (ht0 d1) = 0
        then Inr (d1\<lparr>ht0 := ht1 d1, ht1 := NewDickTable 0, rehashidx := -1\<rparr>)
        else Inr d1))"

definition rehashStep :: "'a hash_env_scheme \<Rightarrow> 'v SubDICK \<Rightarrow> 'v SubDICK go" where
  "rehashStep E d = rehash E 1 d"

subsection \<open>Lookup, insertion and deletion\<close>

fun get_loop :: "'v SubDICK \<Rightarrow> string \<Rightarrow> uint64 \<Rightarrow> nat list \<Rightarrow> entry_ref option go" where
  "get_loop d k h [] = Inr None"
| "get_loop d k h (ind # inds) =
     (let t = hashTable ind d
      in if length (table t) = 0 \<or> (ind = 1 \<and> \<not> isRehashing d) then get_loop d k h inds
         else
           let index = h AND sizemask t
           in rbind (go_index (table t) (uint index)) (\<lambda>chain.
                case find_pos k chain of
                  Some p \<Rightarrow> Inr (Some (EntryRef ind (unat index) p))
                | None \<Rightarrow> get_loop d k h inds))"

definition sub_get :: "'a hash_env_scheme \<Rightarrow> 'v SubDICK \<Rightarrow> string \<Rightarrow> entry_ref option go" where
  "sub_get E d k =
     (if used (ht0 d) = 0 \<and> used (ht1 d) = 0 then Inr None
      else rbind (hasher E k) (\<lambda>h. get_loop d k h [0, 1]))"

fun keyIndex_loop :: "'v SubDICK \<Rightarrow> string \<Rightarrow> uint64 \<Rightarrow> nat list \<Rightarrow> int \<Rightarrow> int go" where
  "keyIndex_loop d k h [] index = Inr index"
| "keyIndex_loop d k h (i # is) index =
     (let t = hashTable i d;
          index' = sint (h AND sizemask t)
      in rbind (go_index (table t) index') (\<lambda>chain.
           if find_pos k chain \<noteq> None then Inr (-1)
           else if index' = -1 \<or> \<not> isRehashing d then Inr index'
           else keyIndex_loop d k h is index'))"

definition keyIndex :: "'a hash_env_scheme \<Rightarrow> 'v SubDICK \<Rightarrow> string \<Rightarrow> ('v SubDICK \<times> int) go" where
  "keyIndex E d k =
     (let d1 = expandIfNeeded d
      in rbind (hasher E k) (\<lambda>h.
         rbind (keyIndex_loop d1 k h [0, 1] 0) (\<lambda>index. Inr (d1, index))))"

datatype db_error = EntryExists string | EntryNotFound

text \<open>
  \<open>add\<close>: the index is computed before the rehash step. The entry goes to the second table
  while a rehash is going on before and after the step, else to the first.
\<close>

definition add ::
    "'a hash_env_scheme \<Rightarrow> 'v SubDICK \<Rightarrow> string \<Rightarrow> 'v \<Rightarrow> ('v SubDICK \<times> db_error option) go" where
  "add E d k v =
     rbind (keyIndex E d k) (\<lambda>(d1, X).
       if X = -1 then Inr (d1, Some (EntryExists k))
       else
         rbind (if isRehashing d1
                then rbind (rehashStep E d1) (\<lambda>d2. Inr (d2, if isRehashing d2 then 1 else 0))
                else Inr (d1, 0)) (\<lambda>(d2, which).
           let t = hashTable which d2
           in rbind (go_index (table t) X) (\<lambda>chain.
                if find_pos k chain = None
                then rbind (go_update (table t) X (NewDickEntry k v # chain)) (\<lambda>tb.
                       Inr (set_hashTable which (t\<lparr>table := tb, used := used t + 1\<rparr>) d2, None))
                else Inr (d2, None))))"

fun del_loop ::
    "'v SubDICK \<Rightarrow> string \<Rightarrow> uint64 \<Rightarrow> nat list \<Rightarrow> ('v SubDICK \<times> 'v DickEntry option) go" where
  "del_loop d k h [] = Inr (d, None)"
| "del_loop d k h (i # is) =
     (let t = hashTable i d
      in if i = 1 \<and> \<not> isRehashing d then del_loop d k h is
         else
           let index = uint (h AND sizemask t)
           in rbind (go_index (table t) index) (\<lambda>chain.
                case find_pos k chain of
                  None \<Rightarrow> del_loop d k h is
                | Some p \<Rightarrow>
                    rbind (go_update (table t) index (remove_at p chain)) (\<lambda>tb.
                      Inr (set_hashTable i (t\<lparr>table := tb, used := used t - 1\<rparr>) d,
                           Some (chain ! p)))))"

definition del ::
    "'a hash_env_scheme \<Rightarrow> 'v SubDICK \<Rightarrow> string \<Rightarrow> ('v SubDICK \<times> 'v DickEntry option) go" where
  "del E d k =
     (if used (ht0 d) = 0 \<and> used (ht1 d) = 0 then Inr (d, None)
      else
        rbind (if isRehashing d then rehashStep E d else Inr d) (\<lambda>d1.
        rbind (hasher E k) (\<lambda>h. del_loop d1 k h [0, 1])))"

subsection \<open>The shard's part of Get, Set and Del (operations.go)\<close>

text \<open>What \<open>Get\<close>, \<open>Set\<close> and \<open>Del\<close> do to the shard between locking and unlocking it.\<close>

definition shard_Get :: "'a hash_env_scheme \<Rightarrow> 'v SubDICK \<Rightarrow> string \<Rightarrow> 'v option go" where
  "shard_Get E d k =
     rbind (sub_get E d k) (\<lambda>r. Inr (map_option (\<lambda>p. evalue (deref d p)) r))"

definition shard_Set ::
    "'a hash_env_scheme \<Rightarrow> 'v SubDICK \<Rightarrow> string \<Rightarrow> 'v \<Rightarrow> ('v SubDICK \<times> db_error option) go" where
  "shard_Set E d k v =
     rbind (sub_get E d k) (\<lambda>r.
       case r of
         Some p \<Rightarrow> Inr (set_value p v d, None)
       | None \<Rightarrow> add E d k v)"

definition shard_Del ::
    "'a hash_env_scheme \<Rightarrow> 'v SubDICK \<Rightarrow> string \<Rightarrow> ('v SubDICK \<times> db_error option) go" where
  "shard_Del E d k =
     rbind (del E d k) (\<lambda>(d1, e).
       Inr (d1, case e of None \<Rightarrow> Some EntryNotFound | Some _ \<Rightarrow> None))"

end
