(* ===== verification/SubDickInv.thy ===== *)
theory SubDickInv
  imports SubDick
begin

text \<open>
  The invariant of a shard and the behaviour of its operations: the abstraction of a shard to
  the finite map of its entries, incremental rehashing (nothing is lost, no index leaves the
  tables, every step makes progress), and the load bound.
\<close>

declare One_nat_def [simp del]

named_theorems shard_simps \<open>projections of updated shards\<close>

subsection \<open>Abstraction and invariant\<close>

definition all_entries :: "'v SubDICK \<Rightarrow> 'v DickEntry list" where
  "all_entries d = entries (ht0 d) @ entries (ht1 d)"

definition sub_abs :: "'v SubDICK \<Rightarrow> string \<rightharpoonup> 'v" where
  "sub_abs d = amap (all_entries d)"

text \<open>The shape of the two tables during a rehash.\<close>

definition mid_rehash :: "'a hash_env_scheme \<Rightarrow> 'v SubDICK \<Rightarrow> bool" where
  "mid_rehash E d =
     (hasher_ok E \<and> table_ok (hash_of E) (ht0 d) \<and> table_ok (hash_of E) (ht1 d) \<and>
      0 \<le> rehashidx d \<and> nat (rehashidx d) \<le> length (table (ht0 d)) \<and>
      (\<forall>i < nat (rehashidx d). table (ht0 d) ! i = []) \<and>
      length (all_entries d) \<le> 2 ^ 62)"

text \<open>
  The invariant. While rehashing, the second table has room for all entries and one more for
  each bucket that is left to move, so that the insertions made meanwhile cannot overfill it.
\<close>

definition sub_inv :: "'a hash_env_scheme \<Rightarrow> 'v SubDICK \<Rightarrow> bool" where
  "sub_inv E d =
     (hasher_ok E \<and> keys_distinct (all_entries d) \<and>
      (if isRehashing d
       then mid_rehash E d \<and> nat (rehashidx d) < length (table (ht0 d)) \<and>
            length (all_entries d) + (length (table (ht0 d)) - nat (rehashidx d))
              \<le> length (table (ht1 d))
       else ht1 d = NewDickTable 0 \<and>
            (ht0 d = NewDickTable 0 \<or>
             table_ok (hash_of E) (ht0 d) \<and>
             length (entries (ht0 d)) \<le> length (table (ht0 d)))))"

lemma sub_inv_cases:
  assumes "sub_inv E d"
  obtains (fresh) "\<not> isRehashing d" "ht0 d = NewDickTable 0" "ht1 d = NewDickTable 0"
  | (stable) "\<not> isRehashing d" "ht1 d = NewDickTable 0" "table_ok (hash_of E) (ht0 d)"
      "length (entries (ht0 d)) \<le> length (table (ht0 d))"
  | (rehashing) "isRehashing d" "mid_rehash E d" "nat (rehashidx d) < length (table (ht0 d))"
      "length (all_entries d) + (length (table (ht0 d)) - nat (rehashidx d))
         \<le> length (table (ht1 d))"
  using assms by (auto simp: sub_inv_def split: if_splits)

lemma sub_inv_rehashing:
  assumes "sub_inv E d" and "isRehashing d"
  shows "mid_rehash E d" and "nat (rehashidx d) < length (table (ht0 d))"
    and "length (all_entries d) + (length (table (ht0 d)) - nat (rehashidx d))
         \<le> length (table (ht1 d))"
  using assms unfolding sub_inv_def by metis+

lemma sub_inv_hasher: "sub_inv E d \<Longrightarrow> hasher_ok E"
  by (simp add: sub_inv_def)

lemma sub_inv_distinct: "sub_inv E d \<Longrightarrow> keys_distinct (all_entries d)"
  by (simp add: sub_inv_def)

lemma sub_inv_New: "hasher_ok E \<Longrightarrow> sub_inv E NewSubDICK"
  by (simp add: sub_inv_def NewSubDICK_def isRehashing_def all_entries_def keys_distinct_def)

lemma sub_abs_New: "sub_abs NewSubDICK = Map.empty"
  by (simp add: sub_abs_def all_entries_def NewSubDICK_def amap_def)

lemma mid_rehashD:
  assumes "mid_rehash E d"
  shows "hasher_ok E" "table_ok (hash_of E) (ht0 d)" "table_ok (hash_of E) (ht1 d)"
    "length (all_entries d) \<le> 2 ^ 62"
  using assms by (simp_all add: mid_rehash_def)

lemma mid_used0:
  assumes "mid_rehash E d"
  shows "used (ht0 d) = 0 \<longleftrightarrow> entries (ht0 d) = []"
proof (rule table_ok_used_eq_0 [OF mid_rehashD(2) [OF assms]])
  show "length (entries (ht0 d)) < 2 ^ 64"
    using mid_rehashD(4) [OF assms] by (simp add: all_entries_def)
qed

subsection \<open>The loops of rehash\<close>

lemma skip_empty_spec:
  assumes "j < length (table t)" and "table t ! j \<noteq> []" and "i \<le> j"
  shows "\<exists>i' ev'. skip_empty t (int i) ev = Inr (int i', ev') \<and> i \<le> i' \<and> i' \<le> j \<and>
     (\<forall>m. i \<le> m \<and> m < i' \<longrightarrow> table t ! m = []) \<and> (ev' = 0 \<or> table t ! i' \<noteq> []) \<and>
     (0 < ev \<and> ev' = 0 \<longrightarrow> i < i')"
  using assms(3)
proof (induction ev arbitrary: i)
  case (Suc ev)
  have i: "i < length (table t)" using assms(1) Suc.prems by simp
  show ?case
  proof (cases "table t ! i = []")
    case True
    then have "Suc i \<le> j" using Suc.prems assms(2) by (metis le_neq_implies_less less_eq_Suc_le)
    from Suc.IH [OF this] obtain i' ev' where
      IH: "skip_empty t (int (Suc i)) ev = Inr (int i', ev')" "Suc i \<le> i'" "i' \<le> j"
        "\<forall>m. Suc i \<le> m \<and> m < i' \<longrightarrow> table t ! m = []" "ev' = 0 \<or> table t ! i' \<noteq> []"
      by blast
    have "skip_empty t (int i) (Suc ev) = Inr (int i', ev')"
      using True i IH(1) by (auto simp: add.commute)
    moreover have "\<forall>m. i \<le> m \<and> m < i' \<longrightarrow> table t ! m = []"
      using IH(4) True by (metis le_neq_implies_less less_eq_Suc_le)
    ultimately show ?thesis using IH by auto
  next
    case False
    have "skip_empty t (int i) (Suc ev) = Inr (int i, Suc ev)"
      using False i by auto
    then show ?thesis using False Suc.prems by auto
  qed
qed auto

text \<open>The effect of moving a chain on the second table.\<close>

lemma push_entry_ok:
  assumes "table_ok H t" and "i = slot H t (ekey e)"
    and "u = t\<lparr>table := (table t)[i := e # table t ! i], used := used t + 1\<rparr>"
  shows "table_ok H u" and "mset (entries u) = add_mset e (mset (entries t))"
    and "length (table u) = length (table t)" and "sizemask u = sizemask t"
proof -
  have i: "i < length (table t)" using assms(1,2) slot_less by blast
  have eq: "entries u = entries (t\<lparr>table := (table t)[i := e # table t ! i]\<rparr>)"
    using assms(3) by (simp add: entries_def)
  show ms: "mset (entries u) = add_mset e (mset (entries t))"
    using entries_update [OF i, of "e # table t ! i"] unfolding eq by simp
  have "length (entries u) = Suc (length (entries t))"
    using arg_cong [OF ms, of size] by simp
  then have us: "used u = of_nat (length (entries u))"
    using assms(1,3) by (simp add: table_ok_def)
  have sl: "\<forall>x \<in> set (e # table t ! i). slot H t (ekey x) = i"
    using assms(1,2) i by (auto simp: table_ok_def slotted_def)
  show "table_ok H u"
    by (rule table_ok_update [OF assms(1) _ _ _ us sl]) (simp_all add: assms(3))
  show "length (table u) = length (table t)" and "sizemask u = sizemask t"
    using assms(3) by simp_all
qed

lemma move_chain_spec:
  assumes "hasher_ok E" and "table_ok (hash_of E) (ht1 d)"
  shows "\<exists>t. move_chain E es d =
       Inr (d\<lparr>ht0 := (ht0 d)\<lparr>used := used (ht0 d) - of_nat (length es)\<rparr>, ht1 := t\<rparr>) \<and>
     table_ok (hash_of E) t \<and> mset (entries t) = mset es + mset (entries (ht1 d)) \<and>
     length (table t) = length (table (ht1 d)) \<and> sizemask t = sizemask (ht1 d)"
  using assms(2)
proof (induction es arbitrary: d)
  case Nil
  then show ?case by (intro exI [of _ "ht1 d"]) simp
next
  case (Cons e es)
  let ?i = "slot (hash_of E) (ht1 d) (ekey e)"
  let ?u = "(ht1 d)\<lparr>table := (table (ht1 d))[?i := e # table (ht1 d) ! ?i], used := used (ht1 d) + 1\<rparr>"
  let ?d = "d\<lparr>ht0 := (ht0 d)\<lparr>used := used (ht0 d) - 1\<rparr>, ht1 := ?u\<rparr>"
  note u = push_entry_ok [OF Cons.prems refl refl, of e]
  have i: "?i < length (table (ht1 d))" using Cons.prems by (rule slot_less)
  have "table_ok (hash_of E) (ht1 ?d)" using u(1) by simp
  from Cons.IH [OF this] obtain t where t:
    "move_chain E es ?d =
       Inr (?d\<lparr>ht0 := (ht0 ?d)\<lparr>used := used (ht0 ?d) - of_nat (length es)\<rparr>, ht1 := t\<rparr>)"
    "table_ok (hash_of E) t" "mset (entries t) = mset es + mset (entries (ht1 ?d))"
    "length (table t) = length (table (ht1 ?d))" "sizemask t = sizemask (ht1 ?d)"
    by blast
  have "move_chain E (e # es) d = move_chain E es ?d"
    using assms(1) i slot_access [OF Cons.prems] by (simp add: Let_def)
  then show ?case
    using t u by (auto simp: algebra_simps)
qed

text \<open>One bucket moved over: what an iteration of the outer loop does to the shard.\<close>

lemma mid_rehash_move:
  assumes mid: "mid_rehash E d" and i: "i < length (table (ht0 d))"
    and below: "\<forall>m < i. table (ht0 d) ! m = []"
    and t: "table_ok (hash_of E) t"
      "mset (entries t) = mset (table (ht0 d) ! i) + mset (entries (ht1 d))"
    and d': "d' = d\<lparr>ht0 := (ht0 d)\<lparr>table := (table (ht0 d))[i := []],
        used := used (ht0 d) - of_nat (length (table (ht0 d) ! i))\<rparr>,
      ht1 := t, rehashidx := int i + 1\<rparr>"
  shows "mid_rehash E d'" and "mset (all_entries d') = mset (all_entries d)"
proof -
  note ok0 = mid_rehashD(2) [OF mid]
  have eq: "entries (ht0 d') = entries ((ht0 d)\<lparr>table := (table (ht0 d))[i := []]\<rparr>)"
    by (simp add: d' entries_def)
  have ms: "mset (entries (ht0 d')) + mset (table (ht0 d) ! i) = mset (entries (ht0 d))"
    using entries_update [OF i, of "[]"] unfolding eq by simp
  then have len: "length (entries (ht0 d')) + length (table (ht0 d) ! i) = length (entries (ht0 d))"
    by (metis size_mset size_union)
  have "used (ht0 d') = used (ht0 d) - of_nat (length (table (ht0 d) ! i))"
    by (simp add: d')
  moreover have "used (ht0 d) = of_nat (length (entries (ht0 d)))"
    using ok0 by (simp add: table_ok_def)
  ultimately have us: "used (ht0 d') = of_nat (length (entries (ht0 d')))"
    unfolding len [symmetric] by simp
  have ok0': "table_ok (hash_of E) (ht0 d')"
    by (rule table_ok_update [OF ok0 _ _ _ us, where i = i and b = "[]"]) (simp_all add: d')
  show all: "mset (all_entries d') = mset (all_entries d)"
    using ms t(2) by (simp add: all_entries_def d' ac_simps)
  have "\<forall>m < Suc i. table (ht0 d') ! m = []"
    using below i by (simp add: d' nth_list_update less_Suc_eq)
  moreover have "nat (rehashidx d') = Suc i" "0 \<le> rehashidx d'" by (simp_all add: d')
  moreover have "length (all_entries d') \<le> 2 ^ 62"
    using mid_rehashD(4) [OF mid] all by (metis size_mset)
  ultimately show "mid_rehash E d'"
    using mid_rehashD(1) [OF mid] ok0' t(1) i by (simp add: mid_rehash_def) (simp add: d')
qed

lemma mid_nonempty_bucket:
  assumes "mid_rehash E d" and "used (ht0 d) \<noteq> 0"
  obtains j where "nat (rehashidx d) \<le> j" "j < length (table (ht0 d))" "table (ht0 d) ! j \<noteq> []"
proof -
  have "concat (table (ht0 d)) \<noteq> []"
    using assms mid_used0 by (auto simp: entries_def)
  then obtain j where j: "j < length (table (ht0 d))" "table (ht0 d) ! j \<noteq> []"
    by (metis concat_eq_Nil_conv in_set_conv_nth)
  then have "nat (rehashidx d) \<le> j"
    using assms(1) by (metis mid_rehash_def not_le)
  with j show thesis using that by blast
qed

text \<open>
  What a run of the outer loop guarantees: the entries stay, the second table keeps its size
  and mask, the index only grows, and it does grow when there is something to move.
\<close>

definition rehash_frame :: "'v SubDICK \<Rightarrow> 'v SubDICK \<Rightarrow> bool" where
  "rehash_frame d d' =
     (mset (all_entries d') = mset (all_entries d) \<and>
      length (table (ht0 d')) = length (table (ht0 d)) \<and>
      length (table (ht1 d')) = length (table (ht1 d)) \<and>
      sizemask (ht1 d') = sizemask (ht1 d) \<and> rehashidx d \<le> rehashidx d')"

lemma rehash_frame_refl: "rehash_frame d d"
  by (simp add: rehash_frame_def)

lemma rehash_frame_trans: "rehash_frame a b \<Longrightarrow> rehash_frame b c \<Longrightarrow> rehash_frame a c"
  by (auto simp: rehash_frame_def)

lemma rehash_loop_spec:
  assumes "mid_rehash E d" and "0 < ev \<or> n = 0"
  shows "\<exists>d' r. rehash_loop E n ev d = Inr (d', r) \<and> mid_rehash E d' \<and> rehash_frame d d' \<and>
     (r \<longrightarrow> used (ht0 d') \<noteq> 0) \<and>
     (0 < n \<and> used (ht0 d) \<noteq> 0 \<longrightarrow> rehashidx d < rehashidx d')"
  using assms
proof (induction n arbitrary: ev d)
  case 0
  then show ?case by (auto simp: rehash_frame_refl)
next
  case (Suc n)
  show ?case
  proof (cases "used (ht0 d) = 0")
    case True
    then show ?thesis using Suc.prems by (auto simp: rehash_frame_refl)
  next
    case False
    let ?i = "nat (rehashidx d)"
    have ridx: "rehashidx d = int ?i" using Suc.prems(1) by (simp add: mid_rehash_def)
    obtain j where j: "?i \<le> j" "j < length (table (ht0 d))" "table (ht0 d) ! j \<noteq> []"
      using mid_nonempty_bucket [OF Suc.prems(1) False] by blast
    obtain i' ev' where sk: "skip_empty (ht0 d) (rehashidx d) ev = Inr (int i', ev')"
      "?i \<le> i'" "i' \<le> j" "\<forall>m. ?i \<le> m \<and> m < i' \<longrightarrow> table (ht0 d) ! m = []"
      "ev' = 0 \<or> table (ht0 d) ! i' \<noteq> []" "0 < ev \<and> ev' = 0 \<longrightarrow> ?i < i'"
      using skip_empty_spec [OF j(2,3,1), of ev] ridx by metis
    have below: "\<forall>m < i'. table (ht0 d) ! m = []"
      using sk(4) Suc.prems(1) by (metis mid_rehash_def not_le)
    have i': "i' < length (table (ht0 d))" using sk(3) j(2) by simp
    let ?d1 = "d\<lparr>rehashidx := int i'\<rparr>"
    have all1: "all_entries ?d1 = all_entries d" by (simp add: all_entries_def)
    have mid1: "mid_rehash E ?d1"
      using Suc.prems(1) below i' by (simp add: mid_rehash_def all1)
    have fr1: "rehash_frame d ?d1"
      using sk(2) ridx by (simp add: rehash_frame_def all1)
    show ?thesis
    proof (cases "ev' = 0")
      case True
      then have "rehash_loop E (Suc n) ev d = Inr (?d1, True)"
        using False sk(1) by (simp add: Let_def)
      then show ?thesis using mid1 fr1 False sk(2,6) True Suc.prems(2) ridx by auto
    next
      case ne: False
      let ?c = "table (ht0 d) ! i'"
      obtain t where t: "move_chain E ?c ?d1 =
          Inr (?d1\<lparr>ht0 := (ht0 d)\<lparr>used := used (ht0 d) - of_nat (length ?c)\<rparr>, ht1 := t\<rparr>)"
        "table_ok (hash_of E) t" "mset (entries t) = mset ?c + mset (entries (ht1 d))"
        "length (table t) = length (table (ht1 d))" "sizemask t = sizemask (ht1 d)"
        using move_chain_spec [of E ?d1 ?c] mid_rehashD(1,3) [OF Suc.prems(1)] by auto
      define d3 where "d3 = d\<lparr>ht0 := (ht0 d)\<lparr>table := (table (ht0 d))[i' := []],
        used := used (ht0 d) - of_nat (length ?c)\<rparr>, ht1 := t, rehashidx := int i' + 1\<rparr>"
      note mv = mid_rehash_move [OF Suc.prems(1) i' below t(2,3) d3_def]
      have "d\<lparr>ht1 := t, ht0 := (ht0 d)\<lparr>used := used (ht0 d) - of_nat (length ?c),
          table := (table (ht0 d))[i' := []]\<rparr>, rehashidx := int i' + 1\<rparr> = d3"
        unfolding d3_def by (cases d, cases "ht0 d") simp
      then have "rehash_loop E (Suc n) ev d = rehash_loop E n ev' d3"
        using False sk(1) ne i' t(1) by (simp add: Let_def)
      moreover obtain d' r where "rehash_loop E n ev' d3 = Inr (d', r)" "mid_rehash E d'"
        "rehash_frame d3 d'" "r \<longrightarrow> used (ht0 d') \<noteq> 0"
        using Suc.IH [OF mv(1), of ev'] ne by auto
      moreover have "rehash_frame d d3" "rehashidx d < rehashidx d3"
        using mv(2) t(4,5) sk(2) ridx by (simp_all add: rehash_frame_def d3_def)
      moreover from calculation have "rehash_frame d d'"
        using rehash_frame_trans by blast
      moreover from calculation have "rehashidx d < rehashidx d'"
        unfolding rehash_frame_def by simp
      ultimately show ?thesis by simp
    qed
  qed
qed

subsection \<open>rehash as a whole\<close>

lemma mid_all_in_ht1:
  assumes "mid_rehash E d" and "used (ht0 d) = 0"
  shows "mset (entries (ht1 d)) = mset (all_entries d)"
  using mid_used0 [OF assms(1)] assms(2) by (simp add: all_entries_def)

text \<open>
  A rehash call on a well-formed shard returns, keeps the invariant and the entries, and
  either completes (the second table becomes the first) or leaves the index further on.
\<close>

lemma rehash_spec:
  assumes inv: "sub_inv E d" and re: "isRehashing d" and n: "0 < n"
  shows "\<exists>d'. rehash E n d = Inr d' \<and> sub_inv E d' \<and>
     mset (all_entries d') = mset (all_entries d) \<and>
     (if isRehashing d'
      then rehashidx d < rehashidx d' \<and> length (table (ht0 d')) = length (table (ht0 d)) \<and>
           length (table (ht1 d')) = length (table (ht1 d)) \<and>
           sizemask (ht1 d') = sizemask (ht1 d)
      else sizemask (ht0 d') = sizemask (ht1 d) \<and> table_ok (hash_of E) (ht0 d') \<and>
           length (entries (ht0 d')) < length (table (ht0 d')))"
proof -
  from inv re have mid: "mid_rehash E d" and lt: "nat (rehashidx d) < length (table (ht0 d))"
    and load: "length (all_entries d) + (length (table (ht0 d)) - nat (rehashidx d))
         \<le> length (table (ht1 d))"
    by (auto simp: sub_inv_def)
  obtain d1 r where loop: "rehash_loop E n (n * 10) d = Inr (d1, r)" and mid1: "mid_rehash E d1"
    and fr: "rehash_frame d d1" and r: "r \<longrightarrow> used (ht0 d1) \<noteq> 0"
    and prog: "used (ht0 d) \<noteq> 0 \<longrightarrow> rehashidx d < rehashidx d1"
    using rehash_loop_spec [OF mid, of "n * 10" n] n by auto
  have kd: "keys_distinct (all_entries d1)"
    using fr keys_distinct_mset sub_inv_distinct [OF inv] unfolding rehash_frame_def by blast
  have len: "length (all_entries d1) = length (all_entries d)"
    using fr by (metis rehash_frame_def size_mset)
  show ?thesis
  proof (cases "used (ht0 d1) = 0")
    case True
    let ?d' = "d1\<lparr>ht0 := ht1 d1, ht1 := NewDickTable 0, rehashidx := -1\<rparr>"
    have "rehash E n d = Inr ?d'"
      using re loop r True by (simp add: rehash_def)
    moreover have ent: "all_entries ?d' = entries (ht1 d1)"
      by (simp add: all_entries_def)
    have all: "mset (all_entries ?d') = mset (all_entries d)"
      unfolding ent using mid_all_in_ht1 [OF mid1 True] fr by (simp add: rehash_frame_def)
    moreover have "length (entries (ht1 d1)) = length (all_entries d)"
      using all unfolding ent by (metis size_mset)
    then have "length (entries (ht1 d1)) < length (table (ht1 d1))"
      using load lt fr by (simp add: rehash_frame_def)
    moreover have "keys_distinct (all_entries ?d')"
      using keys_distinct_mset [OF all] sub_inv_distinct [OF inv] by simp
    ultimately show ?thesis
      using mid_rehashD [OF mid1] fr
      by (auto simp: sub_inv_def isRehashing_def rehash_frame_def intro!: exI [of _ ?d'])
  next
    case False
    then obtain j where "nat (rehashidx d1) \<le> j" "j < length (table (ht0 d1))"
      using mid_nonempty_bucket [OF mid1] by blast
    then have lt1: "nat (rehashidx d1) < length (table (ht0 d1))" by simp
    have "rehash E n d = Inr d1"
      using re loop False by (simp add: rehash_def)
    moreover have "isRehashing d1"
      using mid1 by (simp add: mid_rehash_def isRehashing_def)
    moreover have "used (ht0 d) \<noteq> 0"
    proof
      assume "used (ht0 d) = 0"
      then have "rehash_loop E n (n * 10) d = Inr (d, False)" using n by (cases n) simp_all
      with loop False \<open>used (ht0 d) = 0\<close> show False by simp
    qed
    moreover have "length (all_entries d1) + (length (table (ht0 d1)) - nat (rehashidx d1))
        \<le> length (table (ht1 d1))"
      using load len fr unfolding rehash_frame_def by (simp add: le_diff_conv) linarith
    ultimately show ?thesis
      using mid1 kd lt1 fr prog mid_rehashD(1) [OF mid1]
      by (auto simp: sub_inv_def rehash_frame_def intro!: exI [of _ d1])
  qed
qed

lemmas rehashStep_spec = rehash_spec [where n = 1, folded rehashStep_def, simplified]

subsection \<open>Expansion\<close>

text \<open>
  After \<open>expandIfNeeded\<close> there is a first table, the entries are the same, and there is room
  for one more entry in the table that will receive it.
\<close>

lemma expand_fresh:
  assumes "hasher_ok E" and "\<not> isRehashing d" and "ht0 d = NewDickTable 0"
    and "ht1 d = NewDickTable 0"
  shows "expandIfNeeded d = d\<lparr>ht0 := NewDickTable (of_nat (2 ^ 7))\<rparr>"
proof -
  have "nextPower INITIAL_SIZE = 128" by (simp add: nextPower_def INITIAL_SIZE_def)
  then show ?thesis
    using assms(2,3) by (simp add: expandIfNeeded_def expand_def INITIAL_SIZE_def word_sless_alt word_sle_eq)
qed

lemma expand_full:
  assumes ok: "table_ok H (ht0 d)" and nr: "\<not> isRehashing d"
    and full: "length (entries (ht0 d)) = length (table (ht0 d))"
    and bound: "length (entries (ht0 d)) < 2 ^ 61"
  obtains k where "k \<le> 62" and "2 * length (table (ht0 d)) \<le> 2 ^ k"
    and "expandIfNeeded d = d\<lparr>ht1 := NewDickTable (of_nat (2 ^ k)), rehashidx := 0\<rparr>"
proof -
  let ?s = "length (table (ht0 d))"
  have s: "0 < ?s" "?s < 2 ^ 61" using table_ok_length(1) [OF ok] full bound by simp_all
  have us: "used (ht0 d) = of_nat ?s" "tsize (ht0 d) = of_nat ?s"
    using ok full by (simp_all add: table_ok_def)
  obtain k where k: "nextPower (of_nat (2 * ?s)) = of_nat (2 ^ k)" "k \<le> 62" "2 * ?s \<le> 2 ^ k"
    using nextPower_nat [of "2 * ?s"] s(2) by auto
  have pow: "(2::nat) ^ k \<le> 2 ^ 62" using k(2) by (intro power_increasing) simp_all
  have tw: "used (ht0 d) * 2 = of_nat (2 * ?s)" by (simp add: us)
  have c1: "tsize (ht0 d) \<le>s used (ht0 d)" by (simp add: us)
  have c2: "\<not> of_nat (2 * ?s) <s used (ht0 d)"
    unfolding us using s by (subst of_nat64_sless) simp_all
  have lt: "?s < 2 ^ k" using s(1) k(3) by linarith
  have c3: "\<not> of_nat (2 ^ k) \<le>s used (ht0 d)"
    unfolding us using lt s(2) pow by (subst of_nat64_sle) (simp_all only: not_le, simp_all)
  have ne: "length (table (ht0 d)) \<noteq> 0" using s(1) by simp
  have "expandIfNeeded d = expand d (of_nat (2 * ?s))"
    using nr ne c1 unfolding tw [symmetric] by (simp only: expandIfNeeded_def if_False if_True)
  also have "\<dots> = d\<lparr>ht1 := NewDickTable (of_nat (2 ^ k)), rehashidx := 0\<rparr>"
    using nr ne c2 c3 unfolding expand_def Let_def k(1) by (simp only: if_False disj_not1 simp_thms)
  finally show thesis using that k(2,3) by blast
qed

lemma expandIfNeeded_spec:
  assumes inv: "sub_inv E d" and bound: "length (all_entries d) < 2 ^ 61"
  shows "sub_inv E (expandIfNeeded d)" and "all_entries (expandIfNeeded d) = all_entries d"
    and "table_ok (hash_of E) (ht0 (expandIfNeeded d))"
    and "\<not> isRehashing (expandIfNeeded d) \<Longrightarrow>
      length (entries (ht0 (expandIfNeeded d))) < length (table (ht0 (expandIfNeeded d)))"
proof -
  let ?d = "expandIfNeeded d" and ?H = "hash_of E"
  have "sub_inv E ?d \<and> all_entries ?d = all_entries d \<and> table_ok ?H (ht0 ?d) \<and>
    (\<not> isRehashing ?d \<longrightarrow> length (entries (ht0 ?d)) < length (table (ht0 ?d)))"
    using inv
  proof (cases rule: sub_inv_cases)
    case fresh
    have eq: "?d = d\<lparr>ht0 := NewDickTable (of_nat (2 ^ 7))\<rparr>"
      by (rule expand_fresh [OF sub_inv_hasher [OF inv] fresh])
    have nr: "\<not> isRehashing ?d" using fresh(1) by (simp add: eq isRehashing_def)
    have new: "ht0 ?d = NewDickTable (of_nat (2 ^ 7))" "ht1 ?d = NewDickTable 0"
      unfolding eq using fresh(3) by simp_all
    have ok: "table_ok ?H (ht0 ?d)" "length (table (ht0 ?d)) = 2 ^ 7" "entries (ht0 ?d) = []"
      unfolding new(1) by (rule NewDickTable_ok; simp)+
    have "all_entries ?d = []" "all_entries d = []"
      using ok(3) fresh new(2) by (simp_all add: all_entries_def)
    then show ?thesis
      using nr ok new(2) sub_inv_hasher [OF inv] by (simp add: sub_inv_def keys_distinct_def)
  next
    case stable
    have b: "length (entries (ht0 d)) < 2 ^ 61" using bound by (simp add: all_entries_def)
    show ?thesis
    proof (cases "length (entries (ht0 d)) = length (table (ht0 d))")
      case True
      obtain k where k: "k \<le> 62" "2 * length (table (ht0 d)) \<le> 2 ^ k"
        "?d = d\<lparr>ht1 := NewDickTable (of_nat (2 ^ k)), rehashidx := 0\<rparr>"
        using expand_full [OF stable(3,1) True b] by blast
      have new: "ht0 ?d = ht0 d" "ht1 ?d = NewDickTable (of_nat (2 ^ k))" "rehashidx ?d = 0"
        unfolding k(3) by simp_all
      have ok: "table_ok ?H (ht1 ?d)" "length (table (ht1 ?d)) = 2 ^ k" "entries (ht1 ?d) = []"
        unfolding new(2) by (rule NewDickTable_ok [OF k(1)])+
      have all: "all_entries ?d = all_entries d"
        using ok(3) stable(2) new(1) by (simp add: all_entries_def)
      have mid: "mid_rehash E ?d"
        using stable(3) ok(1) bound sub_inv_hasher [OF inv]
        by (simp add: mid_rehash_def all new(1,3))
      have "length (all_entries d) = length (table (ht0 d))"
        using True stable(2) by (simp add: all_entries_def)
      then have "sub_inv E ?d"
        using mid k(2) ok(2) sub_inv_hasher [OF inv] sub_inv_distinct [OF inv]
          table_ok_length(1) [OF stable(3)]
        by (simp add: sub_inv_def isRehashing_def all new(1,3))
      then show ?thesis using all stable(3) by (simp add: isRehashing_def new(1,3))
    next
      case False
      then have lt: "length (entries (ht0 d)) < length (table (ht0 d))" using stable(4) by simp
      have "\<not> tsize (ht0 d) \<le>s used (ht0 d)"
        using stable(3) lt table_ok_length(2) [OF stable(3)]
        by (simp add: table_ok_def of_nat64_sle)
      then have "?d = d"
        using table_ok_nonempty [OF stable(3)] by (simp add: expandIfNeeded_def)
      then show ?thesis using inv lt stable(3) by simp
    qed
  next
    case rehashing
    then have "?d = d" by (simp add: expandIfNeeded_def)
    then show ?thesis using inv rehashing mid_rehashD(2) by simp
  qed
  then show "sub_inv E ?d" "all_entries ?d = all_entries d" "table_ok ?H (ht0 ?d)"
    "\<not> isRehashing ?d \<Longrightarrow> length (entries (ht0 ?d)) < length (table (ht0 ?d))"
    by simp_all
qed

subsection \<open>Changing one bucket\<close>

text \<open>The tables that hold entries: the first one, and during a rehash the second one.\<close>

definition live :: "'v SubDICK \<Rightarrow> nat \<Rightarrow> bool" where
  "live d i = (i = 0 \<or> i = 1 \<and> isRehashing d)"

lemma set_hashTable_simps [simp, shard_simps]:
  "rehashidx (set_hashTable i u d) = rehashidx d"
  "isRehashing (set_hashTable i u d) = isRehashing d"
  "hashTable i (set_hashTable i u d) = u"
  "ht0 (set_hashTable i u d) = (if i = 0 then u else ht0 d)"
  "ht1 (set_hashTable i u d) = (if i = 0 then ht1 d else u)"
  by (simp_all add: set_hashTable_def hashTable_def isRehashing_def)

lemma all_entries_bucket:
  assumes "b < length (table (hashTable i d))" and "table u = (table (hashTable i d))[b := c]"
  shows "mset (all_entries (set_hashTable i u d)) + mset (table (hashTable i d) ! b)
       = mset (all_entries d) + mset c"
proof -
  have "mset (entries u) + mset (table (hashTable i d) ! b)
      = mset (entries (hashTable i d)) + mset c"
    using mset_concat_update [OF assms(1), of c] assms(2) by (simp add: entries_def)
  then show ?thesis
    by (auto simp: all_entries_def hashTable_def ac_simps split: if_splits)
qed

lemma live_table_ok:
  assumes "sub_inv E d" and "live d i" and "table (hashTable i d) \<noteq> []"
  shows "table_ok (hash_of E) (hashTable i d)"
  using assms(1)
  by (cases rule: sub_inv_cases)
    (use assms(2,3) mid_rehashD in \<open>auto simp: live_def hashTable_def\<close>)

lemma sub_inv_bucket:
  assumes inv: "sub_inv E d" and live: "live d i" and b: "b < length (table (hashTable i d))"
    and u: "table u = (table (hashTable i d))[b := c]" "sizemask u = sizemask (hashTable i d)"
      "tsize u = tsize (hashTable i d)" "used u = of_nat (length (entries u))"
    and c: "\<forall>e \<in> set c. slot (hash_of E) (hashTable i d) (ekey e) = b"
      "i = 1 \<or> c = [] \<or> table (hashTable i d) ! b \<noteq> [] \<or> \<not> isRehashing d"
    and kd: "keys_distinct (all_entries (set_hashTable i u d))"
    and load: "if isRehashing d
       then length (all_entries (set_hashTable i u d)) + (length (table (ht0 d)) - nat (rehashidx d))
              \<le> length (table (ht1 d))
       else length (entries u) \<le> length (table (hashTable i d))"
  shows "sub_inv E (set_hashTable i u d)"
proof -
  have ok: "table_ok (hash_of E) (hashTable i d)"
    using inv live b by (intro live_table_ok) auto
  have oku: "table_ok (hash_of E) u"
    by (rule table_ok_update [OF ok u(2,3,1,4) c(1)])
  show ?thesis
    using inv
  proof (cases rule: sub_inv_cases)
    case rehashing
    have empty: "table u ! m = []" if "i = 0" "m < nat (rehashidx d)" for m
    proof (cases "m = b")
      case True
      then have "table (hashTable i d) ! b = []"
        using that rehashing(2) by (simp add: mid_rehash_def hashTable_def)
      then show ?thesis using c(2) that(1) True b u(1) rehashing(1) by simp
    next
      case False
      then show ?thesis using u(1) that rehashing(2) by (simp add: mid_rehash_def hashTable_def)
    qed
    have "length (all_entries (set_hashTable i u d)) \<le> 2 ^ 62"
      using load rehashing(1) table_ok_length(2) [OF mid_rehashD(3) [OF rehashing(2)]] by simp
    moreover have "length (table u) = length (table (hashTable i d))" using u(1) by simp
    moreover have "\<forall>m < nat (rehashidx d). table (ht0 (set_hashTable i u d)) ! m = []"
      using empty rehashing(2) by (simp add: mid_rehash_def)
    ultimately have "mid_rehash E (set_hashTable i u d)"
      using rehashing(2) oku by (auto simp: mid_rehash_def hashTable_def split: if_splits)
    then show ?thesis
      using rehashing(1,3) load kd sub_inv_hasher [OF inv] u(1)
      by (auto simp: sub_inv_def hashTable_def split: if_splits)
  qed (use live kd load oku sub_inv_hasher [OF inv] u(1) in
      \<open>auto simp: sub_inv_def live_def hashTable_def split: if_splits\<close>)
qed

subsection \<open>Lookup\<close>

lemma bucket_find:
  assumes "table_ok H t"
  shows "find_pos k (table t ! slot H t k) = None \<longleftrightarrow> (\<forall>e \<in> set (entries t). ekey e \<noteq> k)"
proof -
  have sl: "slotted H t" using assms by (simp add: table_ok_def)
  have "set (table t ! slot H t k) \<subseteq> set (entries t)"
    using slot_less [OF assms] by (rule bucket_subset)
  then show ?thesis
    unfolding find_pos_None using slotted_bucket [OF sl] by blast
qed

text \<open>A pointer that the lookup may return.\<close>

definition valid_ref :: "'a hash_env_scheme \<Rightarrow> 'v SubDICK \<Rightarrow> string \<Rightarrow> entry_ref \<Rightarrow> bool" where
  "valid_ref E d k r =
     (live d (ref_table r) \<and> table_ok (hash_of E) (hashTable (ref_table r) d) \<and>
      ref_bucket r = slot (hash_of E) (hashTable (ref_table r) d) k \<and>
      ref_pos r < length (table (hashTable (ref_table r) d) ! ref_bucket r) \<and>
      ekey (deref d r) = k)"

lemma get_loop_dead:
  "table (hashTable i d) = [] \<or> \<not> live d i \<and> i < 2 \<Longrightarrow>
   get_loop d k h (i # is) = get_loop d k h is"
  by (auto simp: live_def Let_def less_2_cases_iff)

lemma get_loop_live:
  assumes "hasher_ok E" and "table_ok (hash_of E) (hashTable i d)" and "live d i"
  shows "get_loop d k (hash_of E k) (i # is) =
     (case find_pos k (table (hashTable i d) ! slot (hash_of E) (hashTable i d) k) of
        Some p \<Rightarrow> Inr (Some (EntryRef i (slot (hash_of E) (hashTable i d) k) p))
      | None \<Rightarrow> get_loop d k (hash_of E k) is)"
  using assms(1,3) slot_access [OF assms(2), of k] table_ok_nonempty [OF assms(2)]
  by (auto simp: Let_def live_def split: option.splits)

declare get_loop.simps(2) [simp del]

lemma valid_refI:
  assumes "table_ok (hash_of E) (hashTable i d)" and "live d i"
    and "find_pos k (table (hashTable i d) ! slot (hash_of E) (hashTable i d) k) = Some p"
  shows "valid_ref E d k (EntryRef i (slot (hash_of E) (hashTable i d) k) p)"
  using assms(1,2) find_pos_Some [OF assms(3)] by (simp add: valid_ref_def deref_def)

lemma sub_get_spec:
  assumes inv: "sub_inv E d"
  shows "\<exists>r. sub_get E d k = Inr r \<and>
     (case r of None \<Rightarrow> \<forall>e \<in> set (all_entries d). ekey e \<noteq> k | Some p \<Rightarrow> valid_ref E d k p)"
  using inv
proof (cases rule: sub_inv_cases)
  case fresh
  then show ?thesis by (simp add: sub_get_def all_entries_def)
next
  case stable
  note h = sub_inv_hasher [OF inv]
  have lv: "live d 0" by (simp add: live_def)
  have t0: "hashTable 0 d = ht0 d" by (simp add: hashTable_def)
  have u0: "used (ht0 d) = 0 \<longleftrightarrow> entries (ht0 d) = []"
    using stable(4) table_ok_length(2) [OF stable(3)] by (intro table_ok_used_eq_0 [OF stable(3)]) simp
  have skip: "get_loop d k (hash_of E k) [1] = Inr None"
    using stable(2) by (simp add: get_loop_dead hashTable_def)
  show ?thesis
  proof (cases "used (ht0 d) = 0")
    case True
    then show ?thesis using u0 stable(2) by (simp add: sub_get_def all_entries_def)
  next
    case False
    then have "sub_get E d k = get_loop d k (hash_of E k) [0, 1]"
      using h by (simp add: sub_get_def)
    then show ?thesis
      using get_loop_live [OF h _ lv, of k "[1]"] stable(2,3) skip bucket_find [OF stable(3), of k]
        valid_refI [OF _ lv, of E k]
      by (auto simp: t0 all_entries_def split: option.splits)
  qed
next
  case rehashing
  note h = sub_inv_hasher [OF inv]
  have lv: "live d 0" "live d 1" using rehashing(1) by (simp_all add: live_def)
  have t: "hashTable 0 d = ht0 d" "hashTable 1 d = ht1 d" by (simp_all add: hashTable_def)
  note ok = mid_rehashD(2,3) [OF rehashing(2)]
  show ?thesis
  proof (cases "used (ht0 d) = 0 \<and> used (ht1 d) = 0")
    case True
    have "length (entries (ht1 d)) < 2 ^ 64"
      using mid_rehashD(4) [OF rehashing(2)] by (simp add: all_entries_def)
    then have "all_entries d = []"
      using True mid_used0 [OF rehashing(2)] table_ok_used_eq_0 [OF ok(2)]
      by (simp add: all_entries_def)
    then show ?thesis using True by (simp add: sub_get_def)
  next
    case False
    then have "sub_get E d k = get_loop d k (hash_of E k) [0, 1]"
      using h by (auto simp: sub_get_def)
    then show ?thesis
      using get_loop_live [OF h _ lv(1), of k "[1]"] get_loop_live [OF h _ lv(2), of k "[]"]
        ok bucket_find [OF ok(1), of k] bucket_find [OF ok(2), of k]
        valid_refI [OF _ lv(1), of E k] valid_refI [OF _ lv(2), of E k]
      by (auto simp: t all_entries_def split: option.splits)
  qed
qed

lemma live_subset:
  assumes "live d i" and "e \<in> set (entries (hashTable i d))"
  shows "e \<in> set (all_entries d)"
  using assms by (auto simp: live_def all_entries_def hashTable_def)

lemma valid_refD:
  assumes "valid_ref E d k p"
  shows "live d (ref_table p)" and "table_ok (hash_of E) (hashTable (ref_table p) d)"
    and "ref_bucket p = slot (hash_of E) (hashTable (ref_table p) d) k"
    and "ref_pos p < length (table (hashTable (ref_table p) d) ! ref_bucket p)"
    and "ekey (table (hashTable (ref_table p) d) ! ref_bucket p ! ref_pos p) = k"
  using assms unfolding valid_ref_def deref_def by blast+

lemma valid_ref_entry:
  assumes "valid_ref E d k p"
  shows "deref d p \<in> set (all_entries d)" and "ekey (deref d p) = k"
    and "ref_bucket p < length (table (hashTable (ref_table p) d))"
proof -
  let ?t = "hashTable (ref_table p) d"
  show b: "ref_bucket p < length (table ?t)"
    using slot_less [OF valid_refD(2) [OF assms], of k] valid_refD(3) [OF assms] by simp
  have "deref d p \<in> set (table ?t ! ref_bucket p)"
    unfolding deref_def using valid_refD(4) [OF assms] by (rule nth_mem)
  then have "deref d p \<in> set (entries ?t)" using bucket_subset [OF b] by blast
  then show "deref d p \<in> set (all_entries d)"
    using live_subset [OF valid_refD(1) [OF assms]] by blast
  show "ekey (deref d p) = k" unfolding deref_def by (rule valid_refD(5) [OF assms])
qed

lemma sub_abs_None: "sub_abs d k = None \<longleftrightarrow> (\<forall>e \<in> set (all_entries d). ekey e \<noteq> k)"
  by (simp add: sub_abs_def amap_None)

lemma sub_abs_ref:
  "sub_inv E d \<Longrightarrow> valid_ref E d k p \<Longrightarrow> sub_abs d k = Some (evalue (deref d p))"
  unfolding sub_abs_def
  using amap_Some [OF sub_inv_distinct valid_ref_entry(1)] valid_ref_entry(2) by metis

text \<open>The lookup of \<open>Get\<close> finds exactly what the shard stores, also in the middle of a rehash.\<close>

lemma shard_Get_spec: "sub_inv E d \<Longrightarrow> shard_Get E d k = Inr (sub_abs d k)"
proof -
  assume inv: "sub_inv E d"
  obtain r where r: "sub_get E d k = Inr r"
    "case r of None \<Rightarrow> \<forall>e \<in> set (all_entries d). ekey e \<noteq> k | Some p \<Rightarrow> valid_ref E d k p"
    using sub_get_spec [OF inv] by blast
  then have "sub_abs d k = map_option (\<lambda>p. evalue (deref d p)) r"
    using sub_abs_ref [OF inv] sub_abs_None [of d k] by (cases r) simp_all
  then show ?thesis using r(1) by (simp add: shard_Get_def)
qed

subsection \<open>Overwriting a value\<close>

lemma set_value_spec:
  assumes inv: "sub_inv E d" and ref: "valid_ref E d k p"
  shows "sub_inv E (set_value p v d)" and "sub_abs (set_value p v d) = (sub_abs d)(k \<mapsto> v)"
    and "length (all_entries (set_value p v d)) = length (all_entries d)"
proof -
  define i where "i = ref_table p"
  define b where "b = ref_bucket p"
  define q where "q = ref_pos p"
  let ?t = "hashTable i d" and ?H = "hash_of E"
  let ?c = "table ?t ! b"
  let ?e = "?c ! q"
  let ?e' = "?e\<lparr>evalue := v\<rparr>"
  define c where "c = ?c[q := ?e']"
  define u where "u = ?t\<lparr>table := (table ?t)[b := c]\<rparr>"
  have lv: "live d i" and ok: "table_ok ?H ?t" and q: "q < length ?c" and key: "ekey ?e = k"
    and sl: "b = slot ?H ?t k"
    unfolding i_def b_def q_def by (rule valid_refD [OF ref])+
  have b: "b < length (table ?t)" using ok sl slot_less by blast
  have d': "set_value p v d = set_hashTable i u d"
    by (simp add: set_value_def u_def c_def i_def b_def q_def Let_def)
  have mc: "add_mset ?e (mset c) = add_mset ?e' (mset ?c)"
    unfolding c_def using q by (simp add: mset_update add_mset_commute)
  have "mset (all_entries (set_hashTable i u d)) + mset ?c = mset (all_entries d) + mset c"
    by (rule all_entries_bucket [OF b]) (simp add: u_def)
  then have "add_mset ?e (mset (all_entries (set_hashTable i u d))) + mset ?c
      = add_mset ?e' (mset (all_entries d)) + mset ?c"
    using mc by (metis union_mset_add_mset_left union_mset_add_mset_right)
  then have ms: "add_mset ?e (mset (all_entries (set_hashTable i u d))) = add_mset ?e' (mset (all_entries d))"
    by simp
  have mem: "?e \<in> set (all_entries d)"
    using valid_ref_entry(1) [OF ref] by (simp add: deref_def i_def b_def q_def)
  note rep = amap_replace [OF ms _ mem sub_inv_distinct [OF inv], simplified]
  show "sub_abs (set_value p v d) = (sub_abs d)(k \<mapsto> v)"
    using rep(2) key by (simp add: sub_abs_def d')
  show len: "length (all_entries (set_value p v d)) = length (all_entries d)"
    unfolding d' using arg_cong [OF ms, of size] by simp
  have "length (entries u) = length (entries ?t)"
  proof -
    have "mset (entries u) + mset ?c = mset (entries ?t) + mset c"
      using entries_update [OF b, of c] by (simp add: u_def)
    then show ?thesis
      by (metis add_right_cancel c_def length_list_update size_mset size_union)
  qed
  then have us: "used u = of_nat (length (entries u))" and lu: "length (entries u) = length (entries ?t)"
    using ok by (simp_all add: u_def table_ok_def)
  have slc: "\<forall>e \<in> set c. slot ?H ?t (ekey e) = b"
  proof
    fix e assume "e \<in> set c"
    then have "e = ?e' \<or> e \<in> set ?c" unfolding c_def by (meson set_update_subset_insert insertE subsetD)
    then show "slot ?H ?t (ekey e) = b"
      using ok b sl key by (auto simp: table_ok_def slotted_def)
  qed
  have ne: "?c \<noteq> []" using q by auto
  have load: "if isRehashing d
       then length (all_entries (set_hashTable i u d)) + (length (table (ht0 d)) - nat (rehashidx d))
              \<le> length (table (ht1 d))
       else length (entries u) \<le> length (table ?t)"
    using inv len lu lv ok table_ok_nonempty [OF ok] unfolding d'
    by (auto simp: sub_inv_def live_def hashTable_def)
  show "sub_inv E (set_value p v d)"
    unfolding d'
    by (rule sub_inv_bucket [OF inv lv b _ _ _ us slc _ _ load])
      (use ne rep(1) in \<open>simp_all add: u_def\<close>)
qed

subsection \<open>Insertion\<close>

lemma keyIndex_loop_live:
  assumes "table_ok (hash_of E) (hashTable i d)"
  shows "keyIndex_loop d k (hash_of E k) (i # is) x =
     (if \<exists>e \<in> set (entries (hashTable i d)). ekey e = k then Inr (-1)
      else if isRehashing d
      then keyIndex_loop d k (hash_of E k) is (int (slot (hash_of E) (hashTable i d) k))
      else Inr (int (slot (hash_of E) (hashTable i d) k)))"
  using slot_access(2) [OF assms, of k] slot_index(2) [OF assms, of k] bucket_find [OF assms, of k]
  by (auto simp: Let_def)

declare keyIndex_loop.simps(2) [simp del]

text \<open>The table that receives a new entry.\<close>

definition target :: "'v SubDICK \<Rightarrow> nat" where
  "target d = (if isRehashing d then 1 else 0)"

lemma keyIndex_spec:
  assumes inv: "sub_inv E d" and bound: "length (all_entries d) < 2 ^ 61"
  shows "keyIndex E d k = Inr (expandIfNeeded d,
     if sub_abs d k = None
     then int (slot (hash_of E) (hashTable (target (expandIfNeeded d)) (expandIfNeeded d)) k)
     else -1)"
proof -
  let ?d = "expandIfNeeded d"
  note ex = expandIfNeeded_spec [OF inv bound]
  note h = sub_inv_hasher [OF inv]
  have ok0: "table_ok (hash_of E) (hashTable 0 ?d)" using ex(3) by (simp add: hashTable_def)
  have none: "sub_abs d k = None \<longleftrightarrow>
      (\<forall>e \<in> set (entries (ht0 ?d)) \<union> set (entries (ht1 ?d)). ekey e \<noteq> k)"
    using ex(2) unfolding sub_abs_None by (metis all_entries_def set_append)
  show ?thesis
  proof (cases "isRehashing ?d")
    case True
    then have ok1: "table_ok (hash_of E) (hashTable 1 ?d)"
      using ex(1) by (simp add: sub_inv_def mid_rehash_def hashTable_def)
    show ?thesis
      using h True none keyIndex_loop_live [OF ok0, of k "[1]" 0] keyIndex_loop_live [OF ok1, of k "[]"]
      by (auto simp: keyIndex_def Let_def target_def hashTable_def)
  next
    case False
    then have "entries (ht1 ?d) = []"
      using ex(1) by (simp add: sub_inv_def)
    then show ?thesis
      using h False none keyIndex_loop_live [OF ok0, of k "[1]" 0]
      by (auto simp: keyIndex_def Let_def target_def hashTable_def)
  qed
qed

definition room :: "'v SubDICK \<Rightarrow> bool" where
  "room d =
     (if isRehashing d
      then length (all_entries d) + (length (table (ht0 d)) - nat (rehashidx d))
             < length (table (ht1 d))
      else length (entries (ht0 d)) < length (table (ht0 d)))"

lemma insert_spec:
  assumes inv: "sub_inv E d" and room: "room d"
    and ok: "table_ok (hash_of E) (hashTable (target d) d)" and new: "sub_abs d k = None"
    and u: "u = (hashTable (target d) d)\<lparr>
        table := (table (hashTable (target d) d))[slot (hash_of E) (hashTable (target d) d) k :=
          NewDickEntry k v # table (hashTable (target d) d) ! slot (hash_of E) (hashTable (target d) d) k],
        used := used (hashTable (target d) d) + 1\<rparr>"
  shows "sub_inv E (set_hashTable (target d) u d)"
    and "sub_abs (set_hashTable (target d) u d) = (sub_abs d)(k \<mapsto> v)"
    and "length (all_entries (set_hashTable (target d) u d)) = Suc (length (all_entries d))"
proof -
  let ?i = "target d" and ?H = "hash_of E"
  let ?t = "hashTable ?i d"
  define b where "b = slot ?H ?t k"
  define c where "c = NewDickEntry k v # table ?t ! b"
  let ?d = "set_hashTable ?i u d"
  have uu: "u = ?t\<lparr>table := (table ?t)[b := c], used := used ?t + 1\<rparr>"
    unfolding u b_def c_def ..
  have key: "ekey (NewDickEntry k v) = k" "evalue (NewDickEntry k v) = v"
    by (simp_all add: NewDickEntry_def)
  have b: "b < length (table ?t)" unfolding b_def using ok by (rule slot_less)
  have lv: "live d ?i" by (simp add: live_def target_def)
  note push = push_entry_ok [OF ok, of b "NewDickEntry k v" u, unfolded key, OF b_def uu [unfolded c_def]]
  have "mset (all_entries ?d) + mset (table ?t ! b) = mset (all_entries d) + mset c"
    by (rule all_entries_bucket [OF b]) (simp add: uu)
  then have ms: "mset (all_entries ?d) = add_mset (NewDickEntry k v) (mset (all_entries d))"
    by (simp add: c_def)
  have "amap (all_entries d) (ekey (NewDickEntry k v)) = None"
    using new by (simp add: key sub_abs_def)
  note ins = amap_insert [OF ms sub_inv_distinct [OF inv] this]
  show len: "length (all_entries ?d) = Suc (length (all_entries d))"
    using arg_cong [OF ms, of size] by simp
  show "sub_abs ?d = (sub_abs d)(k \<mapsto> v)"
    using ins(2) by (simp add: sub_abs_def key)
  have slc: "\<forall>e \<in> set c. slot ?H ?t (ekey e) = b"
    using ok b by (auto simp: c_def key b_def table_ok_def slotted_def)
  have "length (entries u) = Suc (length (entries ?t))"
    using arg_cong [OF push(2), of size] by simp
  then have load: "if isRehashing d
      then length (all_entries ?d) + (length (table (ht0 d)) - nat (rehashidx d)) \<le> length (table (ht1 d))
      else length (entries u) \<le> length (table ?t)"
    using room len by (cases "isRehashing d") (simp_all add: room_def target_def hashTable_def)
  have us: "used u = of_nat (length (entries u))" using push(1) by (simp add: table_ok_def)
  have side: "?i = 1 \<or> c = [] \<or> table ?t ! b \<noteq> [] \<or> \<not> isRehashing d"
    by (simp add: target_def)
  show "sub_inv E ?d"
    by (rule sub_inv_bucket [OF inv lv b _ _ _ us slc side ins(1) load]) (simp_all add: uu)
qed

lemma add_spec:
  assumes inv: "sub_inv E d" and bound: "length (all_entries d) < 2 ^ 61"
    and new: "sub_abs d k = None"
  shows "\<exists>d'. add E d k v = Inr (d', None) \<and> sub_inv E d' \<and>
     sub_abs d' = (sub_abs d)(k \<mapsto> v) \<and> length (all_entries d') = Suc (length (all_entries d))"
proof -
  let ?H = "hash_of E"
  define d1 where "d1 = expandIfNeeded d"
  note ex = expandIfNeeded_spec [OF inv bound, folded d1_def]
  define X where "X = slot ?H (hashTable (target d1) d1) k"
  have ki: "keyIndex E d k = Inr (d1, int X)"
    using keyIndex_spec [OF inv bound, of k, folded d1_def] new by (simp add: X_def)
  have "\<exists>d2. (if isRehashing d1
        then rbind (rehashStep E d1) (\<lambda>d2. Inr (d2, if isRehashing d2 then 1 else 0))
        else Inr (d1, 0)) = Inr (d2, target d2) \<and> sub_inv E d2 \<and> room d2 \<and>
      table_ok ?H (hashTable (target d2) d2) \<and> mset (all_entries d2) = mset (all_entries d) \<and>
      X = slot ?H (hashTable (target d2) d2) k"
  proof (cases "isRehashing d1")
    case True
    obtain d2 where d2: "rehashStep E d1 = Inr d2" "sub_inv E d2"
      "mset (all_entries d2) = mset (all_entries d1)"
      "if isRehashing d2
       then rehashidx d1 < rehashidx d2 \<and> length (table (ht0 d2)) = length (table (ht0 d1)) \<and>
            length (table (ht1 d2)) = length (table (ht1 d1)) \<and>
            sizemask (ht1 d2) = sizemask (ht1 d1)
       else sizemask (ht0 d2) = sizemask (ht1 d1) \<and> table_ok ?H (ht0 d2) \<and>
            length (entries (ht0 d2)) < length (table (ht0 d2))"
      using rehashStep_spec [OF ex(1) True] by blast
    have len: "length (all_entries d2) = length (all_entries d1)" using d2(3) by (metis size_mset)
    have "sizemask (hashTable (target d2) d2) = sizemask (hashTable (target d1) d1)"
      using d2(4) True by (auto simp: target_def hashTable_def split: if_splits)
    then have X2: "X = slot ?H (hashTable (target d2) d2) k" unfolding X_def by (simp add: slot_def)
    have rm: "room d2"
    proof (cases "isRehashing d2")
      case re: True
      have "length (all_entries d1) + (length (table (ht0 d1)) - nat (rehashidx d1))
          \<le> length (table (ht1 d1))" "nat (rehashidx d1) < length (table (ht0 d1))" "0 \<le> rehashidx d1"
        using sub_inv_rehashing [OF ex(1) True] mid_rehash_def by blast+
      then show ?thesis using d2(4) re len by (simp add: room_def) linarith
    next
      case False
      then show ?thesis using d2(4) by (simp add: room_def)
    qed
    have "table_ok ?H (hashTable (target d2) d2)"
      using d2(2,4) by (auto simp: target_def hashTable_def sub_inv_def mid_rehash_def split: if_splits)
    then show ?thesis
      using True d2(1-3) ex(2) X2 rm by (auto simp: target_def intro!: exI [of _ d2])
  next
    case False
    then show ?thesis
      using ex by (auto simp: target_def room_def hashTable_def X_def intro!: exI [of _ d1])
  qed
  then obtain d2 where step: "(if isRehashing d1
        then rbind (rehashStep E d1) (\<lambda>d2. Inr (d2, if isRehashing d2 then 1 else 0))
        else Inr (d1, 0)) = Inr (d2, target d2)"
    and d2: "sub_inv E d2" "room d2" "table_ok ?H (hashTable (target d2) d2)"
      "mset (all_entries d2) = mset (all_entries d)" "X = slot ?H (hashTable (target d2) d2) k"
    by blast
  let ?t = "hashTable (target d2) d2"
  have abs: "sub_abs d2 = sub_abs d"
    using amap_mset [OF d2(4)] sub_inv_distinct [OF d2(1)] by (simp add: sub_abs_def)
  have len: "length (all_entries d2) = length (all_entries d)" using d2(4) by (metis size_mset)
  have X: "X < length (table ?t)" using d2(3,5) slot_less by blast
  have new2: "sub_abs d2 k = None" using new abs by simp
  have "find_pos k (table ?t ! X) = None"
  proof -
    have "live d2 (target d2)" by (simp add: live_def target_def)
    then show ?thesis
      using bucket_find [OF d2(3), of k] new2 live_subset unfolding d2(5) sub_abs_None by blast
  qed
  then have "add E d k v = Inr (set_hashTable (target d2)
      (?t\<lparr>table := (table ?t)[X := NewDickEntry k v # table ?t ! X], used := used ?t + 1\<rparr>) d2, None)"
    using ki step X by (simp add: add_def Let_def)
  then show ?thesis
    using insert_spec [OF d2(1-3) new2 refl, of v] abs len by (auto simp: d2(5))
qed

subsection \<open>Deletion\<close>

definition unlink :: "entry_ref \<Rightarrow> 'v SubDICK \<Rightarrow> 'v SubDICK" where
  "unlink r d =
     (let t = hashTable (ref_table r) d
      in set_hashTable (ref_table r)
           (t\<lparr>table := (table t)[ref_bucket r := remove_at (ref_pos r) (table t ! ref_bucket r)],
              used := used t - 1\<rparr>) d)"

lemma del_loop_dead: "\<not> live d i \<Longrightarrow> i < 2 \<Longrightarrow> del_loop d k h (i # is) = del_loop d k h is"
  by (auto simp: live_def Let_def less_2_cases_iff)

lemma del_loop_live:
  assumes "table_ok (hash_of E) (hashTable i d)" and "live d i"
  shows "del_loop d k (hash_of E k) (i # is) =
     (case find_pos k (table (hashTable i d) ! slot (hash_of E) (hashTable i d) k) of
        None \<Rightarrow> del_loop d k (hash_of E k) is
      | Some p \<Rightarrow>
          Inr (unlink (EntryRef i (slot (hash_of E) (hashTable i d) k) p) d,
               Some (deref d (EntryRef i (slot (hash_of E) (hashTable i d) k) p))))"
  using assms(2) slot_access [OF assms(1), of k]
  by (auto simp: Let_def live_def unlink_def deref_def split: option.splits)

declare del_loop.simps(2) [simp del]

lemma unlink_spec:
  assumes inv: "sub_inv E d" and ref: "valid_ref E d k p"
  shows "sub_inv E (unlink p d)" and "sub_abs (unlink p d) = (sub_abs d)(k := None)"
    and "Suc (length (all_entries (unlink p d))) = length (all_entries d)"
proof -
  define i where "i = ref_table p"
  define b where "b = ref_bucket p"
  define q where "q = ref_pos p"
  let ?t = "hashTable i d" and ?H = "hash_of E"
  let ?c = "table ?t ! b"
  define u where "u = ?t\<lparr>table := (table ?t)[b := remove_at q ?c], used := used ?t - 1\<rparr>"
  have lv: "live d i" and ok: "table_ok ?H ?t" and sl: "b = slot ?H ?t k"
    and q: "q < length ?c" and key: "ekey (?c ! q) = k"
    unfolding i_def b_def q_def by (rule valid_refD [OF ref])+
  have b: "b < length (table ?t)" using ok sl slot_less by blast
  have d': "unlink p d = set_hashTable i u d"
    by (simp add: unlink_def u_def i_def b_def q_def Let_def)
  have mc: "add_mset (?c ! q) (mset (remove_at q ?c)) = mset ?c"
    using q by (rule mset_remove_at)
  have "mset (all_entries (set_hashTable i u d)) + mset ?c = mset (all_entries d) + mset (remove_at q ?c)"
    by (rule all_entries_bucket [OF b]) (simp add: u_def)
  then have ms: "add_mset (?c ! q) (mset (all_entries (set_hashTable i u d))) = mset (all_entries d)"
    unfolding mc [symmetric] by simp
  note del = amap_delete [OF ms sub_inv_distinct [OF inv]]
  show "sub_abs (unlink p d) = (sub_abs d)(k := None)"
    using del(2) key by (simp add: sub_abs_def d')
  show len: "Suc (length (all_entries (unlink p d))) = length (all_entries d)"
    unfolding d' using arg_cong [OF ms, of size] by simp
  have "mset (entries u) + mset ?c = mset (entries ?t) + mset (remove_at q ?c)"
    using mset_concat_update [OF b, of "remove_at q ?c"] by (simp add: u_def entries_def)
  then have "add_mset (?c ! q) (mset (entries u)) = mset (entries ?t)"
    unfolding mc [symmetric] by simp
  from arg_cong [OF this, of size] have lu: "length (entries ?t) = Suc (length (entries u))" by simp
  have "used u = used ?t - 1" by (simp add: u_def)
  moreover have "used ?t = of_nat (length (entries ?t))" using ok by (simp add: table_ok_def)
  ultimately have us: "used u = of_nat (length (entries u))" by (simp add: lu)
  have "set (remove_at q ?c) \<subseteq> set ?c"
    unfolding remove_at_def using set_take_subset [of q ?c] set_drop_subset [of "Suc q" ?c] by auto
  then have slc: "\<forall>e \<in> set (remove_at q ?c). slot ?H ?t (ekey e) = b"
    using ok b by (auto simp: table_ok_def slotted_def)
  have ne: "i = 1 \<or> remove_at q ?c = [] \<or> ?c \<noteq> [] \<or> \<not> isRehashing d" using q by auto
  have load: "if isRehashing d
       then length (all_entries (set_hashTable i u d)) + (length (table (ht0 d)) - nat (rehashidx d))
              \<le> length (table (ht1 d))
       else length (entries u) \<le> length (table ?t)"
  proof (cases "isRehashing d")
    case True
    then show ?thesis using sub_inv_rehashing(3) [OF inv True] len unfolding d' by simp
  next
    case False
    then have "i = 0" using lv by (simp add: live_def)
    then show ?thesis
      using False inv lu ok table_ok_nonempty [OF ok] by (auto simp: sub_inv_def hashTable_def)
  qed
  show "sub_inv E (unlink p d)"
    unfolding d'
    by (rule sub_inv_bucket [OF inv lv b _ _ _ us slc ne del(1) load]) (simp_all add: u_def)
qed

lemma del_loop_spec:
  assumes inv: "sub_inv E d" and ok: "table_ok (hash_of E) (ht0 d)"
  shows "(\<exists>p. valid_ref E d k p \<and>
       del_loop d k (hash_of E k) [0, 1] = Inr (unlink p d, Some (deref d p))) \<or>
     sub_abs d k = None \<and> del_loop d k (hash_of E k) [0, 1] = Inr (d, None)"
proof -
  have l0: "live d 0" and t0: "hashTable 0 d = ht0 d" by (simp_all add: live_def hashTable_def)
  have ok0: "table_ok (hash_of E) (hashTable 0 d)" unfolding t0 by (rule ok)
  show ?thesis
  proof (cases "find_pos k (table (hashTable 0 d) ! slot (hash_of E) (hashTable 0 d) k)")
    case (Some p)
    then show ?thesis
      using del_loop_live [OF ok0 l0, of k "[1]"] valid_refI [OF ok0 l0 Some] by auto
  next
    case None
    then have n0: "\<forall>e \<in> set (entries (ht0 d)). ekey e \<noteq> k"
      using bucket_find [OF ok0, of k] unfolding t0 by blast
    show ?thesis
    proof (cases "isRehashing d")
      case True
      then have l1: "live d 1" by (simp add: live_def)
      have t1: "hashTable 1 d = ht1 d" by (simp add: hashTable_def)
      have ok1: "table_ok (hash_of E) (hashTable 1 d)"
        unfolding t1 using sub_inv_rehashing(1) [OF inv True] by (rule mid_rehashD)
      show ?thesis
      proof (cases "find_pos k (table (hashTable 1 d) ! slot (hash_of E) (hashTable 1 d) k)")
        case (Some p)
        then show ?thesis
          using None del_loop_live [OF ok0 l0, of k "[1]"] del_loop_live [OF ok1 l1, of k "[]"]
            valid_refI [OF ok1 l1 Some] by auto
      next
        case none1: None
        then have "\<forall>e \<in> set (entries (ht1 d)). ekey e \<noteq> k"
          using bucket_find [OF ok1, of k] unfolding t1 by blast
        then show ?thesis
          using n0 None none1 del_loop_live [OF ok0 l0, of k "[1]"] del_loop_live [OF ok1 l1, of k "[]"]
          by (auto simp: sub_abs_None all_entries_def)
      qed
    next
      case False
      then have "entries (ht1 d) = []" "\<not> live d 1"
        using inv by (simp_all add: sub_inv_def live_def)
      then show ?thesis
        using n0 None del_loop_live [OF ok0 l0, of k "[1]"] del_loop_dead [of d 1 k "hash_of E k" "[]"]
        by (auto simp: sub_abs_None all_entries_def)
    qed
  qed
qed

lemma del_spec:
  assumes inv: "sub_inv E d"
  shows "\<exists>d' r. del E d k = Inr (d', r) \<and> sub_inv E d' \<and> sub_abs d' = (sub_abs d)(k := None) \<and>
     map_option evalue r = sub_abs d k \<and> length (all_entries d') \<le> length (all_entries d)"
proof (cases "used (ht0 d) = 0 \<and> used (ht1 d) = 0")
  case True
  then have "sub_get E d k = Inr None" by (simp add: sub_get_def)
  then have "sub_abs d k = None" using sub_get_spec [OF inv, of k] sub_abs_None by auto
  then show ?thesis using True inv by (auto simp: del_def fun_eq_iff)
next
  case False
  have "\<exists>d1. (if isRehashing d then rehashStep E d else Inr d) = Inr d1 \<and> sub_inv E d1 \<and>
      mset (all_entries d1) = mset (all_entries d) \<and> table_ok (hash_of E) (ht0 d1)"
  proof (cases "isRehashing d")
    case True
    then show ?thesis
      using rehashStep_spec [OF inv True] mid_rehashD(2) sub_inv_rehashing(1) by metis
  next
    case nr: False
    then have "table_ok (hash_of E) (ht0 d)" using inv False by (auto simp: sub_inv_def)
    with nr inv show ?thesis by simp
  qed
  then obtain d1 where step: "(if isRehashing d then rehashStep E d else Inr d) = Inr d1"
    and d1: "sub_inv E d1" "mset (all_entries d1) = mset (all_entries d)"
      "table_ok (hash_of E) (ht0 d1)" by blast
  have abs: "sub_abs d1 = sub_abs d"
    using amap_mset [OF d1(2)] sub_inv_distinct [OF d1(1)] by (simp add: sub_abs_def)
  have len: "length (all_entries d1) = length (all_entries d)" using d1(2) by (metis size_mset)
  have del: "del E d k = del_loop d1 k (hash_of E k) [0, 1]"
    using False step sub_inv_hasher [OF inv] by (auto simp: del_def)
  from del_loop_spec [OF d1(1,3), of k] show ?thesis
  proof
    assume "\<exists>p. valid_ref E d1 k p \<and>
        del_loop d1 k (hash_of E k) [0, 1] = Inr (unlink p d1, Some (deref d1 p))"
    then obtain p where p: "valid_ref E d1 k p"
      "del E d k = Inr (unlink p d1, Some (deref d1 p))" using del by auto
    then show ?thesis
      using unlink_spec [OF d1(1) p(1)] sub_abs_ref [OF d1(1) p(1)] abs len by auto
  next
    assume "sub_abs d1 k = None \<and> del_loop d1 k (hash_of E k) [0, 1] = Inr (d1, None)"
    then show ?thesis using d1(1) del abs len by (auto simp: fun_eq_iff)
  qed
qed

subsection \<open>The shard operations refine a finite map\<close>

lemma shard_Set_spec:
  assumes inv: "sub_inv E d" and bound: "length (all_entries d) < 2 ^ 61"
  shows "\<exists>d'. shard_Set E d k v = Inr (d', None) \<and> sub_inv E d' \<and>
     sub_abs d' = (sub_abs d)(k \<mapsto> v) \<and> length (all_entries d') \<le> Suc (length (all_entries d))"
proof -
  obtain r where r: "sub_get E d k = Inr r"
    "case r of None \<Rightarrow> \<forall>e \<in> set (all_entries d). ekey e \<noteq> k | Some p \<Rightarrow> valid_ref E d k p"
    using sub_get_spec [OF inv] by blast
  show ?thesis
  proof (cases r)
    case None
    then have "sub_abs d k = None" using r(2) sub_abs_None [of d k] by simp
    then show ?thesis using add_spec [OF inv bound, of k v] r(1) None by (auto simp: shard_Set_def)
  next
    case (Some p)
    then have "valid_ref E d k p" using r(2) by simp
    then show ?thesis
      using set_value_spec [OF inv, of k p v] r(1) Some by (auto simp: shard_Set_def)
  qed
qed

lemma shard_Del_spec:
  assumes inv: "sub_inv E d"
  shows "\<exists>d'. shard_Del E d k = Inr (d', if sub_abs d k = None then Some EntryNotFound else None) \<and>
     sub_inv E d' \<and> sub_abs d' = (sub_abs d)(k := None) \<and>
     length (all_entries d') \<le> length (all_entries d)"
  using del_spec [OF inv, of k] by (auto simp: shard_Del_def split: option.splits)

subsection \<open>A rehash comes to its end\<close>

text \<open>\<open>m\<close> calls of \<open>rehashStep\<close> in a row.\<close>

fun rehash_steps :: "'a hash_env_scheme \<Rightarrow> nat \<Rightarrow> 'v SubDICK \<Rightarrow> 'v SubDICK go" where
  "rehash_steps E 0 d = Inr d"
| "rehash_steps E (Suc m) d = rbind (rehashStep E d) (rehash_steps E m)"

lemma rehashStep_idle: "\<not> isRehashing d \<Longrightarrow> rehashStep E d = Inr d"
  by (simp add: rehashStep_def rehash_def)

lemma rehashStep_keeps:
  assumes "sub_inv E d"
  obtains d' where "rehashStep E d = Inr d'" and "sub_inv E d'" and "sub_abs d' = sub_abs d"
    and "length (all_entries d') = length (all_entries d)"
    and "isRehashing d' \<Longrightarrow> isRehashing d \<and> rehashidx d < rehashidx d' \<and>
           length (table (ht0 d')) = length (table (ht0 d))"
proof (cases "isRehashing d")
  case True
  from rehashStep_spec [OF assms True] obtain d' where d': "rehashStep E d = Inr d'"
    "sub_inv E d'" "mset (all_entries d') = mset (all_entries d)"
    "if isRehashing d'
      then rehashidx d < rehashidx d' \<and> length (table (ht0 d')) = length (table (ht0 d)) \<and>
           length (table (ht1 d')) = length (table (ht1 d)) \<and>
           sizemask (ht1 d') = sizemask (ht1 d)
      else sizemask (ht0 d') = sizemask (ht1 d) \<and> table_ok (hash_of E) (ht0 d') \<and>
           length (entries (ht0 d')) < length (table (ht0 d'))" by blast
  have "sub_abs d' = sub_abs d"
    using amap_mset [OF d'(3)] sub_inv_distinct [OF d'(2)] by (simp add: sub_abs_def)
  with d' True show thesis by (intro that [of d']) (auto dest: mset_eq_length)
next
  case False
  then show thesis using assms by (intro that [of d]) (simp_all add: rehashStep_idle)
qed

lemma rehash_steps_spec:
  assumes "sub_inv E d"
    and "isRehashing d \<Longrightarrow> int (length (table (ht0 d))) - rehashidx d \<le> int m"
  shows "\<exists>d'. rehash_steps E m d = Inr d' \<and> sub_inv E d' \<and> sub_abs d' = sub_abs d \<and>
     \<not> isRehashing d'"
  using assms
proof (induction m arbitrary: d)
  case 0
  then have "\<not> isRehashing d" by (auto simp: sub_inv_def)
  with 0 show ?case by simp
next
  case (Suc m)
  obtain d1 where d1: "rehashStep E d = Inr d1" "sub_inv E d1" "sub_abs d1 = sub_abs d"
    "isRehashing d1 \<Longrightarrow> isRehashing d \<and> rehashidx d < rehashidx d1 \<and>
       length (table (ht0 d1)) = length (table (ht0 d))"
    using rehashStep_keeps [OF Suc.prems(1)] by metis
  have "int (length (table (ht0 d1))) - rehashidx d1 \<le> int m" if "isRehashing d1"
    using d1(4) [OF that] Suc.prems(2) by simp
  from Suc.IH [OF d1(2) this] d1(1,3) show ?case by simp
qed

end
