(* ===== verification/PcasHash.thy ===== *)
theory PcasHash
  imports GoPrelude
begin

text \<open>
  The hash package that routes keys to shards: the stateless hashes of pcas_hash/hash.go and
  the streaming hasher of pcas_hash/hasher.go, with its recycling through \<open>sync.Pool\<close>.

  A float is represented by the bit pattern that \<open>math.Float32bits\<close> and
  \<open>math.Float64bits\<close> read. A byte slice is a list of characters.
\<close>

subsection \<open>Stateless hashes (hash.go)\<close>

definition Combine :: "uint32 \<Rightarrow> uint32 \<Rightarrow> uint32" where
  "Combine h1 h2 = h1 XOR (h2 + 0x9e3779b9 + push_bit 6 h1 + drop_bit 2 h1)"

text \<open>The loop shared by all slice hashes: the first element starts, the others combine.\<close>

fun slice_hash :: "('a \<Rightarrow> uint32) \<Rightarrow> 'a list \<Rightarrow> uint32" where
  "slice_hash f [] = 0"
| "slice_hash f (x # xs) = foldl (\<lambda>h y. Combine h (f y)) (f x) xs"

definition Bool :: "bool \<Rightarrow> uint32" where
  "Bool c = (if c then 1 else 0)"

definition BoolSlice :: "bool list \<Rightarrow> uint32" where
  "BoolSlice S = slice_hash Bool S"

definition Int8 :: "8 word \<Rightarrow> uint32" where
  "Int8 c = scast c"

definition Int8Slice :: "8 word list \<Rightarrow> uint32" where
  "Int8Slice S = slice_hash Int8 S"

definition Int16 :: "16 word \<Rightarrow> uint32" where
  "Int16 c = scast c"

definition Int16Slice :: "16 word list \<Rightarrow> uint32" where
  "Int16Slice S = slice_hash Int16 S"

definition Int32 :: "32 word \<Rightarrow> uint32" where
  "Int32 c = c"

definition Int32Slice :: "32 word list \<Rightarrow> uint32" where
  "Int32Slice S = slice_hash Int32 S"

definition Int64 :: "int64 \<Rightarrow> uint32" where
  "Int64 c = Combine (ucast c) (ucast (signed_drop_bit 32 c))"

definition Int64Slice :: "int64 list \<Rightarrow> uint32" where
  "Int64Slice S = slice_hash Int64 S"

definition IntHash :: "int64 \<Rightarrow> uint32" where
  "IntHash c = Int64 c"

definition IntSlice :: "int64 list \<Rightarrow> uint32" where
  "IntSlice S = slice_hash IntHash S"

definition Uint8 :: "8 word \<Rightarrow> uint32" where
  "Uint8 c = ucast c"

definition Uint8Slice :: "8 word list \<Rightarrow> uint32" where
  "Uint8Slice S = slice_hash Uint8 S"

definition Uint16 :: "16 word \<Rightarrow> uint32" where
  "Uint16 c = ucast c"

definition Uint16Slice :: "16 word list \<Rightarrow> uint32" where
  "Uint16Slice S = slice_hash Uint16 S"

definition Uint32 :: "uint32 \<Rightarrow> uint32" where
  "Uint32 c = c"

definition Uint32Slice :: "uint32 list \<Rightarrow> uint32" where
  "Uint32Slice S = slice_hash Uint32 S"

definition Uint64 :: "uint64 \<Rightarrow> uint32" where
  "Uint64 c = Combine (ucast c) (ucast (drop_bit 32 c))"

definition Uint64Slice :: "uint64 list \<Rightarrow> uint32" where
  "Uint64Slice S = slice_hash Uint64 S"

definition Uint :: "uint64 \<Rightarrow> uint32" where
  "Uint c = Uint64 c"

definition UintSlice :: "uint64 list \<Rightarrow> uint32" where
  "UintSlice S = slice_hash Uint S"

definition Float32 :: "uint32 \<Rightarrow> uint32" where
  "Float32 bits = Uint32 bits"

definition Float32Slice :: "uint32 list \<Rightarrow> uint32" where
  "Float32Slice S = slice_hash Float32 S"

definition Float64 :: "uint64 \<Rightarrow> uint32" where
  "Float64 bits = Uint64 bits"

definition Float64Slice :: "uint64 list \<Rightarrow> uint32" where
  "Float64Slice S = slice_hash Float64 S"

definition Byte :: "char \<Rightarrow> uint32" where
  "Byte c = of_char c"

subsection \<open>The streaming hasher (hasher.go)\<close>

record Hash =
  hcur :: uint32
  idx :: nat
  buf :: "char list"
  hasFirst :: bool

definition zero_Hash :: Hash where
  "zero_Hash = \<lparr>hcur = 0, idx = 0, buf = replicate 4 (CHR 0x00), hasFirst = False\<rparr>"

text \<open>\<open>Reset\<close> leaves the bytes buffer as it is.\<close>

definition Reset :: "Hash \<Rightarrow> Hash" where
  "Reset g = g\<lparr>hcur := 0, idx := 0, hasFirst := False\<rparr>"

text \<open>
  \<open>New\<close> takes a hasher from the pool, which is either new or one that was returned with
  whatever state it had, and resets it: the argument is the hasher that the pool hands out.
\<close>

definition New :: "Hash \<Rightarrow> Hash" where
  "New g = Reset g"

text \<open>The little-endian value of up to four buffered bytes, as the shifts spell it out.\<close>

definition byte1 :: "char list \<Rightarrow> uint32" where
  "byte1 b = of_char (b ! 0)"

definition byte2 :: "char list \<Rightarrow> uint32" where
  "byte2 b = of_char (b ! 0) OR push_bit 8 (of_char (b ! 1))"

definition byte3 :: "char list \<Rightarrow> uint32" where
  "byte3 b = of_char (b ! 0) OR push_bit 8 (of_char (b ! 1)) OR push_bit 16 (of_char (b ! 2))"

definition byte4 :: "char list \<Rightarrow> uint32" where
  "byte4 b = of_char (b ! 0) OR push_bit 8 (of_char (b ! 1)) OR push_bit 16 (of_char (b ! 2))
     OR push_bit 24 (of_char (b ! 3))"

text \<open>
  One iteration of the loop of \<open>Write\<close>. With a full buffer the branch flushes it and sets
  \<open>idx\<close> to 0; the byte \<open>c\<close> of this iteration is stored nowhere.
\<close>

definition write_byte :: "Hash \<Rightarrow> char \<Rightarrow> Hash" where
  "write_byte g c =
     (if idx g < 4 then g\<lparr>buf := (buf g)[idx g := c], idx := idx g + 1\<rparr>
      else
        let v = byte4 (buf g);
            g' = (if hasFirst g then g\<lparr>hcur := Combine (hcur g) v\<rparr>
                  else g\<lparr>hcur := v, hasFirst := True\<rparr>)
        in g'\<lparr>idx := 0\<rparr>)"

definition Write :: "Hash \<Rightarrow> char list \<Rightarrow> Hash \<times> nat" where
  "Write g b = (foldl write_byte g b, length b)"

definition HashValue :: "Hash option \<Rightarrow> uint32" where
  "HashValue p =
     (case p of None \<Rightarrow> 0
      | Some g \<Rightarrow>
          if idx g \<noteq> 0 then
            let vv = (if idx g = 1 then byte1 (buf g)
                      else if idx g = 2 then byte2 (buf g)
                      else if idx g = 3 then byte3 (buf g)
                      else if idx g = 4 then byte4 (buf g)
                      else 0)
            in if hasFirst g then Combine (hcur g) vv else vv
          else hcur g)"

definition Sum32 :: "Hash option \<Rightarrow> uint32" where
  "Sum32 p = HashValue p"

definition le_bytes4 :: "uint32 \<Rightarrow> char list" where
  "le_bytes4 v = map (\<lambda>i. char_of (unat (drop_bit (8 * i) v))) [0, 1, 2, 3]"

text \<open>\<open>Sum\<close> on a nil hasher with a non-empty slice dereferences nil.\<close>

definition Sum :: "Hash option \<Rightarrow> char list \<Rightarrow> char list go" where
  "Sum p b =
     (if b = [] then Inr (le_bytes4 (HashValue p))
      else case p of None \<Rightarrow> Inl NilDereference
        | Some g \<Rightarrow> Inr (le_bytes4 (HashValue (Some (fst (Write g b))))))"

definition Size :: nat where
  "Size = 4"

definition BlockSize :: nat where
  "BlockSize = 512"

subsection \<open>Strings and byte slices (hash.go)\<close>

definition ByteSlice :: "Hash \<Rightarrow> char list \<Rightarrow> uint32" where
  "ByteSlice g S =
     (if length S = 0 then 0
      else if length S = 1 then of_char (S ! 0)
      else if length S = 2 then byte2 S
      else if length S = 3 then byte3 S
      else if length S = 4 then byte4 S
      else HashValue (Some (fst (Write (New g) S))))"

definition StringHash :: "Hash \<Rightarrow> string \<Rightarrow> uint32" where
  "StringHash g s = ByteSlice g s"

definition StringSlice :: "Hash \<Rightarrow> string list \<Rightarrow> uint32" where
  "StringSlice g S =
     (if length S = 0 then 0
      else HashValue (Some (foldl (\<lambda>h s. fst (Write h s)) (New g) S)))"

subsection \<open>What the streaming hasher computes\<close>

text \<open>
  The words that enter the hash: groups of five bytes, of which the first four are read, and
  a last group of one to four bytes.
\<close>

fun le_word :: "char list \<Rightarrow> uint32" where
  "le_word [a] = byte1 [a]"
| "le_word [a, b] = byte2 [a, b]"
| "le_word [a, b, c] = byte3 [a, b, c]"
| "le_word (a # b # c # d # _) = byte4 [a, b, c, d]"
| "le_word [] = 0"

fun pcas_words :: "char list \<Rightarrow> uint32 list" where
  "pcas_words [] = []"
| "pcas_words (a # b # c # d # e # s) = le_word [a, b, c, d] # pcas_words s"
| "pcas_words s = [le_word s]"

definition combine_words :: "uint32 option \<Rightarrow> uint32 list \<Rightarrow> uint32 option" where
  "combine_words acc ws =
     foldl (\<lambda>h v. Some (case h of None \<Rightarrow> v | Some x \<Rightarrow> Combine x v)) acc ws"

lemma combine_words_simps [simp]:
  "combine_words acc [] = acc"
  "combine_words acc (w # ws) =
     combine_words (Some (case acc of None \<Rightarrow> w | Some x \<Rightarrow> Combine x w)) ws"
  by (simp_all add: combine_words_def)

lemma combine_words_Some:
  "combine_words (Some x) ws = Some (foldl Combine x ws)"
  by (induction ws arbitrary: x) simp_all

text \<open>A hasher at a group boundary: nothing is buffered, \<open>acc\<close> is the value so far.\<close>

definition at_boundary :: "Hash \<Rightarrow> uint32 option \<Rightarrow> bool" where
  "at_boundary g acc =
     (idx g = 0 \<and> length (buf g) = 4 \<and>
      (case acc of None \<Rightarrow> \<not> hasFirst g \<and> hcur g = 0 | Some x \<Rightarrow> hasFirst g \<and> hcur g = x))"

lemma length4: "length xs = 4 \<longleftrightarrow> (\<exists>a b c d. xs = [a, b, c, d])"
  by (auto simp: eval_nat_numeral length_Suc_conv)

lemma write_group:
  assumes "at_boundary g acc"
  shows "at_boundary (foldl write_byte g [a, b, c, d, e])
           (Some (case acc of None \<Rightarrow> byte4 [a, b, c, d] | Some x \<Rightarrow> Combine x (byte4 [a, b, c, d])))"
proof -
  obtain p q r s where "buf g = [p, q, r, s]"
    using assms by (auto simp: at_boundary_def length4)
  then show ?thesis
    using assms by (auto simp: at_boundary_def write_byte_def Let_def eval_nat_numeral split: option.splits)
qed

lemma write_tail:
  assumes "at_boundary g acc" and "length s \<le> 4"
  shows "HashValue (Some (foldl write_byte g s)) =
     (case combine_words acc (pcas_words s) of None \<Rightarrow> 0 | Some x \<Rightarrow> x)"
proof -
  obtain p q r t where b: "buf g = [p, q, r, t]"
    using assms by (auto simp: at_boundary_def length4)
  have "s = [] \<or> (\<exists>a. s = [a]) \<or> (\<exists>a b. s = [a, b]) \<or> (\<exists>a b c. s = [a, b, c])
      \<or> (\<exists>a b c d. s = [a, b, c, d])"
    using assms(2) by (cases s rule: pcas_words.cases) auto
  then show ?thesis
    using assms(1) b
    by (elim disjE exE)
      (auto simp: at_boundary_def write_byte_def HashValue_def byte1_def byte2_def byte3_def
        byte4_def eval_nat_numeral Let_def split: option.splits)
qed

lemma write_words:
  "at_boundary g acc \<Longrightarrow>
   HashValue (Some (foldl write_byte g s)) =
     (case combine_words acc (pcas_words s) of None \<Rightarrow> 0 | Some x \<Rightarrow> x)"
proof (induction s arbitrary: g acc rule: pcas_words.induct)
  case (2 a b c d e s)
  from "2.IH" [OF write_group [OF "2.prems", of a b c d e]] show ?case by simp
qed (rule write_tail; simp)+

lemma at_boundary_Reset: "length (buf g) = 4 \<Longrightarrow> at_boundary (Reset g) None"
  by (simp add: at_boundary_def Reset_def)

lemma StringHash_words:
  assumes "length (buf g) = 4"
  shows "StringHash g s = (case combine_words None (pcas_words s) of None \<Rightarrow> 0 | Some x \<Rightarrow> x)"
proof (cases "length s \<le> 4")
  case True
  then have "s = [] \<or> (\<exists>a. s = [a]) \<or> (\<exists>a b. s = [a, b]) \<or> (\<exists>a b c. s = [a, b, c])
      \<or> (\<exists>a b c d. s = [a, b, c, d])"
    by (cases s rule: pcas_words.cases) auto
  then show ?thesis
    by (elim disjE exE) (simp_all add: StringHash_def ByteSlice_def byte1_def)
next
  case False
  then have "StringHash g s = HashValue (Some (foldl write_byte (Reset g) s))"
    by (auto simp: StringHash_def ByteSlice_def Write_def New_def)
  then show ?thesis using write_words [OF at_boundary_Reset [OF assms]] by simp
qed

lemma StringHash_pool:
  "length (buf g) = 4 \<Longrightarrow> StringHash g s = StringHash zero_Hash s"
  by (simp add: StringHash_words zero_Hash_def)

lemma pcas_words_append5:
  assumes "length p mod 5 = 4"
  shows "pcas_words (p @ c # s) = pcas_words (p @ c' # s)"
  using assms by (induction p rule: pcas_words.induct) (auto simp: mod_Suc split: if_splits)

text \<open>Hashing several strings is hashing their concatenation.\<close>

lemma foldl_Write: "foldl (\<lambda>h s. fst (Write h s)) g S = foldl write_byte g (concat S)"
  by (induction S arbitrary: g) (simp_all add: Write_def)

text \<open>The signed and the unsigned 64-bit hash read the same bits.\<close>

lemma Int64_Uint64: "Int64 c = Uint64 c"
proof -
  have "(ucast (signed_drop_bit 32 c) :: uint32) = ucast (drop_bit 32 c)"
    by (rule bit_word_eqI) (auto simp: bit_ucast_iff bit_signed_drop_bit_iff bit_drop_bit_eq)
  then show ?thesis by (simp add: Int64_def Uint64_def)
qed

lemma slice_hash_snoc:
  "xs \<noteq> [] \<Longrightarrow> slice_hash f (xs @ [y]) = Combine (slice_hash f xs) (f y)"
  by (cases xs) simp_all

end
