(* ===== verification/KVStore.thy ===== *)
theory KVStore
  imports GoPrelude
begin

text \<open>
  The contract of a key-value store, which both a single shard and the sharded database
  fulfil, and what follows from it for clients: lookups after updates, and the refinement of
  any sequence of requests to the same sequence on a finite map.

  The parameters are the operations that a client calls, the invariant, the map that a state
  stands for, a bound \<open>cap\<close> on the number of entries (the counters of the code are 64-bit
  integers), the value \<open>ret\<close> that a lookup returns for what the map holds, and the error of a
  deletion that found nothing.
\<close>

subsection \<open>Requests, answers and their meaning on a finite map\<close>

datatype 'v request = GetReq string | SetReq string 'v | DelReq string

datatype ('r, 'e) answer = Value 'r | Done "'e option"

fun map_step :: "('v option \<Rightarrow> 'r) \<Rightarrow> 'e \<Rightarrow> 'v request \<Rightarrow> (string \<rightharpoonup> 'v) \<Rightarrow>
    (string \<rightharpoonup> 'v) \<times> ('r, 'e) answer" where
  "map_step ret nf (GetReq k) m = (m, Value (ret (m k)))"
| "map_step ret nf (SetReq k v) m = (m(k \<mapsto> v), Done None)"
| "map_step ret nf (DelReq k) m = (m(k := None), Done (if m k = None then Some nf else None))"

fun map_run :: "('v option \<Rightarrow> 'r) \<Rightarrow> 'e \<Rightarrow> 'v request list \<Rightarrow> (string \<rightharpoonup> 'v) \<Rightarrow>
    (string \<rightharpoonup> 'v) \<times> ('r, 'e) answer list" where
  "map_run ret nf [] m = (m, [])"
| "map_run ret nf (q # qs) m =
     (let (m1, a) = map_step ret nf q m; (m2, as) = map_run ret nf qs m1 in (m2, a # as))"

text \<open>The same requests on a store with the given operations; a fault ends the run.\<close>

fun store_step :: "('s \<Rightarrow> string \<Rightarrow> 'r go) \<Rightarrow> ('s \<Rightarrow> string \<Rightarrow> 'v \<Rightarrow> ('s \<times> 'e option) go) \<Rightarrow>
    ('s \<Rightarrow> string \<Rightarrow> ('s \<times> 'e option) go) \<Rightarrow> 'v request \<Rightarrow> 's \<Rightarrow> ('s \<times> ('r, 'e) answer) go" where
  "store_step gets puts dels (GetReq k) s = rbind (gets s k) (\<lambda>r. Inr (s, Value r))"
| "store_step gets puts dels (SetReq k v) s = rbind (puts s k v) (\<lambda>(s', e). Inr (s', Done e))"
| "store_step gets puts dels (DelReq k) s = rbind (dels s k) (\<lambda>(s', e). Inr (s', Done e))"

fun store_run :: "('s \<Rightarrow> string \<Rightarrow> 'r go) \<Rightarrow> ('s \<Rightarrow> string \<Rightarrow> 'v \<Rightarrow> ('s \<times> 'e option) go) \<Rightarrow>
    ('s \<Rightarrow> string \<Rightarrow> ('s \<times> 'e option) go) \<Rightarrow> 'v request list \<Rightarrow> 's \<Rightarrow>
    ('s \<times> ('r, 'e) answer list) go" where
  "store_run gets puts dels [] s = Inr (s, [])"
| "store_run gets puts dels (q # qs) s =
     rbind (store_step gets puts dels q s) (\<lambda>(s1, a).
     rbind (store_run gets puts dels qs s1) (\<lambda>(s2, as). Inr (s2, a # as)))"

subsection \<open>The contract\<close>

locale kv_store =
  fixes inv :: "'s \<Rightarrow> bool"
    and cnt :: "'s \<Rightarrow> nat"
    and cap :: nat
    and view :: "'s \<Rightarrow> string \<rightharpoonup> 'v"
    and ret :: "'v option \<Rightarrow> 'r"
    and nf :: 'e
    and gets :: "'s \<Rightarrow> string \<Rightarrow> 'r go"
    and puts :: "'s \<Rightarrow> string \<Rightarrow> 'v \<Rightarrow> ('s \<times> 'e option) go"
    and dels :: "'s \<Rightarrow> string \<Rightarrow> ('s \<times> 'e option) go"
  assumes get_ok: "inv s \<Longrightarrow> gets s k = Inr (ret (view s k))"
    and set_ok: "inv s \<Longrightarrow> cnt s < cap \<Longrightarrow>
      \<exists>s'. puts s k v = Inr (s', None) \<and> inv s' \<and> view s' = (view s)(k \<mapsto> v) \<and>
        cnt s' \<le> Suc (cnt s)"
    and del_ok: "inv s \<Longrightarrow>
      \<exists>s'. dels s k = Inr (s', if view s k = None then Some nf else None) \<and> inv s' \<and>
        view s' = (view s)(k := None) \<and> cnt s' \<le> cnt s"
begin

lemma set_get_same:
  assumes "inv s" and "cnt s < cap" and "puts s k v = Inr (s', e)"
  shows "e = None" and "inv s'" and "gets s' k = Inr (ret (Some v))"
    and "k' \<noteq> k \<Longrightarrow> gets s' k' = gets s k'"
  using set_ok [OF assms(1,2), of k v] assms(1,3) get_ok by auto

lemma del_get:
  assumes "inv s" and "dels s k = Inr (s', e)"
  shows "inv s'" and "gets s' k = Inr (ret None)" and "k' \<noteq> k \<Longrightarrow> gets s' k' = gets s k'"
    and "e = None \<longleftrightarrow> view s k \<noteq> None"
  using del_ok [OF assms(1), of k] assms get_ok by (auto split: if_splits)

lemma step_refines:
  assumes "inv s" and "cnt s < cap"
  shows "\<exists>s'. store_step gets puts dels q s = Inr (s', snd (map_step ret nf q (view s))) \<and> inv s' \<and>
     view s' = fst (map_step ret nf q (view s)) \<and> cnt s' \<le> Suc (cnt s)"
proof (cases q)
  case (GetReq k)
  then show ?thesis using assms(1) get_ok by auto
next
  case (SetReq k v)
  then show ?thesis using set_ok [OF assms, of k v] by auto
next
  case (DelReq k)
  then show ?thesis using del_ok [OF assms(1), of k] by (auto intro: le_SucI)
qed

lemma run_refines:
  assumes "inv s" and "cnt s + length qs \<le> cap"
  shows "\<exists>s'. store_run gets puts dels qs s = Inr (s', snd (map_run ret nf qs (view s))) \<and> inv s' \<and>
     view s' = fst (map_run ret nf qs (view s)) \<and> cnt s' \<le> cnt s + length qs"
  using assms
proof (induction qs arbitrary: s)
  case (Cons q qs)
  have "cnt s < cap" using Cons.prems(2) by simp
  from step_refines [OF Cons.prems(1) this, of q] obtain s1 where
    s1: "store_step gets puts dels q s = Inr (s1, snd (map_step ret nf q (view s)))" "inv s1"
      "view s1 = fst (map_step ret nf q (view s))" "cnt s1 \<le> Suc (cnt s)" by blast
  have "cnt s1 + length qs \<le> cap" using s1(4) Cons.prems(2) by simp
  from Cons.IH [OF s1(2) this] s1 show ?case
    by (auto simp: Let_def split: prod.splits)
qed simp

end

end
