(* ===== verification/XDick.thy ===== *)
theory XDick
  imports SubDickInv PcasHash KVStore
begin

text \<open>
  The sharded database: \<open>XDICK\<close> (database/dick.go) with its operations \<open>Get\<close>, \<open>Set\<close> and
  \<open>Del\<close> (database/operations.go), and the \<open>XDatabase\<close> around it (database/db.go).

  A key is routed to a shard by its pcas hash modulo the number of shards; the shard's mutex
  is held for the whole operation, so each operation is one step of the shard.
\<close>

subsection \<open>State\<close>

text \<open>The dynamic values that reach the database (\<open>interface{}\<close>): nil, and what the JSON
  decoder and the socket produce. A number is the bit pattern of its \<open>float64\<close>.\<close>

datatype go_value =
    GoNil
  | GoString string
  | GoBool bool
  | GoFloat uint64
  | GoSlice "go_value list"
  | GoMap "(string \<times> go_value) list"

record db_env = hash_env +
  pool :: Hash

record XDICK =
  SubDICKs :: "go_value SubDICK list"
  SubCount :: uint32

definition NewXDICK :: "uint32 \<Rightarrow> XDICK" where
  "NewXDICK sub_dicks =
     \<lparr>SubDICKs = replicate (unat sub_dicks) NewSubDICK, SubCount = sub_dicks\<rparr>"

subsection \<open>Operations\<close>

text \<open>\<open>pcas.String(key) % d.SubCount\<close>\<close>

definition shard_index :: "'a db_env_scheme \<Rightarrow> XDICK \<Rightarrow> string \<Rightarrow> uint32 go" where
  "shard_index E d key =
     (if SubCount d = 0 then Inl DivideByZero
      else Inr (StringHash (pool E) key mod SubCount d))"

definition XDICK_Get :: "'a db_env_scheme \<Rightarrow> XDICK \<Rightarrow> string \<Rightarrow> go_value go" where
  "XDICK_Get E d key =
     rbind (shard_index E d key) (\<lambda>i.
     rbind (go_index (SubDICKs d) (uint i)) (\<lambda>sd.
     rbind (shard_Get E sd key) (\<lambda>r.
       Inr (case r of None \<Rightarrow> GoNil | Some v \<Rightarrow> v))))"

definition XDICK_Set ::
    "'a db_env_scheme \<Rightarrow> XDICK \<Rightarrow> string \<Rightarrow> go_value \<Rightarrow> (XDICK \<times> db_error option) go" where
  "XDICK_Set E d key v =
     rbind (shard_index E d key) (\<lambda>i.
     rbind (go_index (SubDICKs d) (uint i)) (\<lambda>sd.
     rbind (shard_Set E sd key v) (\<lambda>(sd', err).
     rbind (go_update (SubDICKs d) (uint i) sd') (\<lambda>sds.
       Inr (d\<lparr>SubDICKs := sds\<rparr>, err)))))"

definition XDICK_Del ::
    "'a db_env_scheme \<Rightarrow> XDICK \<Rightarrow> string \<Rightarrow> (XDICK \<times> db_error option) go" where
  "XDICK_Del E d key =
     rbind (shard_index E d key) (\<lambda>i.
     rbind (go_index (SubDICKs d) (uint i)) (\<lambda>sd.
     rbind (shard_Del E sd key) (\<lambda>(sd', err).
     rbind (go_update (SubDICKs d) (uint i) sd') (\<lambda>sds.
       Inr (d\<lparr>SubDICKs := sds\<rparr>, err)))))"

record XDatabase =
  db_XDICK :: XDICK
  BootT :: int

definition NewDICK :: "int \<Rightarrow> uint32 \<Rightarrow> XDatabase" where
  "NewDICK now sub_dicks = \<lparr>db_XDICK = NewXDICK sub_dicks, BootT = now\<rparr>"

definition XDatabase_Get :: "'a db_env_scheme \<Rightarrow> XDatabase \<Rightarrow> string \<Rightarrow> go_value go" where
  "XDatabase_Get E db key = XDICK_Get E (db_XDICK db) key"

definition XDatabase_Set ::
    "'a db_env_scheme \<Rightarrow> XDatabase \<Rightarrow> string \<Rightarrow> go_value \<Rightarrow> (XDatabase \<times> db_error option) go" where
  "XDatabase_Set E db key v =
     rbind (XDICK_Set E (db_XDICK db) key v) (\<lambda>(d, err). Inr (db\<lparr>db_XDICK := d\<rparr>, err))"

definition XDatabase_Del ::
    "'a db_env_scheme \<Rightarrow> XDatabase \<Rightarrow> string \<Rightarrow> (XDatabase \<times> db_error option) go" where
  "XDatabase_Del E db key =
     rbind (XDICK_Del E (db_XDICK db) key) (\<lambda>(d, err). Inr (db\<lparr>db_XDICK := d\<rparr>, err))"

subsection \<open>A shard is a key-value store\<close>

definition shard_count :: "'v SubDICK \<Rightarrow> nat" where
  "shard_count d = length (all_entries d)"

interpretation shard: kv_store "sub_inv E" shard_count "2 ^ 61" sub_abs "\<lambda>r. r" EntryNotFound
  "shard_Get E" "shard_Set E" "shard_Del E"
  for E :: "'a hash_env_scheme"
  by unfold_locales
    (simp_all add: shard_count_def shard_Get_spec shard_Set_spec shard_Del_spec)

subsection \<open>Routing\<close>

definition route :: "XDICK \<Rightarrow> string \<Rightarrow> nat" where
  "route d k = unat (StringHash zero_Hash k) mod unat (SubCount d)"

definition env_ok :: "'a db_env_scheme \<Rightarrow> bool" where
  "env_ok E = (hasher_ok E \<and> length (buf (pool E)) = 4)"

text \<open>
  The invariant: one shard per index, every shard well formed, and every key in the shard
  that it is routed to.
\<close>

definition xinv :: "'a db_env_scheme \<Rightarrow> XDICK \<Rightarrow> bool" where
  "xinv E d =
     (env_ok E \<and> 0 < unat (SubCount d) \<and> length (SubDICKs d) = unat (SubCount d) \<and>
      (\<forall>i < length (SubDICKs d). sub_inv E (SubDICKs d ! i) \<and>
         (\<forall>k \<in> dom (sub_abs (SubDICKs d ! i)). route d k = i)))"

definition xview :: "XDICK \<Rightarrow> string \<rightharpoonup> go_value" where
  "xview d k = sub_abs (SubDICKs d ! route d k) k"

definition xcount :: "XDICK \<Rightarrow> nat" where
  "xcount d = sum_list (map shard_count (SubDICKs d))"

definition get_result :: "go_value option \<Rightarrow> go_value" where
  "get_result r = (case r of None \<Rightarrow> GoNil | Some v \<Rightarrow> v)"

lemma xinv_route:
  assumes "xinv E d"
  shows "route d k < length (SubDICKs d)" and "sub_inv E (SubDICKs d ! route d k)"
    and "shard_count (SubDICKs d ! route d k) \<le> xcount d"
proof -
  show r: "route d k < length (SubDICKs d)"
    using assms by (simp add: xinv_def route_def)
  then show "sub_inv E (SubDICKs d ! route d k)" using assms by (simp add: xinv_def)
  show "shard_count (SubDICKs d ! route d k) \<le> xcount d"
    unfolding xcount_def using r by (intro member_le_sum_list) auto
qed

lemma shard_index_ok:
  assumes "xinv E d"
  shows "\<exists>i. shard_index E d k = Inr i \<and> uint i = int (route d k)"
proof -
  have "unat (StringHash (pool E) k mod SubCount d) = route d k"
    using assms StringHash_pool [of "pool E" k]
    by (simp add: route_def unat_mod xinv_def env_ok_def)
  then have "uint (StringHash (pool E) k mod SubCount d) = int (route d k)"
    by (metis uint_nat)
  moreover have "SubCount d \<noteq> 0" using assms by (auto simp: xinv_def)
  ultimately show ?thesis by (simp add: shard_index_def)
qed

subsection \<open>The operations on the shard of the key\<close>

lemma XDICK_Get_spec:
  assumes "xinv E d"
  shows "XDICK_Get E d k = Inr (get_result (xview d k))"
  using shard_index_ok [OF assms, of k] xinv_route [OF assms, of k]
    shard.get_ok [OF xinv_route(2) [OF assms], of k k]
  by (auto simp: XDICK_Get_def xview_def get_result_def)

text \<open>Storing a shard back under its index.\<close>

lemma put_shard:
  assumes inv: "xinv E d" and sd: "sub_inv E sd"
    and abs: "sub_abs sd = (sub_abs (SubDICKs d ! route d k))(k := r)"
    and d': "d' = d\<lparr>SubDICKs := (SubDICKs d)[route d k := sd]\<rparr>"
  shows "xinv E d'" and "xview d' = (xview d)(k := r)"
    and "xcount d' + shard_count (SubDICKs d ! route d k) = xcount d + shard_count sd"
proof -
  note rt = xinv_route(1) [OF inv, of k]
  have route': "route d' x = route d x" for x by (simp add: d' route_def)
  have "route d x = route d k" if "x \<in> dom (sub_abs sd)" for x
    using that inv rt unfolding abs by (auto simp: xinv_def split: if_splits)
  then have "\<forall>x \<in> dom (sub_abs (SubDICKs d' ! i)). route d x = i" if "i < length (SubDICKs d)" for i
    using that inv by (cases "i = route d k") (auto simp: d' xinv_def)
  moreover have "sub_inv E (SubDICKs d' ! i)" if "i < length (SubDICKs d)" for i
    using that inv sd by (cases "i = route d k") (auto simp: d' xinv_def)
  moreover have "SubCount d' = SubCount d" "length (SubDICKs d') = length (SubDICKs d)"
    by (simp_all add: d')
  ultimately show "xinv E d'" using inv by (simp add: xinv_def route')
  have sds: "SubDICKs d' = (SubDICKs d)[route d k := sd]" by (simp add: d')
  show "xview d' = (xview d)(k := r)"
  proof
    fix x
    show "xview d' x = ((xview d)(k := r)) x"
      using abs rt by (cases "route d x = route d k") (auto simp: xview_def route' sds)
  qed
  show "xcount d' + shard_count (SubDICKs d ! route d k) = xcount d + shard_count sd"
    unfolding xcount_def d' using sum_list_update_nat [OF rt, of shard_count sd] by simp
qed

lemma XDICK_Set_spec:
  assumes inv: "xinv E d" and bound: "xcount d < 2 ^ 61"
  shows "\<exists>d'. XDICK_Set E d k v = Inr (d', None) \<and> xinv E d' \<and> xview d' = (xview d)(k \<mapsto> v) \<and>
     xcount d' \<le> Suc (xcount d) \<and> (\<forall>i. i \<noteq> route d k \<longrightarrow> SubDICKs d' ! i = SubDICKs d ! i)"
proof -
  note rt = xinv_route [OF inv, of k]
  have "shard_count (SubDICKs d ! route d k) < 2 ^ 61" using rt(3) bound by linarith
  then obtain sd where sd: "shard_Set E (SubDICKs d ! route d k) k v = Inr (sd, None)" "sub_inv E sd"
    "sub_abs sd = (sub_abs (SubDICKs d ! route d k))(k \<mapsto> v)"
    "shard_count sd \<le> Suc (shard_count (SubDICKs d ! route d k))"
    using shard.set_ok [OF rt(2)] by blast
  let ?d = "d\<lparr>SubDICKs := (SubDICKs d)[route d k := sd]\<rparr>"
  obtain i where "shard_index E d k = Inr i" "uint i = int (route d k)"
    using shard_index_ok [OF inv] by blast
  then have "XDICK_Set E d k v = Inr (?d, None)"
    using sd(1) rt(1) by (simp add: XDICK_Set_def)
  then show ?thesis using put_shard [OF inv sd(2,3) refl] sd(4) by auto
qed

lemma XDICK_Del_spec:
  assumes inv: "xinv E d"
  shows "\<exists>d'. XDICK_Del E d k = Inr (d', if xview d k = None then Some EntryNotFound else None) \<and>
     xinv E d' \<and> xview d' = (xview d)(k := None) \<and> xcount d' \<le> xcount d \<and>
     (\<forall>i. i \<noteq> route d k \<longrightarrow> SubDICKs d' ! i = SubDICKs d ! i)"
proof -
  note rt = xinv_route [OF inv, of k]
  obtain sd where sd: "shard_Del E (SubDICKs d ! route d k) k =
      Inr (sd, if xview d k = None then Some EntryNotFound else None)" "sub_inv E sd"
    "sub_abs sd = (sub_abs (SubDICKs d ! route d k))(k := None)"
    "shard_count sd \<le> shard_count (SubDICKs d ! route d k)"
    using shard.del_ok [OF rt(2), of k] unfolding xview_def by blast
  let ?d = "d\<lparr>SubDICKs := (SubDICKs d)[route d k := sd]\<rparr>"
  obtain i where "shard_index E d k = Inr i" "uint i = int (route d k)"
    using shard_index_ok [OF inv] by blast
  then have "XDICK_Del E d k = Inr (?d, if xview d k = None then Some EntryNotFound else None)"
    using sd(1) rt(1) by (simp add: XDICK_Del_def)
  then show ?thesis using put_shard [OF inv sd(2,3) refl] sd(4) by auto
qed

subsection \<open>The database is a key-value store\<close>

definition db_inv :: "'a db_env_scheme \<Rightarrow> XDatabase \<Rightarrow> bool" where
  "db_inv E db = xinv E (db_XDICK db)"

definition db_view :: "XDatabase \<Rightarrow> string \<rightharpoonup> go_value" where
  "db_view db = xview (db_XDICK db)"

definition db_count :: "XDatabase \<Rightarrow> nat" where
  "db_count db = xcount (db_XDICK db)"

interpretation xdick: kv_store "xinv E" xcount "2 ^ 61" xview get_result EntryNotFound
  "XDICK_Get E" "XDICK_Set E" "XDICK_Del E"
  for E :: "'a db_env_scheme"
proof unfold_locales
  fix s k v
  show "xinv E s \<Longrightarrow> XDICK_Get E s k = Inr (get_result (xview s k))"
    by (rule XDICK_Get_spec)
  show "xinv E s \<Longrightarrow> xcount s < 2 ^ 61 \<Longrightarrow> \<exists>s'. XDICK_Set E s k v = Inr (s', None) \<and> xinv E s' \<and>
      xview s' = (xview s)(k \<mapsto> v) \<and> xcount s' \<le> Suc (xcount s)"
    using XDICK_Set_spec by blast
  show "xinv E s \<Longrightarrow> \<exists>s'. XDICK_Del E s k =
      Inr (s', if xview s k = None then Some EntryNotFound else None) \<and> xinv E s' \<and>
      xview s' = (xview s)(k := None) \<and> xcount s' \<le> xcount s"
    using XDICK_Del_spec by blast
qed

interpretation db: kv_store "db_inv E" db_count "2 ^ 61" db_view get_result EntryNotFound
  "XDatabase_Get E" "XDatabase_Set E" "XDatabase_Del E"
  for E :: "'a db_env_scheme"
proof unfold_locales
  fix s k v
  show "db_inv E s \<Longrightarrow> XDatabase_Get E s k = Inr (get_result (db_view s k))"
    using xdick.get_ok by (simp add: XDatabase_Get_def db_inv_def db_view_def)
  show "db_inv E s \<Longrightarrow> db_count s < 2 ^ 61 \<Longrightarrow> \<exists>s'. XDatabase_Set E s k v = Inr (s', None) \<and>
      db_inv E s' \<and> db_view s' = (db_view s)(k \<mapsto> v) \<and> db_count s' \<le> Suc (db_count s)"
    using xdick.set_ok [of E "db_XDICK s" k v]
    by (auto simp: XDatabase_Set_def db_inv_def db_view_def db_count_def)
  show "db_inv E s \<Longrightarrow> \<exists>s'. XDatabase_Del E s k =
      Inr (s', if db_view s k = None then Some EntryNotFound else None) \<and> db_inv E s' \<and>
      db_view s' = (db_view s)(k := None) \<and> db_count s' \<le> db_count s"
    using xdick.del_ok [of E "db_XDICK s" k]
    by (auto simp: XDatabase_Del_def db_inv_def db_view_def db_count_def)
qed

subsection \<open>The database after NewDICK\<close>

lemma NewDICK_ok:
  assumes "env_ok E" and "n \<noteq> 0"
  shows "db_inv E (NewDICK now n)" and "db_view (NewDICK now n) = Map.empty"
    and "db_count (NewDICK now n) = 0"
proof -
  have n: "0 < unat n" using assms(2) by (simp add: unat_gt_0)
  show "db_inv E (NewDICK now n)"
    using assms(1) n sub_inv_New
    by (auto simp: db_inv_def xinv_def NewDICK_def NewXDICK_def sub_abs_New env_ok_def)
  show "db_view (NewDICK now n) = Map.empty"
    using n by (auto simp: db_view_def xview_def NewDICK_def NewXDICK_def sub_abs_New route_def)
  have "shard_count (NewSubDICK :: go_value SubDICK) = 0"
    by (simp add: shard_count_def all_entries_def NewSubDICK_def)
  then show "db_count (NewDICK now n) = 0"
    by (simp add: db_count_def xcount_def NewDICK_def NewXDICK_def sum_list_replicate)
qed

lemma NewXDICK_ok:
  assumes "env_ok E" and "n \<noteq> 0"
  shows "xinv E (NewXDICK n)" and "xview (NewXDICK n) = Map.empty" and "xcount (NewXDICK n) = 0"
  using NewDICK_ok [OF assms, of 0]
  by (simp_all add: NewDICK_def db_inv_def db_view_def db_count_def)

end
