(* ===== verification/Utils.thy ===== *)
theory Utils
  imports GoPrelude "HOL-Library.Sublist"
begin

text \<open>
  The string helpers of utils/utils.go and what they use of Go's standard library: the
  iteration of a string by UTF-8 runes, \<open>strconv\<close>'s decimal parsers and \<open>strings.Split\<close>.
  The Unicode table of decimal digits outside Latin-1 is the parameter \<open>nd\<close>.
\<close>

subsection \<open>Runes of a string\<close>

definition byte_at :: "string \<Rightarrow> nat \<Rightarrow> int" where
  "byte_at s i = (if i < length s then of_char (s ! i) else 0)"

definition cont_byte :: "string \<Rightarrow> nat \<Rightarrow> int \<Rightarrow> int \<Rightarrow> bool" where
  "cont_byte s i lo hi \<longleftrightarrow> i < length s \<and> lo \<le> byte_at s i \<and> byte_at s i \<le> hi"

text \<open>The rune at the head of a non-empty string and the number of its bytes; an invalid
  encoding is the replacement character U+FFFD of one byte.\<close>

definition decode_rune :: "string \<Rightarrow> int \<times> nat" where
  "decode_rune s =
     (let b0 = byte_at s 0;
          lo1 = (if b0 = 0xE0 then 0xA0 else if b0 = 0xF0 then 0x90 else 0x80);
          hi1 = (if b0 = 0xED then 0x9F else if b0 = 0xF4 then 0x8F else 0xBF)
      in if b0 < 0x80 then (b0, 1)
         else if 0xC2 \<le> b0 \<and> b0 \<le> 0xDF \<and> cont_byte s 1 lo1 hi1 then
           ((b0 - 0xC0) * 64 + (byte_at s 1 - 0x80), 2)
         else if 0xE0 \<le> b0 \<and> b0 \<le> 0xEF \<and> cont_byte s 1 lo1 hi1 \<and> cont_byte s 2 0x80 0xBF then
           ((b0 - 0xE0) * 4096 + (byte_at s 1 - 0x80) * 64 + (byte_at s 2 - 0x80), 3)
         else if 0xF0 \<le> b0 \<and> b0 \<le> 0xF4 \<and> cont_byte s 1 lo1 hi1 \<and> cont_byte s 2 0x80 0xBF \<and>
             cont_byte s 3 0x80 0xBF then
           ((b0 - 0xF0) * 262144 + (byte_at s 1 - 0x80) * 4096 + (byte_at s 2 - 0x80) * 64 +
              (byte_at s 3 - 0x80), 4)
         else (0xFFFD, 1))"

lemma decode_rune_width: "1 \<le> snd (decode_rune s)"
  by (simp add: decode_rune_def Let_def)

function runes :: "string \<Rightarrow> int list" where
  "runes s =
     (if s = [] then []
      else let (r, n) = decode_rune s in r # runes (drop n s))"
  by pat_completeness auto

termination
proof (relation "measure length")
  fix s :: string and x r n
  assume "s \<noteq> []" and "x = decode_rune s" and "(r, n) = x"
  then have "1 \<le> n" using decode_rune_width [of s] by (metis snd_conv)
  then show "(drop n s, s) \<in> measure length" using \<open>s \<noteq> []\<close> by simp
qed simp

declare runes.simps [simp del]

subsection \<open>Character classes\<close>

definition is_ascii_digit :: "char \<Rightarrow> bool" where
  "is_ascii_digit c \<longleftrightarrow> (48::int) \<le> of_char c \<and> of_char c \<le> (57::int)"

definition unicode_IsDigit :: "(int \<Rightarrow> bool) \<Rightarrow> int \<Rightarrow> bool" where
  "unicode_IsDigit nd r = (if r \<le> 255 then 48 \<le> r \<and> r \<le> 57 else nd r)"

definition IsDigit :: "(int \<Rightarrow> bool) \<Rightarrow> string \<Rightarrow> bool" where
  "IsDigit nd s = list_all (unicode_IsDigit nd) (runes s)"

definition IsSpace :: "char \<Rightarrow> bool" where
  "IsSpace b \<longleftrightarrow> of_char b < (33::int)"

definition unprintable :: "char \<Rightarrow> bool" where
  "unprintable b \<longleftrightarrow> of_char b < (32::int)"

lemma runes_ascii:
  "list_all (\<lambda>c. of_char c < (128::int)) s \<Longrightarrow> runes s = map of_char s"
proof (induction s)
  case Nil
  show ?case by (simp add: runes.simps)
next
  case (Cons c s)
  then have "decode_rune (c # s) = (of_char c, 1)"
    by (simp add: decode_rune_def byte_at_def)
  then have "runes (c # s) = of_char c # runes s"
    by (subst runes.simps) simp
  then show ?case using Cons by simp
qed

lemma IsDigit_ascii:
  assumes "list_all is_ascii_digit s"
  shows "IsDigit nd s"
proof -
  have "list_all (\<lambda>c. of_char c < (128::int)) s"
    using assms by (auto simp: list_all_iff is_ascii_digit_def)
  then show ?thesis
    using assms runes_ascii [of s]
    by (auto simp: IsDigit_def list_all_iff is_ascii_digit_def unicode_IsDigit_def)
qed

subsection \<open>Decimal parsing\<close>

text \<open>\<open>strconv.ParseUint(s, 10, 64)\<close> and \<open>strconv.ParseInt(s, 10, 64)\<close> (\<open>strconv.Atoi\<close> on a
  64-bit machine); \<open>None\<close> is their error, which every caller here answers with 0.\<close>

definition dec_value :: "string \<Rightarrow> nat" where
  "dec_value s = foldl (\<lambda>a c. 10 * a + (of_char c - 48)) 0 s"

definition ParseUint :: "string \<Rightarrow> uint64 option" where
  "ParseUint s =
     (if s = [] \<or> \<not> list_all is_ascii_digit s \<or> 2 ^ 64 \<le> dec_value s then None
      else Some (of_nat (dec_value s)))"

definition ParseInt :: "string \<Rightarrow> int64 option" where
  "ParseInt s =
     (let neg = (s \<noteq> [] \<and> hd s = CHR ''-'');
          digits = (if s \<noteq> [] \<and> (hd s = CHR ''-'' \<or> hd s = CHR ''+'') then tl s else s)
      in case ParseUint digits of
           None \<Rightarrow> None
         | Some u \<Rightarrow>
             if \<not> neg \<and> 2 ^ 63 \<le> unat u then None
             else if neg \<and> 2 ^ 63 < unat u then None
             else Some (if neg then - u else u))"

definition Atoi :: "string \<Rightarrow> int64 option" where
  "Atoi s = ParseInt s"

definition Str2int :: "(int \<Rightarrow> bool) \<Rightarrow> string \<Rightarrow> int64" where
  "Str2int nd str =
     (if IsDigit nd str then (case Atoi str of Some aint \<Rightarrow> aint | None \<Rightarrow> 0) else 0)"

definition Str2int64 :: "(int \<Rightarrow> bool) \<Rightarrow> string \<Rightarrow> int64" where
  "Str2int64 nd str =
     (if IsDigit nd str then (case ParseInt str of Some aint64 \<Rightarrow> aint64 | None \<Rightarrow> 0) else 0)"

definition Str2uint64 :: "(int \<Rightarrow> bool) \<Rightarrow> string \<Rightarrow> uint64" where
  "Str2uint64 nd str =
     (if IsDigit nd str then (case ParseUint str of Some auint64 \<Rightarrow> auint64 | None \<Rightarrow> 0) else 0)"

lemma IsDigit_head:
  assumes "IsDigit nd (c # s)" and "of_char c < (128::int)"
  shows "is_ascii_digit c"
proof -
  have "decode_rune (c # s) = (of_char c, 1)"
    using assms(2) by (simp add: decode_rune_def byte_at_def)
  then have "runes (c # s) = of_char c # runes s"
    by (subst runes.simps) simp
  then show ?thesis
    using assms by (simp add: IsDigit_def unicode_IsDigit_def is_ascii_digit_def)
qed

lemma Str2int_eq:
  "Str2int nd s =
     (if s \<noteq> [] \<and> list_all is_ascii_digit s \<and> dec_value s < 2 ^ 63 then of_nat (dec_value s) else 0)"
proof (cases "IsDigit nd s \<and> s \<noteq> []")
  case True
  then obtain c t where s: "s = c # t" by (cases s) auto
  have "c \<noteq> CHR ''-'' \<and> c \<noteq> CHR ''+''"
    using IsDigit_head [of nd c t] True by (auto simp: s is_ascii_digit_def)
  then have "Str2int nd s = (case ParseUint s of None \<Rightarrow> 0 | Some u \<Rightarrow> if 2 ^ 63 \<le> unat u then 0 else u)"
    using True by (auto simp: Str2int_def Atoi_def ParseInt_def s split: option.splits)
  then show ?thesis
    using True by (auto simp: ParseUint_def unat_of_nat64)
next
  case False
  then show ?thesis
    using IsDigit_ascii [of s nd]
    by (auto simp: Str2int_def Atoi_def ParseInt_def ParseUint_def)
qed

lemma Str2int64_eq: "Str2int64 nd s = Str2int nd s"
  by (simp add: Str2int64_def Str2int_def Atoi_def)

lemma Str2uint64_eq:
  "Str2uint64 nd s =
     (if s \<noteq> [] \<and> list_all is_ascii_digit s \<and> dec_value s < 2 ^ 64 then of_nat (dec_value s) else 0)"
  using IsDigit_ascii [of s nd] by (auto simp: Str2uint64_def ParseUint_def)

subsection \<open>Splitting and replacing\<close>

text \<open>The text before and after the first occurrence of \<open>sep\<close>.\<close>

fun cut :: "string \<Rightarrow> string \<Rightarrow> (string \<times> string) option" where
  "cut sep [] = (if sep = [] then Some ([], []) else None)"
| "cut sep (c # s) =
     (if prefix sep (c # s) then Some ([], drop (length sep) (c # s))
      else map_option (\<lambda>(a, b). (c # a, b)) (cut sep s))"

lemma cut_Some: "cut sep s = Some (a, b) \<Longrightarrow> s = a @ sep @ b"
proof (induction s arbitrary: a)
  case (Cons c s)
  then show ?case
    by (auto split: if_splits simp: prefix_def)
qed (simp split: if_splits)

lemma cut_None: "cut sep s = None \<longleftrightarrow> \<not> sublist sep s"
  by (induction s) (auto simp: sublist_Cons_right)

lemma cut_first:
  assumes "sep \<noteq> []" and "\<not> sublist sep (a @ butlast sep)"
  shows "cut sep (a @ sep @ b) = Some (a, b)"
  using assms(2)
proof (induction a)
  case Nil
  from assms(1) obtain c t where "sep = c # t" by (cases sep) auto
  then show ?case by simp
next
  case (Cons c a)
  have "\<not> prefix sep (c # a @ sep @ b)"
  proof
    assume "prefix sep (c # a @ sep @ b)"
    moreover have "prefix ((c # a) @ butlast sep) (c # a @ sep @ b)"
      using append_butlast_last_id [OF assms(1)]
      by (metis append.assoc append_Cons prefixI)
    moreover have "length sep \<le> length ((c # a) @ butlast sep)"
      by simp
    ultimately have "prefix sep ((c # a) @ butlast sep)"
      by (rule prefix_length_prefix)
    then show False using Cons.prems by (simp add: prefix_imp_sublist)
  qed
  moreover have "\<not> sublist sep (a @ butlast sep)"
    using Cons.prems by (simp add: sublist_Cons_right)
  ultimately show ?case using Cons.IH by simp
qed

text \<open>\<open>strings.Split\<close>; an empty separator explodes the text into its UTF-8 sequences.\<close>

function go_split :: "string \<Rightarrow> string \<Rightarrow> string list" where
  "go_split sep s =
     (if sep = [] then [s]
      else case cut sep s of None \<Rightarrow> [s] | Some (a, b) \<Rightarrow> a # go_split sep b)"
  by pat_completeness auto

termination
  by (relation "measure (\<lambda>(sep, s). length s)") (auto dest!: cut_Some)

declare go_split.simps [simp del]

lemma go_split_not_Nil: "go_split sep s \<noteq> []"
  by (simp add: go_split.simps [of sep s] split: option.splits prod.splits)

function explode_utf8 :: "string \<Rightarrow> string list" where
  "explode_utf8 s =
     (if s = [] then []
      else let n = snd (decode_rune s) in take n s # explode_utf8 (drop n s))"
  by pat_completeness auto

termination
proof (relation "measure length")
  fix s :: string and n
  assume "s \<noteq> []" and "n = snd (decode_rune s)"
  then show "(drop n s, s) \<in> measure length"
    using decode_rune_width [of s] by (cases n) (auto simp: diff_less)
qed simp

declare explode_utf8.simps [simp del]

definition strings_Split :: "string \<Rightarrow> string \<Rightarrow> string list" where
  "strings_Split s sep = (if sep = [] then explode_utf8 s else go_split sep s)"

text \<open>\<open>strings.Replace(s, old, new, -1)\<close> for a non-empty \<open>old\<close>, the only use in the code.\<close>

function strings_Replace :: "string \<Rightarrow> string \<Rightarrow> string \<Rightarrow> string" where
  "strings_Replace s old new =
     (if old = [] then s
      else case cut old s of None \<Rightarrow> s | Some (a, b) \<Rightarrow> a @ new @ strings_Replace b old new)"
  by pat_completeness auto

termination
  by (relation "measure (\<lambda>(s, old, new). length s)") (auto dest!: cut_Some)

declare strings_Replace.simps [simp del]

lemma strings_Replace_Nil [simp]: "strings_Replace [] old new = []"
  by (simp add: strings_Replace.simps [of "[]"])

lemma strings_Replace_Cons:
  assumes "old \<noteq> []" and "\<not> prefix old (c # s)"
  shows "strings_Replace (c # s) old new = c # strings_Replace s old new"
  using assms
  by (simp add: strings_Replace.simps [of "c # s"] strings_Replace.simps [of s]
      split: option.split)

lemma strings_Replace_prefix:
  assumes "old \<noteq> []"
  shows "strings_Replace (old @ s) old new = new @ strings_Replace s old new"
proof -
  have "\<not> sublist old (butlast old)"
    using assms by (cases old) (auto dest!: sublist_length_le)
  then have "cut old (old @ s) = Some ([], s)"
    using cut_first [OF assms, of "[]" s] by simp
  then show ?thesis using assms by (simp add: strings_Replace.simps [of "old @ s"])
qed

subsection \<open>Lines\<close>

definition Lines2Bytes :: "string list \<Rightarrow> string \<Rightarrow> string" where
  "Lines2Bytes lines delim = foldl (\<lambda>buf line. buf @ (line @ delim)) [] lines"

definition Bytes2Lines :: "string \<Rightarrow> string \<Rightarrow> string list" where
  "Bytes2Lines data delim = strings_Split data delim"

lemma Lines2Bytes_concat: "Lines2Bytes lines delim = concat (map (\<lambda>l. l @ delim) lines)"
proof -
  have "foldl (\<lambda>buf line. buf @ (line @ delim)) b lines = b @ concat (map (\<lambda>l. l @ delim) lines)" for b
    by (induction lines arbitrary: b) simp_all
  then show ?thesis by (simp add: Lines2Bytes_def)
qed

lemma go_split_lines:
  assumes "delim \<noteq> []" and "\<forall>l \<in> set lines. \<not> sublist delim (l @ butlast delim)"
  shows "go_split delim (concat (map (\<lambda>l. l @ delim) lines)) = lines @ [[]]"
  using assms(2)
proof (induction lines)
  case Nil
  then show ?case using assms(1) by (simp add: go_split.simps)
next
  case (Cons l lines)
  then show ?case
    using assms(1) by (subst go_split.simps) (simp add: cut_first)
qed

subsection \<open>Random strings\<close>

text \<open>The \<open>i\<close>-th result of \<open>seededRand.Intn(len(charset))\<close> is \<open>rnd i\<close>.\<close>

definition charset :: string where
  "charset = ''abcdefghijklmnopqrstuvwxyzABCDEFGHIJKLMNOPQRSTUVWXYZ0123456789''"

fun fill_random :: "(nat \<Rightarrow> int) \<Rightarrow> nat \<Rightarrow> string go" where
  "fill_random rnd 0 = Inr []"
| "fill_random rnd (Suc n) =
     rbind (fill_random rnd n) (\<lambda>b. rbind (go_index charset (rnd n)) (\<lambda>c. Inr (b @ [c])))"

definition GenerateRandomString :: "(nat \<Rightarrow> int) \<Rightarrow> int \<Rightarrow> string go" where
  "GenerateRandomString rnd len =
     (if len < 0 then Inl SliceOutOfRange else fill_random rnd (nat len))"

lemma fill_random_ok:
  assumes "\<forall>i. 0 \<le> rnd i \<and> rnd i < int (length charset)"
  shows "\<exists>b. fill_random rnd n = Inr b \<and> length b = n \<and> set b \<subseteq> set charset"
proof (induction n)
  case (Suc n)
  have "0 \<le> rnd n" "rnd n < int (length charset)" using assms by blast+
  then have "charset ! nat (rnd n) \<in> set charset" by (intro nth_mem) linarith
  then show ?case using Suc assms by (auto simp: go_index_def)
qed simp

end
