(* ===== verification/Protocol.thy ===== *)
theory Protocol
  imports Utils
begin

text \<open>
  The line protocol of the socket server: the constants of server/constants.go, the framing of
  a byte stream into lines (\<open>textproto.Conn.ReadLine\<close> of Go's standard library), the escaping
  functions of client/clilib/client.go for values that contain line breaks, and the decimal
  printing of \<open>fmt\<close>.
\<close>

subsection \<open>Modes, commands and control characters\<close>

definition no_mode :: int where "no_mode = 0x00"
definition modeADD :: int where "modeADD = 0x11"
definition modeGET :: int where "modeGET = 0x22"
definition modeSET :: int where "modeSET = 0x33"
definition modeDEL :: int where "modeDEL = 0x44"

lemmas mode_defs = no_mode_def modeADD_def modeGET_def modeSET_def modeDEL_def

lemma modes_distinct [simp]:
  "no_mode \<noteq> modeADD" "no_mode \<noteq> modeGET" "no_mode \<noteq> modeSET" "no_mode \<noteq> modeDEL"
  "modeADD \<noteq> no_mode" "modeADD \<noteq> modeGET" "modeADD \<noteq> modeSET" "modeADD \<noteq> modeDEL"
  "modeGET \<noteq> no_mode" "modeGET \<noteq> modeADD" "modeGET \<noteq> modeSET" "modeGET \<noteq> modeDEL"
  "modeSET \<noteq> no_mode" "modeSET \<noteq> modeADD" "modeSET \<noteq> modeGET" "modeSET \<noteq> modeDEL"
  "modeDEL \<noteq> no_mode" "modeDEL \<noteq> modeADD" "modeDEL \<noteq> modeGET" "modeDEL \<noteq> modeSET"
  by (simp_all add: mode_defs)

definition Magic1 :: string where "Magic1 = ''1''"
definition Magic2 :: string where "Magic2 = ''2''"
definition MagicD :: string where "MagicD = ''D''"
definition MagicG :: string where "MagicG = ''G''"
definition MagicS :: string where "MagicS = ''S''"
definition MagicZ :: string where "MagicZ = ''Z''"

lemmas magic_defs = Magic1_def Magic2_def MagicD_def MagicG_def MagicS_def MagicZ_def

lemma commands_distinct [simp]:
  "Magic1 \<noteq> Magic2" "Magic1 \<noteq> MagicD" "Magic1 \<noteq> MagicG" "Magic1 \<noteq> MagicS"
  "Magic1 \<noteq> MagicZ" "Magic2 \<noteq> Magic1" "Magic2 \<noteq> MagicD" "Magic2 \<noteq> MagicG"
  "Magic2 \<noteq> MagicS" "Magic2 \<noteq> MagicZ" "MagicD \<noteq> Magic1" "MagicD \<noteq> Magic2"
  "MagicD \<noteq> MagicG" "MagicD \<noteq> MagicS" "MagicD \<noteq> MagicZ" "MagicG \<noteq> Magic1"
  "MagicG \<noteq> Magic2" "MagicG \<noteq> MagicD" "MagicG \<noteq> MagicS" "MagicG \<noteq> MagicZ"
  "MagicS \<noteq> Magic1" "MagicS \<noteq> Magic2" "MagicS \<noteq> MagicD" "MagicS \<noteq> MagicG"
  "MagicS \<noteq> MagicZ" "MagicZ \<noteq> Magic1" "MagicZ \<noteq> Magic2" "MagicZ \<noteq> MagicD"
  "MagicZ \<noteq> MagicG" "MagicZ \<noteq> MagicS"
  by (simp_all add: magic_defs)

definition KEY_LIMIT :: nat where "KEY_LIMIT = 1024 * 1024 * 1024"
definition VAL_LIMIT :: nat where "VAL_LIMIT = 1024 * 1024 * 1024"

definition CR :: string where "CR = [CHR 0x0D]"
definition LF :: string where "LF = [CHR 0x0A]"
definition CRLF :: string where "CRLF = CR @ LF"

definition NUL :: string where "NUL = [CHR 0x00]"
definition ACK :: string where "ACK = [CHR 0x06]"
definition BEL :: string where "BEL = [CHR 0x07]"
definition ETB :: string where "ETB = [CHR 0x17]"
definition CAN :: string where "CAN = [CHR 0x18]"

lemmas control_defs = NUL_def ACK_def BEL_def ETB_def CAN_def
lemmas crlf_defs = CRLF_def CR_def LF_def

lemma controls_distinct [simp]: "ETB \<noteq> BEL" "BEL \<noteq> ETB" "NUL \<noteq> ACK" "ACK \<noteq> NUL"
  by (simp_all add: control_defs)

lemma length_controls [simp]: "length NUL = 1" "length ACK = 1" "length BEL = 1" "length ETB = 1"
    "length CAN = 1" "length CRLF = 2"
  by (simp_all add: control_defs crlf_defs)

subsection \<open>Reading lines\<close>

text \<open>
  The lines that successive calls of \<open>ReadLine\<close> return for the bytes of a connection: the text
  up to a line feed, less one carriage return before it; the bytes after the last line feed
  are a line of their own when there are any. After the last line \<open>ReadLine\<close> fails.
\<close>

definition trim_cr :: "string \<Rightarrow> string" where
  "trim_cr l = (if l \<noteq> [] \<and> last l = CHR 0x0D then butlast l else l)"

fun read_lines_acc :: "string \<Rightarrow> string \<Rightarrow> string list" where
  "read_lines_acc acc [] = (if acc = [] then [] else [rev acc])"
| "read_lines_acc acc (c # s) =
     (if c = CHR 0x0A then trim_cr (rev acc) # read_lines_acc [] s
      else read_lines_acc (c # acc) s)"

definition read_lines :: "string \<Rightarrow> string list" where
  "read_lines s = read_lines_acc [] s"

definition line_text :: "string \<Rightarrow> bool" where
  "line_text l \<longleftrightarrow> CHR 0x0A \<notin> set l"

lemma read_lines_acc_line:
  "line_text l \<Longrightarrow> read_lines_acc acc (l @ CRLF @ s) = (rev acc @ l) # read_lines_acc [] s"
proof (induction l arbitrary: acc)
  case Nil
  then show ?case by (simp add: crlf_defs trim_cr_def)
next
  case (Cons c l)
  have "read_lines_acc acc ((c # l) @ CRLF @ s) = read_lines_acc (c # acc) (l @ CRLF @ s)"
    using Cons.prems by (auto simp: line_text_def)
  also have "\<dots> = (rev (c # acc) @ l) # read_lines_acc [] s"
    using Cons.prems by (intro Cons.IH) (simp add: line_text_def)
  finally show ?case by simp
qed

lemma read_lines_Nil [simp]: "read_lines [] = []"
  by (simp add: read_lines_def)

lemma read_lines_line: "line_text l \<Longrightarrow> read_lines (l @ CRLF @ s) = l # read_lines s"
  by (simp add: read_lines_def read_lines_acc_line)

lemma read_lines_last: "line_text l \<Longrightarrow> read_lines (l @ CRLF) = [l]"
  using read_lines_line [of l "[]"] by simp

lemma line_text_consts [simp]:
  "line_text []" "line_text ACK" "line_text NUL" "line_text ETB" "line_text BEL" "line_text CAN"
  by (simp_all add: line_text_def control_defs)

subsection \<open>Escaping\<close>

definition EscapeCR :: "string \<Rightarrow> string" where
  "EscapeCR any = strings_Replace any CR [CHR 0x5C, CHR ''r'']"

definition UnEscapeCR :: "string \<Rightarrow> string" where
  "UnEscapeCR any = strings_Replace any [CHR 0x5C, CHR ''r''] CR"

definition EscapeLF :: "string \<Rightarrow> string" where
  "EscapeLF any = strings_Replace any LF [CHR 0x5C, CHR ''n'']"

definition UnEscapeLF :: "string \<Rightarrow> string" where
  "UnEscapeLF any = strings_Replace any [CHR 0x5C, CHR ''n''] LF"

definition Escape :: "string \<Rightarrow> string" where
  "Escape any = EscapeCR (EscapeLF any)"

definition UnEscape :: "string \<Rightarrow> string" where
  "UnEscape any = UnEscapeCR (UnEscapeLF any)"

text \<open>Escaping is undone on every text without a backslash, and its result is one line.\<close>

lemma Escape_Cons:
  "EscapeLF (c # s) = (if c = CHR 0x0A then [CHR 0x5C, CHR ''n''] else [c]) @ EscapeLF s"
  "EscapeCR (c # s) = (if c = CHR 0x0D then [CHR 0x5C, CHR ''r''] else [c]) @ EscapeCR s"
  using strings_Replace_prefix [of "[CHR 0x0A]" s "[CHR 0x5C, CHR ''n'']"]
    strings_Replace_prefix [of "[CHR 0x0D]" s "[CHR 0x5C, CHR ''r'']"]
  by (simp_all add: EscapeLF_def EscapeCR_def crlf_defs strings_Replace_Cons)

lemma UnEscape_Cons:
  "UnEscapeLF (CHR 0x5C # CHR ''n'' # s) = CHR 0x0A # UnEscapeLF s"
  "UnEscapeCR (CHR 0x5C # CHR ''r'' # s) = CHR 0x0D # UnEscapeCR s"
  "c \<noteq> CHR 0x5C \<Longrightarrow> UnEscapeLF (c # s) = c # UnEscapeLF s"
  "c \<noteq> CHR 0x5C \<Longrightarrow> UnEscapeCR (c # s) = c # UnEscapeCR s"
  "UnEscapeLF (CHR 0x5C # CHR ''r'' # s) = CHR 0x5C # CHR ''r'' # UnEscapeLF s"
  using strings_Replace_prefix [of "[CHR 0x5C, CHR ''n'']" s "[CHR 0x0A]"]
    strings_Replace_prefix [of "[CHR 0x5C, CHR ''r'']" s "[CHR 0x0D]"]
  by (simp_all add: UnEscapeLF_def UnEscapeCR_def crlf_defs strings_Replace_Cons)

lemma Escape_Nil [simp]:
  "EscapeLF [] = []" "EscapeCR [] = []" "UnEscapeLF [] = []" "UnEscapeCR [] = []"
  by (simp_all add: EscapeLF_def EscapeCR_def UnEscapeLF_def UnEscapeCR_def)

lemma UnEscapeLF_Escape: "CHR 0x5C \<notin> set s \<Longrightarrow> UnEscapeLF (EscapeCR (EscapeLF s)) = EscapeCR s"
  by (induction s) (auto simp: Escape_Cons UnEscape_Cons)

lemma UnEscapeCR_Escape: "CHR 0x5C \<notin> set s \<Longrightarrow> UnEscapeCR (EscapeCR s) = s"
  by (induction s) (auto simp: Escape_Cons UnEscape_Cons)

lemma UnEscape_Escape: "CHR 0x5C \<notin> set s \<Longrightarrow> UnEscape (Escape s) = s"
  by (simp add: UnEscape_def Escape_def UnEscapeLF_Escape UnEscapeCR_Escape)

lemma line_text_Escape: "line_text (Escape s)"
  by (induction s) (auto simp: Escape_def line_text_def Escape_Cons)

subsection \<open>Decimal printing\<close>

fun nat_digits :: "nat \<Rightarrow> string" where
  "nat_digits n =
     (if n < 10 then [char_of (48 + n)] else nat_digits (n div 10) @ [char_of (48 + n mod 10)])"

declare nat_digits.simps [simp del]

definition fmt_d :: "int64 \<Rightarrow> string" where
  "fmt_d x = (if x <s 0 then ''-'' @ nat_digits (nat (- sint x)) else nat_digits (nat (sint x)))"

lemma dec_value_nat_digits: "list_all is_ascii_digit (nat_digits n) \<and> dec_value (nat_digits n) = n"
proof (induction n rule: nat_digits.induct)
  case (1 n)
  have digit: "is_ascii_digit (char_of (48 + d))" "of_char (char_of (48 + d) :: char) - 48 = d"
    if "d < 10" for d :: nat
  proof -
    have val: "(of_char (char_of (48 + d) :: char) :: nat) = 48 + d" using that by simp
    have "(of_char (char_of (48 + d) :: char) :: int) = int (of_char (char_of (48 + d) :: char))"
      by (simp only: of_nat_of_char)
    also have "\<dots> = int (48 + d)" by (simp only: val)
    finally have "(of_char (char_of (48 + d) :: char) :: int) = int (48 + d)" .
    then show "is_ascii_digit (char_of (48 + d))"
      using that by (simp add: is_ascii_digit_def)
    show "of_char (char_of (48 + d) :: char) - 48 = d" using val by simp
  qed
  show ?case
  proof (cases "n < 10")
    case True
    then show ?thesis by (simp add: nat_digits.simps digit dec_value_def)
  next
    case False
    then show ?thesis
      using 1 digit [of "n mod 10"] by (simp add: nat_digits.simps [of n] dec_value_def)
  qed
qed

end
