(* ===== verification/Session.thy ===== *)
theory Session
  imports XDick Protocol
begin

text \<open>
  The socket server's connection handler, \<open>handleSocketConn\<close> of server/socket.go: the state of
  a session, one function per mode of its switch, the iteration of the \<open>readlines\<close> loop for
  one line, and the loop over the lines a connection delivers.

  What the connection's peer and the profiler do are parameters: \<open>peer i\<close> says whether the
  \<open>i\<close>-th write to the connection succeeds, \<open>nd\<close> is Unicode's table of digits. A write that
  fails delivers nothing.

  \<open>Prof\<close> is the pointer \<open>server.Prof\<close>, which stays nil unless main is started with a profiling
  address. A method of a nil profiler panics, as it locks a mutex of its receiver; of another one
  \<open>cpu_start i\<close> says whether the \<open>i\<close>-th call of \<open>StartCPUProfile\<close> yields a file. The memory
  profile runs in a goroutine of its own, whose panic ends the process like one of the session; it
  is taken to come at once.
\<close>

subsection \<open>State\<close>

record sock_env = db_env +
  nd :: "int \<Rightarrow> bool"
  peer :: "nat \<Rightarrow> bool"
  Prof :: "(nat \<Rightarrow> bool) option"

text \<open>The local variables of \<open>handleSocketConn\<close>, the connection's output, and what the session
  reaches of the \<open>SOCKET\<close>: the database, the CPU profile and the memory profiles started.\<close>

record session =
  mode :: int
  state :: "8 word"
  numBy :: int64
  cmd :: string
  cur_key :: string
  keys :: "string list"
  vals :: "(string \<rightharpoonup> string) option"
  n_set :: uint64
  tmpset :: uint64
  n_get :: uint64
  tmpget :: uint64
  n_del :: uint64
  tmpdel :: uint64
  sentbytes :: int64
  recvbytes :: int64

record sock_state = session +
  sent :: string
  nwrites :: nat
  sdb :: XDatabase
  CPUfile :: bool
  cpu_calls :: nat
  mem_profiles :: "(int64 \<times> int64) list"

datatype flow = ContinueRead | BreakRead

definition new_session :: "XDatabase \<Rightarrow> bool \<Rightarrow> nat \<Rightarrow> sock_state" where
  "new_session db cpu calls =
     \<lparr>mode = no_mode, state = - 1, numBy = 0, cmd = [], cur_key = [], keys = [], vals = None,
      n_set = 0, tmpset = 0, n_get = 0, tmpget = 0, n_del = 0, tmpdel = 0,
      sentbytes = 0, recvbytes = 0,
      sent = [], nwrites = 0, sdb = db, CPUfile = cpu, cpu_calls = calls, mem_profiles = []\<rparr>"

subsection \<open>Writing to the connection\<close>

definition write_conn :: "'a sock_env_scheme \<Rightarrow> string \<Rightarrow> sock_state \<Rightarrow> bool \<times> sock_state" where
  "write_conn E s st =
     (let ok = peer E (nwrites st) in
      (ok, st\<lparr>sent := (if ok then sent st @ s else sent st), nwrites := nwrites st + 1\<rparr>))"

text \<open>\<open>io.WriteString\<close> followed by \<open>sentbytes += n\<close>; \<open>False\<close> is the I/O error.\<close>

definition WriteString :: "'a sock_env_scheme \<Rightarrow> string \<Rightarrow> sock_state \<Rightarrow> bool \<times> sock_state" where
  "WriteString E s st =
     (let (ok, st1) = write_conn E s st in
      (ok, if ok then st1\<lparr>sentbytes := sentbytes st1 + of_nat (length s)\<rparr> else st1))"

text \<open>\<open>cli.tp.PrintfLine\<close>, whose error the handler ignores.\<close>

definition PrintfLine :: "'a sock_env_scheme \<Rightarrow> string \<Rightarrow> sock_state \<Rightarrow> sock_state" where
  "PrintfLine E s st = snd (write_conn E (s @ CRLF) st)"

definition reply_CAN :: "'a sock_env_scheme \<Rightarrow> sock_state \<Rightarrow> (flow \<times> sock_state) go" where
  "reply_CAN E st = Inr (BreakRead, PrintfLine E CAN st)"

subsection \<open>Mode SET\<close>

text \<open>The loop \<open>setloopkeys\<close>; the flag says that a reply could not be sent.\<close>

fun set_loop :: "'a sock_env_scheme \<Rightarrow> string list \<Rightarrow> sock_state \<Rightarrow> (bool \<times> sock_state) go" where
  "set_loop E [] st = Inr (False, st)"
| "set_loop E (akey # ks) st =
     (case (case vals st of None \<Rightarrow> None | Some m \<Rightarrow> m akey) of
        None \<Rightarrow> Inl NilDereference
      | Some val \<Rightarrow>
          rbind (XDatabase_Set E (sdb st) akey (GoString val)) (\<lambda>(db', seterr).
            let st1 = st\<lparr>sdb := db'\<rparr> in
            (case seterr of
               Some _ \<Rightarrow>
                 (let (ok, st2) = WriteString E (NUL @ cur_key st1) st1 in
                  if ok then set_loop E ks st2 else Inr (True, st2))
             | None \<Rightarrow>
                 set_loop E ks (st1\<lparr>tmpset := tmpset st1 - 1, n_set := n_set st1 + 1\<rparr>))))"

definition modeSET_state0 ::
    "'a sock_env_scheme \<Rightarrow> string \<Rightarrow> sock_state \<Rightarrow> (flow \<times> sock_state) go" where
  "modeSET_state0 E line st =
     (if length line > KEY_LIMIT then reply_CAN E st
      else Inr (ContinueRead, st\<lparr>cur_key := line, state := state st + 1\<rparr>))"

definition modeSET_state1 ::
    "'a sock_env_scheme \<Rightarrow> string \<Rightarrow> sock_state \<Rightarrow> (flow \<times> sock_state) go" where
  "modeSET_state1 E line st =
     (if length line > VAL_LIMIT then reply_CAN E st
      else
        let st1 = st\<lparr>numBy := numBy st - 1, tmpset := tmpset st + 1,
                     keys := keys st @ [cur_key st]\<rparr>
        in case vals st1 of
             None \<Rightarrow> Inl NilMapWrite
           | Some m \<Rightarrow>
               Inr (ContinueRead, st1\<lparr>vals := Some (m(cur_key st1 \<mapsto> line)), cur_key := [],
                                      state := state st1 + 1\<rparr>))"

definition modeSET_state2 ::
    "'a sock_env_scheme \<Rightarrow> string \<Rightarrow> sock_state \<Rightarrow> (flow \<times> sock_state) go" where
  "modeSET_state2 E line st =
     (if length line \<noteq> 1 then reply_CAN E st
      else if line = ETB then
        rbind (set_loop E (keys st) st) (\<lambda>(broken, st1).
          if broken then Inr (BreakRead, st1)
          else
            let (ok, st2) = WriteString E (ACK @ CRLF) st1 in
            if \<not> ok then Inr (BreakRead, st2)
            else Inr (ContinueRead, st2\<lparr>keys := [], vals := None, mode := no_mode\<rparr>))
      else Inr (ContinueRead, st))"

definition handle_modeSET ::
    "'a sock_env_scheme \<Rightarrow> string \<Rightarrow> sock_state \<Rightarrow> (flow \<times> sock_state) go" where
  "handle_modeSET E line st =
     (if state st = 0 then modeSET_state0 E line st
      else if state st = 1 then modeSET_state1 E line st
      else if state st = 2 then modeSET_state2 E line st
      else Inr (ContinueRead, st))"

subsection \<open>Mode GET\<close>

fun get_loop_keys ::
    "'a sock_env_scheme \<Rightarrow> nat \<Rightarrow> string list \<Rightarrow> sock_state \<Rightarrow> (bool \<times> sock_state) go" where
  "get_loop_keys E lenk [] st = Inr (False, st)"
| "get_loop_keys E lenk (akey # ks) st =
     rbind (XDatabase_Get E (sdb st) akey) (\<lambda>val.
       case val of
         GoNil \<Rightarrow>
           (let retstr = (if lenk > 1 then NUL @ cur_key st else NUL);
                (ok, st1) = WriteString E (retstr @ CRLF) st
            in if ok then get_loop_keys E lenk ks st1 else Inr (True, st1))
       | GoString s \<Rightarrow>
           (let (ok, st1) = WriteString E (s @ CRLF) st
            in if ok then
                 get_loop_keys E lenk ks (st1\<lparr>tmpget := tmpget st1 - 1, n_get := n_get st1 + 1\<rparr>)
               else Inr (True, st1))
       | _ \<Rightarrow> Inl TypeAssertionFailed)"

definition modeGET_state0 ::
    "'a sock_env_scheme \<Rightarrow> string \<Rightarrow> sock_state \<Rightarrow> (flow \<times> sock_state) go" where
  "modeGET_state0 E line st =
     (if length line > KEY_LIMIT then reply_CAN E st
      else Inr (ContinueRead, st\<lparr>numBy := numBy st - 1, tmpget := tmpget st + 1,
                                 keys := keys st @ [line], state := state st + 1\<rparr>))"

definition modeGET_state1 ::
    "'a sock_env_scheme \<Rightarrow> string \<Rightarrow> sock_state \<Rightarrow> (flow \<times> sock_state) go" where
  "modeGET_state1 E line st =
     (if length line \<noteq> 1 then reply_CAN E st
      else if line = ETB then
        rbind (get_loop_keys E (length (keys st)) (keys st) st) (\<lambda>(broken, st1).
          if broken then Inr (BreakRead, st1)
          else Inr (ContinueRead, st1\<lparr>mode := no_mode, keys := []\<rparr>))
      else if line = BEL then Inr (ContinueRead, st\<lparr>state := state st - 1\<rparr>)
      else Inr (ContinueRead, st))"

definition handle_modeGET ::
    "'a sock_env_scheme \<Rightarrow> string \<Rightarrow> sock_state \<Rightarrow> (flow \<times> sock_state) go" where
  "handle_modeGET E line st =
     (if state st = 0 then modeGET_state0 E line st
      else if state st = 1 then modeGET_state1 E line st
      else Inr (ContinueRead, st))"

subsection \<open>Mode DEL\<close>

fun del_loop_keys :: "'a sock_env_scheme \<Rightarrow> string list \<Rightarrow> sock_state \<Rightarrow> (bool \<times> sock_state) go" where
  "del_loop_keys E [] st = Inr (False, st)"
| "del_loop_keys E (akey # ks) st =
     rbind (XDatabase_Del E (sdb st) akey) (\<lambda>(db', err).
       let st1 = st\<lparr>sdb := db'\<rparr> in
       if err = None then
         (let (ok, st2) = WriteString E (NUL @ cur_key st1 @ CRLF) st1 in
          if ok then del_loop_keys E ks st2 else Inr (True, st2))
       else
         (let (ok, st2) = WriteString E (ACK @ CRLF) st1 in
          if ok then
            del_loop_keys E ks (st2\<lparr>tmpdel := tmpdel st2 - 1, n_del := n_del st2 + 1\<rparr>)
          else Inr (True, st2)))"

definition modeDEL_state0 ::
    "'a sock_env_scheme \<Rightarrow> string \<Rightarrow> sock_state \<Rightarrow> (flow \<times> sock_state) go" where
  "modeDEL_state0 E line st =
     (if length line > KEY_LIMIT then reply_CAN E st
      else Inr (ContinueRead, st\<lparr>numBy := numBy st - 1, tmpdel := tmpdel st + 1,
                                 keys := keys st @ [line], state := state st + 1\<rparr>))"

definition modeDEL_state1 ::
    "'a sock_env_scheme \<Rightarrow> string \<Rightarrow> sock_state \<Rightarrow> (flow \<times> sock_state) go" where
  "modeDEL_state1 E line st =
     (if length line \<noteq> 1 then reply_CAN E st
      else if line = ETB then
        rbind (del_loop_keys E (keys st) st) (\<lambda>(broken, st1).
          if broken then Inr (BreakRead, st1) else Inr (ContinueRead, st1))
      else if line = BEL then Inr (ContinueRead, st\<lparr>state := state st - 1\<rparr>)
      else Inr (ContinueRead, st))"

definition handle_modeDEL ::
    "'a sock_env_scheme \<Rightarrow> string \<Rightarrow> sock_state \<Rightarrow> (flow \<times> sock_state) go" where
  "handle_modeDEL E line st =
     (if state st = 0 then modeDEL_state0 E line st
      else if state st = 1 then modeDEL_state1 E line st
      else Inr (ContinueRead, st))"

subsection \<open>No mode: reading a command\<close>

text \<open>The commands \<open>S\<close>, \<open>G\<close> and \<open>D\<close> share their body up to the mode they enter.\<close>

definition enter_mode ::
    "'a sock_env_scheme \<Rightarrow> int \<Rightarrow> string \<Rightarrow> sock_state \<Rightarrow> (flow \<times> sock_state) go" where
  "enter_mode E m arg st =
     (let st1 = st\<lparr>numBy := Str2int (nd E) arg\<rparr> in
      if numBy st1 = 0 then Inr (BreakRead, st1)
      else Inr (ContinueRead, st1\<lparr>mode := m, state := state st1 + 1\<rparr>))"

text \<open>\<open>xs[0:2]\<close> of a slice that \<open>strings.Split\<close> made, whose capacity is its length.\<close>

definition slice_0_2 :: "'b list \<Rightarrow> 'b list go" where
  "slice_0_2 xs = (if length xs < 2 then Inl SliceOutOfRange else Inr (take 2 xs))"

definition mem_profile_args :: "'a sock_env_scheme \<Rightarrow> string \<Rightarrow> (int64 \<times> int64) go" where
  "mem_profile_args E arg =
     (if sublist '','' arg then
        rbind (slice_0_2 (strings_Split arg '','')) (\<lambda>args.
          let run = Str2int (nd E) (args ! 0); wait = Str2int (nd E) (args ! 1) in
          Inr (if 0 <s run \<and> 0 \<le>s wait then (run, wait) else (30, 0)))
      else Inr (30, 0))"

definition cmd_Magic1 ::
    "'a sock_env_scheme \<Rightarrow> bool \<Rightarrow> string \<Rightarrow> sock_state \<Rightarrow> (flow \<times> sock_state) go" where
  "cmd_Magic1 E socket arg st =
     (if \<not> socket then Inr (BreakRead, st)
      else
        rbind (mem_profile_args E arg) (\<lambda>(runi, waiti).
          if Prof E = None then Inl NilDereference
          else Inr (ContinueRead,
                 PrintfLine E (''200 StartMemProfile run='' @ fmt_d runi @ '' wait='' @ fmt_d waiti)
                   (st\<lparr>mem_profiles := mem_profiles st @ [(runi, waiti)]\<rparr>))))"

definition cmd_Magic2 ::
    "'a sock_env_scheme \<Rightarrow> bool \<Rightarrow> sock_state \<Rightarrow> (flow \<times> sock_state) go" where
  "cmd_Magic2 E socket st =
     (if \<not> socket then Inr (BreakRead, st)
      else case Prof E of
          None \<Rightarrow> Inl NilDereference
        | Some cpu_start \<Rightarrow>
            if CPUfile st then
              Inr (ContinueRead, (PrintfLine E ''200 StopCPUProfile'' st)\<lparr>CPUfile := False\<rparr>)
            else
              let ok = cpu_start (cpu_calls st); st1 = st\<lparr>cpu_calls := cpu_calls st + 1\<rparr> in
              if \<not> ok then Inr (ContinueRead, PrintfLine E ''400 ERR StartCPUProfile'' st1)
              else Inr (ContinueRead, PrintfLine E ''200 StartCPUProfile'' (st1\<lparr>CPUfile := True\<rparr>)))"

definition run_command ::
    "'a sock_env_scheme \<Rightarrow> bool \<Rightarrow> string \<Rightarrow> string \<Rightarrow> sock_state \<Rightarrow> (flow \<times> sock_state) go" where
  "run_command E socket c arg st =
     (if c = MagicS then enter_mode E modeSET arg st
      else if c = MagicG then enter_mode E modeGET arg st
      else if c = MagicD then enter_mode E modeDEL arg st
      else if c = Magic1 then cmd_Magic1 E socket arg st
      else if c = Magic2 then cmd_Magic2 E socket st
      else if c = MagicZ then Inr (BreakRead, st)
      else Inr (BreakRead, st))"

definition handle_no_mode ::
    "'a sock_env_scheme \<Rightarrow> bool \<Rightarrow> string \<Rightarrow> sock_state \<Rightarrow> (flow \<times> sock_state) go" where
  "handle_no_mode E socket line st =
     (let st1 = st\<lparr>keys := [],
                   vals := (case vals st of None \<Rightarrow> Some Map.empty | Some m \<Rightarrow> Some m)\<rparr>
      in if length line < 3 \<or> line ! 1 \<noteq> CHR ''|'' then reply_CAN E st1
         else
           rbind (slice_0_2 (strings_Split line ''|'')) (\<lambda>split.
             let st2 = st1\<lparr>state := - 1, cmd := split ! 0, n_set := 0, tmpset := 0,
                           n_del := 0, tmpdel := 0, n_get := 0, tmpget := 0\<rparr>
             in run_command E socket (cmd st2) (split ! 1) st2))"

subsection \<open>The loop\<close>

definition readline_body ::
    "'a sock_env_scheme \<Rightarrow> bool \<Rightarrow> string \<Rightarrow> sock_state \<Rightarrow> (flow \<times> sock_state) go" where
  "readline_body E socket line st =
     (let st1 = st\<lparr>recvbytes := recvbytes st + of_nat (length line) + 2\<rparr> in
      if mode st1 = modeADD then Inr (ContinueRead, st1)
      else if mode st1 = modeSET then handle_modeSET E line st1
      else if mode st1 = modeGET then handle_modeGET E line st1
      else if mode st1 = modeDEL then handle_modeDEL E line st1
      else if mode st1 = no_mode then handle_no_mode E socket line st1
      else Inr (ContinueRead, st1))"

fun readlines_loop ::
    "'a sock_env_scheme \<Rightarrow> bool \<Rightarrow> string list \<Rightarrow> sock_state \<Rightarrow> (flow \<times> sock_state) go" where
  "readlines_loop E socket [] st = Inr (ContinueRead, st)"
| "readlines_loop E socket (line # ls) st =
     rbind (readline_body E socket line st) (\<lambda>(fl, st1).
       case fl of BreakRead \<Rightarrow> Inr (BreakRead, st1)
                | ContinueRead \<Rightarrow> readlines_loop E socket ls st1)"

text \<open>The whole handler on the bytes the client sends before it ends the connection. Only
  network connections get the banner.\<close>

definition handleSocketConn ::
    "'a sock_env_scheme \<Rightarrow> bool \<Rightarrow> string \<Rightarrow> sock_state \<Rightarrow> sock_state go" where
  "handleSocketConn E socket input st =
     (let (ok, st1) = (if socket then (True, st) else write_conn E (''200 X'' @ CRLF) st) in
      if \<not> ok then Inr st1
      else rbind (readlines_loop E socket (read_lines input) st1) (\<lambda>(_, st2). Inr st2))"

end
