(* ===== verification/SessionInv.thy ===== *)
theory SessionInv
  imports Session
begin

text \<open>
  What a socket session keeps between lines, that its handler never panics while the database
  holds only strings, and what each exchange of the protocol answers.
\<close>

subsection \<open>The phases of a session\<close>

text \<open>In mode SET the state counts key, value and terminator of one single pair; the pending
  map holds that pair only. The current key is empty except between key and value of a SET.\<close>

definition set_phase :: "sock_state \<Rightarrow> bool" where
  "set_phase st \<longleftrightarrow>
     (state st \<in> {0, 1} \<and> keys st = [] \<and> vals st = Some Map.empty) \<or>
     (state st = 2 \<and> (\<exists>k v. keys st = [k] \<and> vals st = Some [k \<mapsto> v]))"

definition sess_ok :: "sock_state \<Rightarrow> bool" where
  "sess_ok st \<longleftrightarrow>
     mode st \<in> {no_mode, modeGET, modeSET, modeDEL} \<and>
     (mode st \<in> {modeGET, modeDEL} \<longrightarrow> state st \<in> {0, 1}) \<and>
     (if mode st = modeSET then set_phase st else vals st = None \<or> vals st = Some Map.empty) \<and>
     (cur_key st = [] \<or> mode st = modeSET \<and> state st = 1)"

definition strings_only :: "(string \<rightharpoonup> go_value) \<Rightarrow> bool" where
  "strings_only m \<longleftrightarrow> (\<forall>k v. m k = Some v \<longrightarrow> (\<exists>s. v = GoString s))"

text \<open>The part of a state the replies do not touch.\<close>

definition same_session :: "sock_state \<Rightarrow> sock_state \<Rightarrow> bool" where
  "same_session st st' \<longleftrightarrow>
     mode st' = mode st \<and> state st' = state st \<and> keys st' = keys st \<and> vals st' = vals st \<and>
     cur_key st' = cur_key st \<and> numBy st' = numBy st \<and> CPUfile st' = CPUfile st"

lemma same_session_refl [simp]: "same_session st st"
  by (simp add: same_session_def)

lemma same_session_trans: "same_session a b \<Longrightarrow> same_session b c \<Longrightarrow> same_session a c"
  by (simp add: same_session_def)

lemma sess_ok_same: "same_session st st' \<Longrightarrow> sess_ok st' = sess_ok st"
  by (simp add: same_session_def sess_ok_def set_phase_def)

lemma strings_only_upd [simp]:
  "strings_only m \<Longrightarrow> strings_only (m(k \<mapsto> GoString s))"
  "strings_only m \<Longrightarrow> strings_only (m(k := None))"
  by (auto simp: strings_only_def)

lemma write_conn_frame [simp]:
  "sdb (snd (write_conn E s st)) = sdb st" "same_session st (snd (write_conn E s st))"
  by (simp_all add: write_conn_def Let_def same_session_def)

lemma PrintfLine_frame [simp]:
  "sdb (PrintfLine E s st) = sdb st" "same_session st (PrintfLine E s st)"
  by (simp_all add: PrintfLine_def)

lemma WriteString_frame:
  "WriteString E s st = (ok, st') \<Longrightarrow> sdb st' = sdb st \<and> same_session st st'"
  by (auto simp: WriteString_def write_conn_def Let_def same_session_def split: if_splits)

lemma WriteString_ok:
  "peer E (nwrites st) \<Longrightarrow> WriteString E s st =
     (True, st\<lparr>sent := sent st @ s, nwrites := nwrites st + 1,
               sentbytes := sentbytes st + of_nat (length s)\<rparr>)"
  by (simp add: WriteString_def write_conn_def Let_def)

subsection \<open>No handler panics on a database of strings\<close>

definition db_fine :: "'a db_env_scheme \<Rightarrow> XDatabase \<Rightarrow> bool" where
  "db_fine E d \<longleftrightarrow> db_inv E d \<and> strings_only (db_view d)"

lemma get_loop_keys_safe:
  assumes "db_fine E (sdb st)"
  shows "\<exists>b st'. get_loop_keys E n ks st = Inr (b, st') \<and> sdb st' = sdb st \<and> same_session st st'"
  using assms
proof (induction ks arbitrary: st)
  case (Cons k ks)
  have get: "XDatabase_Get E (sdb st) k = Inr (get_result (db_view (sdb st) k))"
    by (rule db.get_ok) (use Cons.prems in \<open>simp add: db_fine_def\<close>)
  consider "db_view (sdb st) k = None" | s where "db_view (sdb st) k = Some (GoString s)"
    using Cons.prems by (cases "db_view (sdb st) k") (auto simp: db_fine_def strings_only_def)
  then show ?case
  proof cases
    case 1
    let ?r = "(if n > 1 then NUL @ cur_key st else NUL) @ CRLF"
    obtain ok st1 where w: "WriteString E ?r st = (ok, st1)" by fastforce
    note f = WriteString_frame [OF w]
    from Cons.IH [of st1] Cons.prems f obtain b st' where
      "get_loop_keys E n ks st1 = Inr (b, st')" "sdb st' = sdb st1" "same_session st1 st'" by auto
    then show ?thesis using 1 get w f
      by (cases ok) (auto simp: get_result_def intro: same_session_trans)
  next
    case (2 s)
    obtain ok st1 where w: "WriteString E (s @ CRLF) st = (ok, st1)" by fastforce
    note f = WriteString_frame [OF w]
    let ?st = "st1\<lparr>tmpget := tmpget st1 - 1, n_get := n_get st1 + 1\<rparr>"
    have "same_session st ?st" using f by (simp add: same_session_def)
    moreover obtain b st' where
      "get_loop_keys E n ks ?st = Inr (b, st')" "sdb st' = sdb st1" "same_session ?st st'"
      using Cons.IH [of ?st] Cons.prems f by auto
    ultimately show ?thesis using 2 get w f
      by (cases ok) (auto simp: get_result_def intro: same_session_trans)
  qed
qed auto

lemma del_loop_keys_safe:
  assumes "db_fine E (sdb st)"
  shows "\<exists>b st'. del_loop_keys E ks st = Inr (b, st') \<and> db_fine E (sdb st') \<and>
     db_count (sdb st') \<le> db_count (sdb st) \<and> same_session st st'"
  using assms
proof (induction ks arbitrary: st)
  case (Cons k ks)
  obtain d where d: "XDatabase_Del E (sdb st) k =
      Inr (d, if db_view (sdb st) k = None then Some EntryNotFound else None)"
    "db_fine E d" "db_count d \<le> db_count (sdb st)"
    using db.del_ok [of E "sdb st" k] Cons.prems by (auto simp: db_fine_def)
  let ?st = "st\<lparr>sdb := d\<rparr>"
  let ?r = "if db_view (sdb st) k = None then ACK @ CRLF else NUL @ cur_key ?st @ CRLF"
  obtain ok st1 where w: "WriteString E ?r ?st = (ok, st1)" by fastforce
  have f: "sdb st1 = d" "same_session st st1"
    using WriteString_frame [OF w] by (simp_all add: same_session_def)
  let ?st1 = "if db_view (sdb st) k = None
    then st1\<lparr>tmpdel := tmpdel st1 - 1, n_del := n_del st1 + 1\<rparr> else st1"
  have f1: "sdb ?st1 = d" "same_session st ?st1" using f by (simp_all add: same_session_def)
  obtain b st' where ih: "del_loop_keys E ks ?st1 = Inr (b, st')" "db_fine E (sdb st')"
      "db_count (sdb st') \<le> db_count d" "same_session ?st1 st'"
    using Cons.IH [of ?st1] d(2) f1(1) by auto
  have "same_session st st'" using f1(2) ih(4) by (rule same_session_trans)
  moreover have "db_count (sdb st') \<le> db_count (sdb st)" using ih(3) d(3) by simp
  ultimately show ?case
    using w d f ih by (cases "db_view (sdb st) k = None"; cases ok) auto
qed auto

lemma set_loop_single:
  assumes "db_inv E (sdb st)" and "db_count (sdb st) < 2 ^ 61" and "vals st = Some [k \<mapsto> v]"
  shows "\<exists>d. set_loop E [k] st =
       Inr (False, st\<lparr>sdb := d, tmpset := tmpset st - 1, n_set := n_set st + 1\<rparr>) \<and>
     db_inv E d \<and> db_view d = (db_view (sdb st))(k \<mapsto> GoString v) \<and>
     db_count d \<le> Suc (db_count (sdb st))"
  using db.set_ok [OF assms(1,2), of k "GoString v"] assms(3) by auto

text \<open>The outcome of a handler: no panic, the database stays well-formed and grows by at most
  one entry, and a session that goes on is in a proper phase.\<close>

definition step_fine :: "'a sock_env_scheme \<Rightarrow> sock_state \<Rightarrow> (flow \<times> sock_state) go \<Rightarrow> bool" where
  "step_fine E st r \<longleftrightarrow>
     (\<exists>fl st'. r = Inr (fl, st') \<and> db_fine E (sdb st') \<and>
        db_count (sdb st') \<le> Suc (db_count (sdb st)) \<and> (fl = ContinueRead \<longrightarrow> sess_ok st'))"

lemma step_fineI:
  "db_fine E (sdb st') \<Longrightarrow> db_count (sdb st') \<le> Suc (db_count (sdb st)) \<Longrightarrow>
   (fl = ContinueRead \<Longrightarrow> sess_ok st') \<Longrightarrow> step_fine E st (Inr (fl, st'))"
  by (auto simp: step_fine_def)

lemma step_fine_CAN: "db_fine E (sdb st) \<Longrightarrow> step_fine E st (reply_CAN E st)"
  by (auto simp: step_fine_def reply_CAN_def)

lemma handle_modeSET_fine:
  assumes fine: "db_fine E (sdb st)" and cap: "db_count (sdb st) < 2 ^ 61"
    and ok: "sess_ok st" "mode st = modeSET"
  shows "step_fine E st (handle_modeSET E line st)"
proof -
  have ph: "set_phase st" using ok by (simp add: sess_ok_def)
  consider "state st = 0" | "state st = 1" | "state st = 2"
    using ph by (auto simp: set_phase_def)
  then show ?thesis
  proof cases
    case 1
    then show ?thesis using fine ok ph
      by (auto simp: handle_modeSET_def modeSET_state0_def step_fine_CAN sess_ok_def set_phase_def
          intro!: step_fineI)
  next
    case 2
    then have st1: "keys st = []" "vals st = Some Map.empty"
      using ph by (auto simp: set_phase_def)
    let ?st = "st\<lparr>numBy := numBy st - 1, tmpset := tmpset st + 1, keys := [cur_key st],
      vals := Some [cur_key st \<mapsto> line], cur_key := [], state := 2\<rparr>"
    have "\<exists>k v. keys ?st = [k] \<and> vals ?st = Some [k \<mapsto> v]"
      by (rule exI [of _ "cur_key st"], rule exI [of _ line]) simp
    then have "sess_ok ?st" using ok by (simp add: sess_ok_def set_phase_def)
    then show ?thesis using 2 st1 fine
      by (auto simp: handle_modeSET_def modeSET_state1_def Let_def step_fine_CAN
          intro!: step_fineI)
  next
    case 3
    then obtain k v where kv: "keys st = [k]" "vals st = Some [k \<mapsto> v]" "cur_key st = []"
      using ph ok by (auto simp: set_phase_def sess_ok_def)
    obtain d where d: "set_loop E [k] st =
         Inr (False, st\<lparr>sdb := d, tmpset := tmpset st - 1, n_set := n_set st + 1\<rparr>)"
      "db_inv E d" "db_view d = (db_view (sdb st))(k \<mapsto> GoString v)"
      "db_count d \<le> Suc (db_count (sdb st))"
      using set_loop_single [OF _ cap kv(2)] fine by (auto simp: db_fine_def)
    have d_fine: "db_fine E d" using d(2,3) fine by (simp add: db_fine_def)
    let ?st = "st\<lparr>sdb := d, tmpset := tmpset st - 1, n_set := n_set st + 1\<rparr>"
    obtain b st2 where w: "WriteString E (ACK @ CRLF) ?st = (b, st2)" by fastforce
    note f = WriteString_frame [OF w]
    have "sess_ok (st2\<lparr>keys := [], vals := None, mode := no_mode\<rparr>)"
      using f kv(3) by (simp add: sess_ok_def same_session_def mode_defs)
    then have "step_fine E st (modeSET_state2 E line st)" if "line = ETB"
      using that kv(1) d(1,4) d_fine w f
      by (cases b) (auto simp: modeSET_state2_def ETB_def intro!: step_fineI)
    moreover have "step_fine E st (modeSET_state2 E line st)" if "line \<noteq> ETB"
      using that ok fine by (auto simp: modeSET_state2_def step_fine_CAN intro!: step_fineI)
    ultimately show ?thesis using 3 by (auto simp: handle_modeSET_def)
  qed
qed

lemma handle_modeGET_fine:
  assumes fine: "db_fine E (sdb st)" and ok: "sess_ok st" "mode st = modeGET"
  shows "step_fine E st (handle_modeGET E line st)"
proof -
  consider "state st = 0" | "state st = 1" using ok by (auto simp: sess_ok_def)
  then show ?thesis
  proof cases
    case 1
    then show ?thesis using fine ok
      by (auto simp: handle_modeGET_def modeGET_state0_def step_fine_CAN sess_ok_def mode_defs
          intro!: step_fineI)
  next
    case 2
    obtain b st' where l: "get_loop_keys E (length (keys st)) (keys st) st = Inr (b, st')"
      "sdb st' = sdb st" "same_session st st'" using get_loop_keys_safe [OF fine] by blast
    have "sess_ok (st'\<lparr>mode := no_mode, keys := []\<rparr>)"
      using l(3) ok 2 by (auto simp: sess_ok_def same_session_def mode_defs)
    moreover have "sess_ok (st\<lparr>state := 0\<rparr>)"
      using ok 2 by (auto simp: sess_ok_def mode_defs)
    ultimately show ?thesis using 2 fine ok l
      by (cases b)
        (auto simp: handle_modeGET_def modeGET_state1_def step_fine_CAN intro!: step_fineI)
  qed
qed

lemma handle_modeDEL_fine:
  assumes fine: "db_fine E (sdb st)" and ok: "sess_ok st" "mode st = modeDEL"
  shows "step_fine E st (handle_modeDEL E line st)"
proof -
  consider "state st = 0" | "state st = 1" using ok by (auto simp: sess_ok_def)
  then show ?thesis
  proof cases
    case 1
    then show ?thesis using fine ok
      by (auto simp: handle_modeDEL_def modeDEL_state0_def step_fine_CAN sess_ok_def mode_defs
          intro!: step_fineI)
  next
    case 2
    obtain b st' where l: "del_loop_keys E (keys st) st = Inr (b, st')" "db_fine E (sdb st')"
      "db_count (sdb st') \<le> db_count (sdb st)" "same_session st st'"
      using del_loop_keys_safe [OF fine] by blast
    have "sess_ok st'" using l(4) ok by (simp add: sess_ok_same)
    moreover have "sess_ok (st\<lparr>state := 0\<rparr>)"
      using ok 2 by (auto simp: sess_ok_def mode_defs)
    ultimately show ?thesis using 2 fine ok l
      by (cases b)
        (auto simp: handle_modeDEL_def modeDEL_state1_def step_fine_CAN intro!: step_fineI)
  qed
qed

lemma split_bar:
  assumes "3 \<le> length line" and "line ! 1 = CHR ''|''"
  shows "\<exists>c arg. slice_0_2 (strings_Split line ''|'') = Inr [c, arg]"
proof -
  have "sublist ''|'' line" using assms
    by (metis (no_types) One_nat_def Suc_le_lessD append_Cons append_Nil id_take_nth_drop
        numeral_3_eq_3 sublist_appendI Suc_lessD)
  then obtain a b where ab: "cut ''|'' line = Some (a, b)"
    using cut_None [of "''|''" line] by (cases "cut ''|'' line") auto
  obtain x xs where "go_split ''|'' b = x # xs"
    using go_split_not_Nil [of "''|''" b] by (cases "go_split ''|'' b") auto
  then show ?thesis using ab
    by (simp add: strings_Split_def slice_0_2_def go_split.simps [of "''|''" line])
qed

text \<open>The commands for profiles, which work only when main has set the profiler.\<close>

definition profile_command :: "string \<Rightarrow> bool" where
  "profile_command line \<longleftrightarrow> take 2 line \<in> {Magic1 @ ''|'', Magic2 @ ''|''}"

lemma profile_split:
  assumes "slice_0_2 (strings_Split line ''|'') = Inr [c, arg]" and "c \<in> {Magic1, Magic2}"
  shows "profile_command line"
proof (cases "cut ''|'' line")
  case None
  then show ?thesis using assms(1)
    by (simp add: strings_Split_def slice_0_2_def go_split.simps [of "''|''" line])
next
  case (Some p)
  obtain a b where p: "p = (a, b)" by fastforce
  then have "c = a" using Some assms(1)
    by (auto simp: strings_Split_def slice_0_2_def go_split.simps [of "''|''" line] split: if_splits)
  then show ?thesis using cut_Some [OF Some [unfolded p]] assms(2)
    by (auto simp: profile_command_def Magic1_def Magic2_def)
qed

text \<open>A line is safe on a connection if it is no such command, or cannot be used there, or the
  profiler is there.\<close>

definition safe_line :: "'a sock_env_scheme \<Rightarrow> bool \<Rightarrow> string \<Rightarrow> bool" where
  "safe_line E socket line \<longleftrightarrow> socket \<and> profile_command line \<longrightarrow> Prof E \<noteq> None"

lemma handle_no_mode_fine:
  assumes fine: "db_fine E (sdb st)" and ok: "sess_ok st" "mode st = no_mode"
    and safe: "safe_line E socket line"
  shows "step_fine E st (handle_no_mode E socket line st)"
proof -
  let ?st1 = "st\<lparr>keys := [],
      vals := (case vals st of None \<Rightarrow> Some Map.empty | Some m \<Rightarrow> Some m)\<rparr>"
  have vals1: "(case vals st of None \<Rightarrow> Some Map.empty | Some m \<Rightarrow> Some m) = Some Map.empty"
    using ok by (auto simp: sess_ok_def)
  have key: "cur_key st = []" using ok by (auto simp: sess_ok_def)
  show ?thesis
  proof (cases "length line < 3 \<or> line ! 1 \<noteq> CHR ''|''")
    case True
    then show ?thesis using step_fine_CAN [of E ?st1] fine
      by (simp add: handle_no_mode_def Let_def step_fine_def)
  next
    case False
    then obtain c arg where split: "slice_0_2 (strings_Split line ''|'') = Inr [c, arg]"
      using split_bar [of line] by auto
    let ?st2 = "?st1\<lparr>state := - 1, cmd := c, n_set := 0, tmpset := 0, n_del := 0, tmpdel := 0,
        n_get := 0, tmpget := 0\<rparr>"
    have enter: "step_fine E st (enter_mode E m arg ?st2)" if "m \<in> {modeGET, modeSET, modeDEL}" for m
      using that fine key vals1
      by (auto simp: enter_mode_def Let_def sess_ok_def set_phase_def intro!: step_fineI)
    have same: "sess_ok st'" if "same_session ?st2 st'" for st'
      using that ok key vals1 by (auto simp: same_session_def sess_ok_def)
    have prof: "socket \<Longrightarrow> c \<in> {Magic1, Magic2} \<Longrightarrow> Prof E \<noteq> None"
      using safe profile_split [OF split] by (simp add: safe_line_def)
    have mem: "step_fine E st (cmd_Magic1 E socket arg ?st2)" if "c = Magic1"
    proof -
      obtain args where "mem_profile_args E arg = Inr args"
      proof (cases "sublist '','' arg")
        case True
        then obtain a b where "cut '','' arg = Some (a, b)"
          using cut_None [of "'','' " arg] cut_None [of "'',''" arg] by (cases "cut '','' arg") auto
        moreover obtain x xs where "go_split '','' b = x # xs"
          using go_split_not_Nil [of "'',''" b] by (cases "go_split '','' b") auto
        ultimately have "\<exists>args. mem_profile_args E arg = Inr args"
          using True by (simp add: mem_profile_args_def strings_Split_def slice_0_2_def Let_def
              go_split.simps [of "'',''" arg])
        then show ?thesis using that by blast
      qed (simp add: mem_profile_args_def that)
      then show ?thesis using fine same prof \<open>c = Magic1\<close>
        by (cases args) (auto simp: cmd_Magic1_def same_session_def PrintfLine_def write_conn_def
            Let_def intro!: step_fineI)
    qed
    have cpu: "step_fine E st (cmd_Magic2 E socket ?st2)" if "c = Magic2"
      using fine ok key vals1 prof that
      by (auto simp: cmd_Magic2_def sess_ok_def PrintfLine_def write_conn_def Let_def
          intro!: step_fineI)
    have "step_fine E st (run_command E socket c arg ?st2)"
      using enter mem cpu fine by (auto simp: run_command_def intro!: step_fineI)
    then show ?thesis using False split
      by (simp add: handle_no_mode_def Let_def)
  qed
qed

lemma readline_body_fine:
  assumes fine: "db_fine E (sdb st)" and cap: "db_count (sdb st) < 2 ^ 61" and ok: "sess_ok st"
    and safe: "safe_line E socket line"
  shows "step_fine E st (readline_body E socket line st)"
proof -
  let ?st = "st\<lparr>recvbytes := recvbytes st + of_nat (length line) + 2\<rparr>"
  have ok': "sess_ok ?st" and db': "sdb ?st = sdb st"
    using ok sess_ok_same [of st ?st] by (simp_all add: same_session_def)
  have st: "step_fine E ?st r = step_fine E st r" for r by (simp add: step_fine_def)
  consider "mode ?st = no_mode" | "mode ?st = modeGET" | "mode ?st = modeSET" | "mode ?st = modeDEL"
    using ok' by (auto simp: sess_ok_def)
  then show ?thesis
    using handle_no_mode_fine [of E ?st socket line] handle_modeGET_fine [of E ?st line]
      handle_modeSET_fine [of E ?st line] handle_modeDEL_fine [of E ?st line] ok' fine cap safe
    unfolding st db' by cases (simp_all add: readline_body_def Let_def)
qed

lemma readlines_loop_fine:
  assumes "db_fine E (sdb st)" and "db_count (sdb st) + length ls \<le> 2 ^ 61" and "sess_ok st"
    and "list_all (safe_line E socket) ls"
  shows "\<exists>fl st'. readlines_loop E socket ls st = Inr (fl, st') \<and> db_fine E (sdb st') \<and>
     db_count (sdb st') \<le> db_count (sdb st) + length ls"
  using assms
proof (induction ls arbitrary: st)
  case (Cons line ls)
  have "db_count (sdb st) < 2 ^ 61" "safe_line E socket line" using Cons.prems(2,4) by simp_all
  with readline_body_fine [of E st socket line] Cons.prems obtain fl st1 where
    s: "readline_body E socket line st = Inr (fl, st1)" "db_fine E (sdb st1)"
      "db_count (sdb st1) \<le> Suc (db_count (sdb st))" "fl = ContinueRead \<longrightarrow> sess_ok st1"
    unfolding step_fine_def by blast
  show ?case
  proof (cases fl)
    case ContinueRead
    then show ?thesis using Cons.IH [of st1] s Cons.prems(2,4) by fastforce
  next
    case BreakRead
    then show ?thesis using s by auto
  qed
qed auto

end
