(* ===== verification/SessionExchange.thy ===== *)
theory SessionExchange
  imports SessionInv
begin

text \<open>
  What the exchanges of the socket protocol answer and do to the database, over a connection
  whose writes succeed: SET stores one pair and answers ACK, GET answers every key in order,
  DEL answers every key in order and stays in its mode.
\<close>

definition reliable :: "'a sock_env_scheme \<Rightarrow> bool" where
  "reliable E \<longleftrightarrow> (\<forall>i. peer E i)"

definition idle :: "sock_state \<Rightarrow> bool" where
  "idle st \<longleftrightarrow> sess_ok st \<and> mode st = no_mode"

lemma idle_new: "idle (new_session db cpu calls)"
  by (simp add: idle_def sess_ok_def new_session_def)

lemma idle_fields:
  "idle st \<Longrightarrow> mode st = no_mode \<and> cur_key st = [] \<and> (vals st = None \<or> vals st = Some Map.empty)"
  by (auto simp: idle_def sess_ok_def)

text \<open>A session that is to read a key.\<close>

definition at_key :: "int \<Rightarrow> string list \<Rightarrow> sock_state \<Rightarrow> bool" where
  "at_key m ks st \<longleftrightarrow> mode st = m \<and> state st = 0 \<and> keys st = ks \<and> cur_key st = [] \<and>
     vals st = Some Map.empty"

definition after_key :: "int \<Rightarrow> string list \<Rightarrow> sock_state \<Rightarrow> bool" where
  "after_key m ks st \<longleftrightarrow> mode st = m \<and> state st = 1 \<and> keys st = ks \<and> cur_key st = [] \<and>
     vals st = Some Map.empty"

lemmas phase_defs = at_key_def after_key_def

text \<open>Neither the database nor the output changed.\<close>

definition quiet :: "sock_state \<Rightarrow> sock_state \<Rightarrow> bool" where
  "quiet st st' \<longleftrightarrow> sdb st' = sdb st \<and> sent st' = sent st"

lemma quiet_trans: "quiet a b \<Longrightarrow> quiet b c \<Longrightarrow> quiet a c"
  by (simp add: quiet_def)

lemma readlines_loop_append:
  "readlines_loop E s (a @ b) st =
     rbind (readlines_loop E s a st) (\<lambda>(fl, st1).
       case fl of BreakRead \<Rightarrow> Inr (BreakRead, st1) | ContinueRead \<Rightarrow> readlines_loop E s b st1)"
proof (induction a arbitrary: st)
  case (Cons l a)
  show ?case
  proof (cases "readline_body E s l st")
    case (Inr r)
    then show ?thesis using Cons.IH by (cases r; cases "fst r") auto
  qed simp
qed simp

lemma readlines_loop_appendI:
  "readlines_loop E s a st = Inr (ContinueRead, st1) \<Longrightarrow>
   readlines_loop E s (a @ b) st = readlines_loop E s b st1"
  by (simp add: readlines_loop_append)

subsection \<open>Entering a mode\<close>

definition command :: "string \<Rightarrow> int \<Rightarrow> bool" where
  "command c m \<longleftrightarrow> c = MagicS \<and> m = modeSET \<or> c = MagicG \<and> m = modeGET \<or> c = MagicD \<and> m = modeDEL"

definition good_count :: "string \<Rightarrow> bool" where
  "good_count arg \<longleftrightarrow> arg \<noteq> [] \<and> list_all is_ascii_digit arg \<and> 0 < dec_value arg \<and>
     dec_value arg < 2 ^ 63"

lemma good_count_1: "good_count ''1''"
  by (simp add: good_count_def is_ascii_digit_def dec_value_def)

lemma Str2int_good: "good_count arg \<Longrightarrow> Str2int f arg \<noteq> 0"
  using of_nat64_eq_0 [of "dec_value arg"] by (simp add: good_count_def Str2int_eq)

lemma digits_no_bar: "list_all is_ascii_digit arg \<Longrightarrow> \<not> sublist ''|'' arg"
  by (auto simp: sublist_def is_ascii_digit_def)

lemma split_command:
  assumes "list_all is_ascii_digit arg" and "c \<noteq> CHR ''|''"
  shows "strings_Split (c # CHR ''|'' # arg) ''|'' = [[c], arg]"
proof -
  have "cut ''|'' arg = None" using digits_no_bar [OF assms(1)] by (simp add: cut_None)
  then show ?thesis using assms(2)
    by (simp add: strings_Split_def go_split.simps [of _ "c # CHR ''|'' # arg"]
        go_split.simps [of _ arg])
qed

lemma enter_step:
  assumes "idle st" and "command c m" and "good_count arg"
  shows "\<exists>st'. readline_body E s (c @ ''|'' @ arg) st = Inr (ContinueRead, st') \<and>
     at_key m [] st' \<and> quiet st st'"
proof -
  obtain x where c: "c = [x]" "x \<noteq> CHR ''|''"
    using assms(2) by (auto simp: command_def magic_defs)
  obtain y ys where arg: "arg = y # ys" using assms(3) by (cases arg) (auto simp: good_count_def)
  have v: "(case vals st of None \<Rightarrow> Some Map.empty | Some m \<Rightarrow> Some m) = Some Map.empty"
    using idle_fields [OF assms(1)] by auto
  have split: "slice_0_2 (strings_Split (x # CHR ''|'' # arg) ''|'') = Inr [[x], arg]"
    using split_command [OF _ c(2), of arg] assms(3) by (simp add: slice_0_2_def good_count_def)
  have len: "\<not> length (x # CHR ''|'' # arg) < 3" using arg by simp
  show ?thesis
    using assms(2) idle_fields [OF assms(1)] v split len Str2int_good [OF assms(3), of "nd E"]
    unfolding c command_def
    by (auto simp: readline_body_def handle_no_mode_def Let_def run_command_def enter_mode_def
        phase_defs quiet_def)
qed

subsection \<open>Reading keys\<close>

text \<open>The lines of a list of keys: a BEL between keys and an ETB at the end.\<close>

fun key_lines :: "string list \<Rightarrow> string list" where
  "key_lines [] = []"
| "key_lines [k] = [k]"
| "key_lines (k # k2 # ks) = k # BEL # key_lines (k2 # ks)"

lemma key_step:
  assumes "m = modeGET \<or> m = modeDEL" and "at_key m ks st" and "length k \<le> KEY_LIMIT"
  shows "\<exists>st'. readline_body E s k st = Inr (ContinueRead, st') \<and> after_key m (ks @ [k]) st' \<and>
     quiet st st'"
  using assms
  by (auto simp: readline_body_def Let_def phase_defs quiet_def handle_modeGET_def
      modeGET_state0_def handle_modeDEL_def modeDEL_state0_def)

lemma bel_step:
  assumes "m = modeGET \<or> m = modeDEL" and "after_key m ks st"
  shows "\<exists>st'. readline_body E s BEL st = Inr (ContinueRead, st') \<and> at_key m ks st' \<and> quiet st st'"
  using assms
  by (auto simp: readline_body_def Let_def phase_defs quiet_def handle_modeGET_def
      modeGET_state1_def handle_modeDEL_def modeDEL_state1_def)

lemma read_keys:
  assumes "m = modeGET \<or> m = modeDEL" and "ks \<noteq> []" and "\<forall>k \<in> set ks. length k \<le> KEY_LIMIT"
    and "at_key m ks0 st"
  shows "\<exists>st'. readlines_loop E s (key_lines ks) st = Inr (ContinueRead, st') \<and>
     after_key m (ks0 @ ks) st' \<and> quiet st st'"
  using assms(2-4)
proof (induction ks arbitrary: st ks0 rule: key_lines.induct)
  case (2 k)
  with key_step [OF assms(1), of ks0 st k E s] show ?case by auto
next
  case (3 k k2 ks)
  obtain st1 where 1: "readline_body E s k st = Inr (ContinueRead, st1)"
    "after_key m (ks0 @ [k]) st1" "quiet st st1"
    using key_step [OF assms(1), of ks0 st k E s] 3(3,4) by auto
  obtain st2 where 2: "readline_body E s BEL st1 = Inr (ContinueRead, st2)"
    "at_key m (ks0 @ [k]) st2" "quiet st1 st2"
    using bel_step [OF assms(1) 1(2), of E s] by blast
  from 3(1) [OF _ _ 2(2)] 3(3) 1 2 show ?case
    by (auto simp: quiet_def)
qed simp

subsection \<open>GET\<close>

definition get_reply :: "(string \<rightharpoonup> go_value) \<Rightarrow> string \<Rightarrow> string" where
  "get_reply m k = (case m k of Some (GoString v) \<Rightarrow> v @ CRLF | _ \<Rightarrow> NUL @ CRLF)"

definition stored :: "(string \<rightharpoonup> go_value) \<Rightarrow> string list \<Rightarrow> nat" where
  "stored m ks = length (filter (\<lambda>k. m k \<noteq> None) ks)"

lemma get_loop_keys_closed:
  assumes "db_fine E (sdb st)" and "reliable E" and "cur_key st = []"
  shows "get_loop_keys E n ks st = Inr (False,
     let out = concat (map (get_reply (db_view (sdb st))) ks); hits = stored (db_view (sdb st)) ks in
     st\<lparr>tmpget := tmpget st - of_nat hits, n_get := n_get st + of_nat hits,
        sentbytes := sentbytes st + of_nat (length out), sent := sent st @ out,
        nwrites := nwrites st + length ks\<rparr>)"
  using assms
proof (induction ks arbitrary: st)
  case (Cons k ks)
  have get: "XDatabase_Get E (sdb st) k = Inr (get_result (db_view (sdb st) k))"
    by (rule db.get_ok) (use Cons.prems in \<open>simp add: db_fine_def\<close>)
  have peer: "peer E i" for i using Cons.prems(2) by (simp add: reliable_def)
  let ?nul = "st\<lparr>sent := sent st @ NUL @ CRLF, nwrites := nwrites st + 1,
      sentbytes := sentbytes st + of_nat (length (NUL @ CRLF))\<rparr>"
  let ?val = "\<lambda>v. st\<lparr>sent := sent st @ v @ CRLF, nwrites := nwrites st + 1,
      sentbytes := sentbytes st + of_nat (length (v @ CRLF)), tmpget := tmpget st - 1,
      n_get := n_get st + 1\<rparr>"
  consider "db_view (sdb st) k = None" | v where "db_view (sdb st) k = Some (GoString v)"
    using Cons.prems by (cases "db_view (sdb st) k") (auto simp: db_fine_def strings_only_def)
  then show ?case
  proof cases
    case 1
    with get peer Cons.prems(3) have "get_loop_keys E n (k # ks) st = get_loop_keys E n ks ?nul"
      by (simp add: WriteString_ok get_result_def)
    with Cons.IH [of ?nul] Cons.prems 1 show ?thesis
      by (simp add: get_reply_def stored_def Let_def algebra_simps)
  next
    case (2 v)
    with get peer Cons.prems(3) have "get_loop_keys E n (k # ks) st = get_loop_keys E n ks (?val v)"
      by (simp add: WriteString_ok get_result_def)
    with Cons.IH [of "?val v"] Cons.prems 2 show ?thesis
      by (simp add: get_reply_def stored_def Let_def algebra_simps)
  qed
qed (simp add: stored_def)

lemma ETB_get_step:
  assumes "db_fine E (sdb st)" and "reliable E" and "after_key modeGET ks st"
  shows "\<exists>st'. readline_body E s ETB st = Inr (ContinueRead, st') \<and> idle st' \<and> sdb st' = sdb st \<and>
     sent st' = sent st @ concat (map (get_reply (db_view (sdb st))) ks)"
proof -
  let ?st = "st\<lparr>recvbytes := recvbytes st + of_nat (length ETB) + 2\<rparr>"
  have "db_fine E (sdb ?st)" "cur_key ?st = []" "sdb ?st = sdb st" "sent ?st = sent st"
    using assms by (simp_all add: phase_defs)
  note closed = get_loop_keys_closed [OF this(1) assms(2) this(2), of "length ks" ks, unfolded this(3,4)]
  show ?thesis using assms(3) closed
    by (auto simp: readline_body_def phase_defs handle_modeGET_def modeGET_state1_def Let_def
        idle_def sess_ok_def)
qed

lemma get_exchange:
  assumes "idle st" and "db_fine E (sdb st)" and "reliable E" and "good_count arg"
    and "ks \<noteq> []" and "\<forall>k \<in> set ks. length k \<le> KEY_LIMIT"
  shows "\<exists>st'. readlines_loop E s ((MagicG @ ''|'' @ arg) # key_lines ks @ [ETB]) st =
       Inr (ContinueRead, st') \<and> idle st' \<and> sdb st' = sdb st \<and>
     sent st' = sent st @ concat (map (get_reply (db_view (sdb st))) ks)"
proof -
  obtain st1 where 1: "readline_body E s (MagicG @ ''|'' @ arg) st = Inr (ContinueRead, st1)"
    "at_key modeGET [] st1" "quiet st st1"
    using enter_step [OF assms(1) _ assms(4), of MagicG modeGET E s] by (auto simp: command_def)
  obtain st2 where 2: "readlines_loop E s (key_lines ks) st1 = Inr (ContinueRead, st2)"
    "after_key modeGET ks st2" "quiet st1 st2"
    using read_keys [OF _ assms(5,6) 1(2), of E s] by auto
  have q: "sdb st2 = sdb st" "sent st2 = sent st" using 1(3) 2(3) by (simp_all add: quiet_def)
  obtain st3 where 3: "readline_body E s ETB st2 = Inr (ContinueRead, st3)" "idle st3"
    "sdb st3 = sdb st" "sent st3 = sent st @ concat (map (get_reply (db_view (sdb st))) ks)"
    using ETB_get_step [OF _ assms(3) 2(2), of s] assms(2) q by auto
  show ?thesis using 1(1) 3 readlines_loop_appendI [OF 2(1), of "[ETB]"] by auto
qed

subsection \<open>DEL\<close>

fun del_replies :: "(string \<rightharpoonup> go_value) \<Rightarrow> string list \<Rightarrow> string" where
  "del_replies m [] = []"
| "del_replies m (k # ks) =
     (if m k = None then ACK else NUL) @ CRLF @ del_replies (m(k := None)) ks"

definition without :: "(string \<rightharpoonup> go_value) \<Rightarrow> string list \<Rightarrow> string \<rightharpoonup> go_value" where
  "without m ks = (\<lambda>k. if k \<in> set ks then None else m k)"

lemma without_Cons: "without (m(k := None)) ks = without m (k # ks)"
  by (auto simp: without_def)

lemma del_loop_keys_closed:
  assumes "db_fine E (sdb st)" and "reliable E" and "cur_key st = []"
  shows "\<exists>st'. del_loop_keys E ks st = Inr (False, st') \<and> db_fine E (sdb st') \<and>
     db_count (sdb st') \<le> db_count (sdb st) \<and>
     db_view (sdb st') = without (db_view (sdb st)) ks \<and>
     sent st' = sent st @ del_replies (db_view (sdb st)) ks \<and> same_session st st'"
  using assms
proof (induction ks arbitrary: st)
  case Nil
  then show ?case by (auto simp: without_def)
next
  case (Cons k ks)
  obtain d where d: "XDatabase_Del E (sdb st) k =
      Inr (d, if db_view (sdb st) k = None then Some EntryNotFound else None)"
    "db_fine E d" "db_count d \<le> db_count (sdb st)" "db_view d = (db_view (sdb st))(k := None)"
    using db.del_ok [of E "sdb st" k] Cons.prems by (auto simp: db_fine_def)
  have peer: "peer E i" for i using Cons.prems(2) by (simp add: reliable_def)
  let ?nf = "db_view (sdb st) k = None"
  let ?w = "st\<lparr>sdb := d, sent := sent st @ (if ?nf then ACK else NUL) @ CRLF,
      nwrites := nwrites st + 1, sentbytes := sentbytes st + 3\<rparr>"
  let ?st1 = "if ?nf then ?w\<lparr>tmpdel := tmpdel st - 1, n_del := n_del st + 1\<rparr> else ?w"
  have step: "del_loop_keys E (k # ks) st = del_loop_keys E ks ?st1"
    using d(1) peer Cons.prems(3) by (auto simp: WriteString_ok)
  have st1: "sdb ?st1 = d" "cur_key ?st1 = []" "same_session st ?st1"
    "sent ?st1 = sent st @ (if ?nf then ACK else NUL) @ CRLF"
    using Cons.prems(3) by (auto simp: same_session_def)
  obtain st' where "del_loop_keys E ks ?st1 = Inr (False, st')" "db_fine E (sdb st')"
    "db_count (sdb st') \<le> db_count d" "db_view (sdb st') = without (db_view d) ks"
    "sent st' = sent ?st1 @ del_replies (db_view d) ks" "same_session ?st1 st'"
    using Cons.IH [of ?st1, unfolded st1(1), OF d(2) Cons.prems(2) st1(2)] by blast
  then show ?case
    unfolding step using d(3) same_session_trans [OF st1(3), of st']
    by (auto simp: d(4) without_Cons st1(4))
qed

lemma ETB_del_step:
  assumes "db_fine E (sdb st)" and "reliable E" and "after_key modeDEL ks st"
  shows "\<exists>st'. readline_body E s ETB st = Inr (ContinueRead, st') \<and> after_key modeDEL ks st' \<and>
     db_fine E (sdb st') \<and> db_view (sdb st') = without (db_view (sdb st)) ks \<and>
     sent st' = sent st @ del_replies (db_view (sdb st)) ks"
proof -
  let ?st = "st\<lparr>recvbytes := recvbytes st + of_nat (length ETB) + 2\<rparr>"
  have fields: "db_fine E (sdb ?st)" "cur_key ?st = []" "sdb ?st = sdb st" "sent ?st = sent st"
    "after_key modeDEL ks ?st"
    using assms by (simp_all add: phase_defs)
  then obtain st' where st': "del_loop_keys E ks ?st = Inr (False, st')" "db_fine E (sdb st')"
    "db_view (sdb st') = without (db_view (sdb st)) ks"
    "sent st' = sent st @ del_replies (db_view (sdb st)) ks" "same_session ?st st'"
    using del_loop_keys_closed [OF fields(1) assms(2) fields(2), of ks] by auto
  then have "after_key modeDEL ks st'" using fields(5) by (simp add: phase_defs same_session_def)
  with st' fields(5) show ?thesis
    by (simp add: readline_body_def phase_defs handle_modeDEL_def modeDEL_state1_def Let_def)
qed

lemma del_exchange:
  assumes "idle st" and "db_fine E (sdb st)" and "reliable E" and "good_count arg"
    and "ks \<noteq> []" and "\<forall>k \<in> set ks. length k \<le> KEY_LIMIT"
  shows "\<exists>st'. readlines_loop E s ((MagicD @ ''|'' @ arg) # key_lines ks @ [ETB]) st =
       Inr (ContinueRead, st') \<and> after_key modeDEL ks st' \<and> db_fine E (sdb st') \<and>
     db_view (sdb st') = without (db_view (sdb st)) ks \<and>
     sent st' = sent st @ del_replies (db_view (sdb st)) ks"
proof -
  obtain st1 where 1: "readline_body E s (MagicD @ ''|'' @ arg) st = Inr (ContinueRead, st1)"
    "at_key modeDEL [] st1" "quiet st st1"
    using enter_step [OF assms(1) _ assms(4), of MagicD modeDEL E s] by (auto simp: command_def)
  obtain st2 where 2: "readlines_loop E s (key_lines ks) st1 = Inr (ContinueRead, st2)"
    "after_key modeDEL ks st2" "quiet st1 st2"
    using read_keys [OF _ assms(5,6) 1(2), of E s] by auto
  have q: "sdb st2 = sdb st" "sent st2 = sent st" using 1(3) 2(3) by (simp_all add: quiet_def)
  obtain st3 where 3: "readline_body E s ETB st2 = Inr (ContinueRead, st3)"
    "after_key modeDEL ks st3" "db_fine E (sdb st3)"
    "db_view (sdb st3) = without (db_view (sdb st)) ks"
    "sent st3 = sent st @ del_replies (db_view (sdb st)) ks"
    using ETB_del_step [OF _ assms(3) 2(2), of s] assms(2) q by auto
  show ?thesis using 1(1) 3 readlines_loop_appendI [OF 2(1), of "[ETB]"] by auto
qed

text \<open>After a DEL the session still reads terminators: any line that is not one byte ends it.\<close>

lemma after_del_step:
  assumes "after_key modeDEL ks st" and "length line \<noteq> 1"
  shows "\<exists>st'. readline_body E s line st = Inr (BreakRead, st') \<and> sdb st' = sdb st \<and>
     (reliable E \<longrightarrow> sent st' = sent st @ CAN @ CRLF)"
  using assms
  by (auto simp: readline_body_def phase_defs handle_modeDEL_def modeDEL_state1_def Let_def
      reply_CAN_def PrintfLine_def write_conn_def reliable_def)

subsection \<open>SET\<close>

text \<open>After the command, the key and the value a session holds that one pair.\<close>

lemma set_pair_read:
  assumes "idle st" and "good_count arg" and "length k \<le> KEY_LIMIT" and "length v \<le> VAL_LIMIT"
  shows "\<exists>st'. readlines_loop E s [MagicS @ ''|'' @ arg, k, v] st = Inr (ContinueRead, st') \<and>
     mode st' = modeSET \<and> state st' = 2 \<and> keys st' = [k] \<and> vals st' = Some [k \<mapsto> v] \<and>
     cur_key st' = [] \<and> quiet st st'"
proof -
  obtain st1 where 1: "readline_body E s (MagicS @ ''|'' @ arg) st = Inr (ContinueRead, st1)"
    "at_key modeSET [] st1" "quiet st st1"
    using enter_step [OF assms(1) _ assms(2), of MagicS modeSET E s] by (auto simp: command_def)
  let ?st2 = "st1\<lparr>recvbytes := recvbytes st1 + of_nat (length k) + 2, cur_key := k, state := 1\<rparr>"
  have 2: "readline_body E s k st1 = Inr (ContinueRead, ?st2)"
    using 1(2) assms(3) by (simp add: readline_body_def phase_defs handle_modeSET_def
        modeSET_state0_def Let_def)
  obtain st3 where "readline_body E s v ?st2 = Inr (ContinueRead, st3)" "mode st3 = modeSET"
    "state st3 = 2" "keys st3 = [k]" "vals st3 = Some [k \<mapsto> v]" "cur_key st3 = []" "quiet st st3"
    using 1(2,3) assms(4) by (auto simp: readline_body_def phase_defs handle_modeSET_def
        modeSET_state1_def Let_def quiet_def)
  then show ?thesis using 1(1) 2 by auto
qed

lemma set_exchange:
  assumes "idle st" and "db_fine E (sdb st)" and "db_count (sdb st) < 2 ^ 61" and "reliable E"
    and "good_count arg" and "length k \<le> KEY_LIMIT" and "length v \<le> VAL_LIMIT"
  shows "\<exists>st'. readlines_loop E s [MagicS @ ''|'' @ arg, k, v, ETB] st =
       Inr (ContinueRead, st') \<and> idle st' \<and> db_fine E (sdb st') \<and>
     db_view (sdb st') = (db_view (sdb st))(k \<mapsto> GoString v) \<and>
     db_count (sdb st') \<le> Suc (db_count (sdb st)) \<and> sent st' = sent st @ ACK @ CRLF"
proof -
  obtain st3 where 3: "readlines_loop E s [MagicS @ ''|'' @ arg, k, v] st = Inr (ContinueRead, st3)"
    "mode st3 = modeSET" "state st3 = 2" "keys st3 = [k]" "vals st3 = Some [k \<mapsto> v]"
    "cur_key st3 = []" "quiet st st3"
    using set_pair_read [OF assms(1,5-7), of E s] by blast
  let ?st3 = "st3\<lparr>recvbytes := recvbytes st3 + of_nat (length ETB) + 2\<rparr>"
  have q: "sdb ?st3 = sdb st" "sent ?st3 = sent st" using 3(7) by (simp_all add: quiet_def)
  obtain d where d: "set_loop E [k] ?st3 =
       Inr (False, ?st3\<lparr>sdb := d, tmpset := tmpset ?st3 - 1, n_set := n_set ?st3 + 1\<rparr>)"
    "db_inv E d" "db_view d = (db_view (sdb st))(k \<mapsto> GoString v)"
    "db_count d \<le> Suc (db_count (sdb st))"
    using set_loop_single [of E ?st3 k v] assms(2,3) 3(5) q by (auto simp: db_fine_def)
  have "db_fine E d" using d(2,3) assms(2) by (simp add: db_fine_def)
  moreover have "peer E i" for i using assms(4) by (simp add: reliable_def)
  ultimately obtain st4 where "readline_body E s ETB st3 = Inr (ContinueRead, st4)" "idle st4"
    "sdb st4 = d" "sent st4 = sent st @ ACK @ CRLF"
    using 3 d(1) q by (auto simp: readline_body_def handle_modeSET_def modeSET_state2_def Let_def
        WriteString_ok idle_def sess_ok_def)
  then show ?thesis using d(3,4) \<open>db_fine E d\<close> readlines_loop_appendI [OF 3(1), of "[ETB]"] by auto
qed

text \<open>A BEL after the value leaves the state as it is, so that a second key is taken for a
  malformed terminator: the session ends and the first pair is lost.\<close>

lemma set_second_pair:
  assumes "idle st" and "good_count arg" and "length k \<le> KEY_LIMIT" and "length v \<le> VAL_LIMIT"
    and "length k2 \<noteq> 1"
  shows "\<exists>st'. readlines_loop E s [MagicS @ ''|'' @ arg, k, v, BEL, k2] st =
       Inr (BreakRead, st') \<and> sdb st' = sdb st \<and>
     (reliable E \<longrightarrow> sent st' = sent st @ CAN @ CRLF)"
proof -
  obtain st3 where 3: "readlines_loop E s [MagicS @ ''|'' @ arg, k, v] st = Inr (ContinueRead, st3)"
    "mode st3 = modeSET" "state st3 = 2" "quiet st st3"
    using set_pair_read [OF assms(1-4), of E s] by blast
  have "\<exists>st'. readlines_loop E s [BEL, k2] st3 = Inr (BreakRead, st') \<and> sdb st' = sdb st3 \<and>
      (reliable E \<longrightarrow> sent st' = sent st3 @ CAN @ CRLF)"
    using 3(2,3) assms(5)
    by (auto simp: readline_body_def handle_modeSET_def modeSET_state2_def Let_def reply_CAN_def
        PrintfLine_def write_conn_def reliable_def)
  then show ?thesis
    using readlines_loop_appendI [OF 3(1), of "[BEL, k2]"] 3(4) by (auto simp: quiet_def)
qed

subsection \<open>Values that are not strings\<close>

lemma get_crash:
  assumes "idle st" and "db_inv E (sdb st)" and "good_count arg" and "length k \<le> KEY_LIMIT"
    and "db_view (sdb st) k = Some v" and "v \<noteq> GoNil" and "\<forall>s. v \<noteq> GoString s"
  shows "readlines_loop E s [MagicG @ ''|'' @ arg, k, ETB] st = Inl TypeAssertionFailed"
proof -
  obtain st1 where 1: "readline_body E s (MagicG @ ''|'' @ arg) st = Inr (ContinueRead, st1)"
    "at_key modeGET [] st1" "quiet st st1"
    using enter_step [OF assms(1) _ assms(3), of MagicG modeGET E s] by (auto simp: command_def)
  obtain st2 where 2: "readline_body E s k st1 = Inr (ContinueRead, st2)"
    "after_key modeGET [k] st2" "quiet st1 st2"
    using key_step [OF _ 1(2) assms(4), of E s] by auto
  have "sdb st2 = sdb st" using 1(3) 2(3) by (simp add: quiet_def)
  then have "XDatabase_Get E (sdb st2) k = Inr v"
    using db.get_ok [OF assms(2), of k] assms(5) by (simp add: get_result_def)
  then have "readline_body E s ETB st2 = Inl TypeAssertionFailed"
    using 2(2) assms(6,7) by (cases v) (auto simp: readline_body_def phase_defs handle_modeGET_def
        modeGET_state1_def Let_def)
  then show ?thesis using 1(1) 2(1) by simp
qed

end
