(* ===== verification/Client.thy ===== *)
theory Client
  imports Protocol
begin

text \<open>
  The client library, client/clilib/client.go: the handler that registers clients, the set-up
  of a connection, the three socket requests with the interpretation of their replies, and the
  HTTP requests. The network is a parameter: whether dialling succeeds, the line that the server
  sends first, and for a request the line (or HTTP body) that comes back.
\<close>

subsection \<open>State\<close>

definition DefaultAddr :: string where "DefaultAddr = ''localhost:2420''"
definition DefaultAddrSSL :: string where "DefaultAddrSSL = ''localhost:2420''"
definition DefaultAddrTCPsocket :: string where "DefaultAddrTCPsocket = ''localhost:3420''"
definition DefaultAddrTLSsocket :: string where "DefaultAddrTLSsocket = ''localhost:4420''"

record Options =
  oAddr :: string
  oMode :: int
  oSSL :: bool
  oSSLinsecure :: bool
  oAuth :: string
  oDaemon :: bool
  oRunTest :: bool

record Client =
  cMode :: int
  cid :: int
  addr :: string
  url :: string
  ssl :: bool
  insecure :: bool
  auth :: string
  daemon :: bool
  runtest :: bool
  http_open :: bool
  sock_open :: bool
  tp_open :: bool

record CliHandler =
  hid :: int
  slots :: int
  Clients :: "Client option list"

definition NewCliHandler :: CliHandler where
  "NewCliHandler = \<lparr>hid = 0, slots = 1, Clients = replicate 2 None\<rparr>"

datatype cli_error = TpNil | DialFailed | BadWelcome | IOFailed | EmptyReply | HttpNil

subsection \<open>Connecting\<close>

text \<open>\<open>textproto.Reader.ReadCodeLine\<close> with the expected code 200: three digits of a code that
  is at least 100 and equals 200, followed by a blank, not by the dash of a continued reply.\<close>

definition ReadCodeLine200 :: "string \<Rightarrow> bool" where
  "ReadCodeLine200 line \<longleftrightarrow>
     4 \<le> length line \<and> line ! 3 = CHR '' '' \<and> Atoi (take 3 line) = Some 200"

text \<open>\<open>dial tls addr\<close> says whether the connection can be made, \<open>first_line addr\<close> is the first
  line the server sends, if any arrives.\<close>

record net_env =
  dial :: "bool \<Rightarrow> string \<Rightarrow> bool"
  first_line :: "string \<Rightarrow> string option"

definition Transport :: "Client \<Rightarrow> Client" where
  "Transport c =
     (let u = (if url c = [] then (if ssl c then ''https://'' @ addr c else ''http://'' @ addr c)
               else url c)
      in c\<lparr>url := u, http_open := True\<rparr>)"

datatype connect_result = Connected | ConnectedNil | ConnectFailed cli_error

definition dial_socket :: "net_env \<Rightarrow> Client \<Rightarrow> Client \<times> bool" where
  "dial_socket N c =
     (let a = (if addr c = [] then (if ssl c then DefaultAddrTLSsocket else DefaultAddrTCPsocket)
               else addr c);
          c1 = c\<lparr>addr := a\<rparr>
      in if dial N (ssl c) a then (c1\<lparr>sock_open := True, tp_open := True\<rparr>, True)
         else (c1, False))"

definition finish_connect :: "net_env \<Rightarrow> Client \<Rightarrow> Client \<times> connect_result" where
  "finish_connect N c =
     (if tp_open c \<and> \<not> (case first_line N (addr c) of None \<Rightarrow> False | Some l \<Rightarrow> ReadCodeLine200 l)
      then (c, ConnectFailed BadWelcome)
      else if daemon c then (c, ConnectedNil)
      else (c, Connected))"

definition CliConnect :: "net_env \<Rightarrow> Client \<Rightarrow> Client \<times> connect_result" where
  "CliConnect N c =
     (if sock_open c \<or> http_open c then (c, Connected)
      else if cMode c = 1 then finish_connect N (Transport c)
      else if cMode c = 2 then
        (let (c1, ok) = dial_socket N c in
         if ok then finish_connect N c1 else (c1, ConnectFailed DialFailed))
      else finish_connect N c)"

subsection \<open>Registering clients\<close>

definition default_addr :: "Options \<Rightarrow> string" where
  "default_addr opts =
     (if oAddr opts \<noteq> [] then oAddr opts
      else if oMode opts = 1 then (if oSSL opts then DefaultAddrSSL else DefaultAddr)
      else if oMode opts = 2 then (if oSSL opts then DefaultAddrTLSsocket else DefaultAddrTCPsocket)
      else oAddr opts)"

definition new_client :: "Options \<Rightarrow> Client" where
  "new_client opts =
     \<lparr>cMode = oMode opts, cid = 0, addr = default_addr opts, url = [], ssl = oSSL opts,
      insecure = oSSLinsecure opts, auth = oAuth opts, daemon = oDaemon opts,
      runtest = oRunTest opts, http_open = False, sock_open = False, tp_open = False\<rparr>"

text \<open>The copying loop of \<open>expandSlice\<close>.\<close>

fun copy_clients :: "nat \<Rightarrow> 'c option list \<Rightarrow> 'c option list \<Rightarrow> 'c option list go" where
  "copy_clients i [] new = Inr new"
| "copy_clients i (None # cs) new = copy_clients (Suc i) cs new"
| "copy_clients i (Some c # cs) new =
     rbind (go_update new (int i) (Some c)) (\<lambda>new'. copy_clients (Suc i) cs new')"

definition expandSlice :: "CliHandler \<Rightarrow> CliHandler go" where
  "expandSlice h =
     (if slots h > hid h then Inr h
      else
        let newslots = slots h * 2 in
        rbind (copy_clients 0 (Clients h) (replicate (nat newslots) None)) (\<lambda>new.
          Inr (h\<lparr>Clients := new, slots := newslots\<rparr>)))"

text \<open>A daemon's connection is returned as a nil pointer, whose \<open>id\<close> \<open>NewCli\<close> then sets.\<close>

definition NewCli ::
    "net_env \<Rightarrow> Options \<Rightarrow> CliHandler \<Rightarrow> (CliHandler \<times> (cli_error + Client)) go" where
  "NewCli N opts h =
     (case CliConnect N (new_client opts) of
        (_, ConnectFailed e) \<Rightarrow> Inr (h, Inl e)
      | (_, ConnectedNil) \<Rightarrow> Inl NilDereference
      | (c, Connected) \<Rightarrow>
          let h1 = h\<lparr>hid := hid h + 1\<rparr>; c1 = c\<lparr>cid := hid h1\<rparr> in
          rbind (expandSlice h1) (\<lambda>h2.
          rbind (go_update (Clients h2) (hid h2) (Some c1)) (\<lambda>cs.
            Inr (h2\<lparr>Clients := cs\<rparr>, Inr c1))))"

subsection \<open>Socket requests\<close>

datatype sock_reply = WriteFailed | ReadFailed | Reply string

text \<open>\<open>string(b)\<close> of a byte is the UTF-8 encoding of the rune \<open>b\<close>.\<close>

definition byte_string :: "char \<Rightarrow> string" where
  "byte_string c =
     (let n = of_char c :: nat in
      if n < 128 then [c] else [char_of (192 + n div 64), char_of (128 + n mod 64)])"

definition set_request :: "string \<Rightarrow> string \<Rightarrow> string" where
  "set_request key val = MagicS @ ''|1'' @ CRLF @ key @ CRLF @ val @ CRLF @ ETB @ CRLF"

definition get_request :: "string \<Rightarrow> string" where
  "get_request key = MagicG @ ''|1'' @ CRLF @ key @ CRLF @ ETB @ CRLF"

definition del_request :: "string \<Rightarrow> string" where
  "del_request key = MagicD @ ''|1'' @ CRLF @ key @ CRLF @ ETB @ CRLF"

text \<open>The results are the error and the new contents of the variables behind the pointers;
  \<open>nfk = None\<close> is a nil pointer. A reply that is not an ACK is logged only.\<close>

definition SOCK_Set ::
    "(string \<Rightarrow> sock_reply) \<Rightarrow> Client \<Rightarrow> string \<Rightarrow> string \<Rightarrow> string \<Rightarrow> cli_error option \<times> string" where
  "SOCK_Set io c key val resp =
     (if \<not> tp_open c then (Some TpNil, resp)
      else case io (set_request key val) of
             WriteFailed \<Rightarrow> (Some IOFailed, resp)
           | ReadFailed \<Rightarrow> (Some IOFailed, resp)
           | Reply reply \<Rightarrow> if length reply = 0 then (Some EmptyReply, resp) else (None, reply))"

definition SOCK_Get ::
    "(string \<Rightarrow> sock_reply) \<Rightarrow> Client \<Rightarrow> string \<Rightarrow> string \<Rightarrow> string option \<Rightarrow> bool \<Rightarrow>
     cli_error option \<times> string \<times> string option \<times> bool" where
  "SOCK_Get io c key resp nfk found =
     (if \<not> tp_open c then (Some TpNil, resp, nfk, found)
      else case io (get_request key) of
             WriteFailed \<Rightarrow> (Some IOFailed, resp, nfk, found)
           | ReadFailed \<Rightarrow> (Some IOFailed, resp, nfk, found)
           | Reply reply \<Rightarrow>
               if length reply > 0 then
                 if byte_string (reply ! 0) = NUL \<and> nfk \<noteq> None \<and> length reply > 1 then
                   (None, resp, Some (drop 1 reply), False)
                 else (None, reply, nfk, True)
               else (None, resp, nfk, found))"

definition SOCK_Del ::
    "(string \<Rightarrow> sock_reply) \<Rightarrow> Client \<Rightarrow> string \<Rightarrow> string \<Rightarrow> string option \<Rightarrow>
     cli_error option \<times> string \<times> string option" where
  "SOCK_Del io c key resp nfk =
     (if \<not> tp_open c then (Some TpNil, resp, nfk)
      else case io (del_request key) of
             WriteFailed \<Rightarrow> (Some IOFailed, resp, nfk)
           | ReadFailed \<Rightarrow> (Some IOFailed, resp, nfk)
           | Reply reply \<Rightarrow>
               if length reply > 0 then
                 if byte_string (reply ! 0) = NUL \<and> nfk \<noteq> None \<and> length reply > 1 then
                   (None, resp, Some (drop 1 reply))
                 else (None, reply, nfk)
               else (None, resp, nfk))"

definition SOCK_GetMany :: "Client \<Rightarrow> string list \<Rightarrow> cli_error option" where
  "SOCK_GetMany c keys = (if \<not> tp_open c then Some TpNil else None)"

subsection \<open>HTTP requests\<close>

text \<open>The argument \<open>get u\<close> is what a GET of the URL \<open>u\<close> yields and \<open>post u b\<close> a POST; the
  default client of \<open>net/http\<close> does the POST. A GET through a nil client panics.\<close>

datatype http_reply = RequestFailed | BodyFailed | HttpBody string

definition HTTP_Get ::
    "(string \<Rightarrow> http_reply) \<Rightarrow> Client \<Rightarrow> string \<Rightarrow> string \<Rightarrow> bool \<Rightarrow>
     (cli_error option \<times> string \<times> bool) go" where
  "HTTP_Get get c key val found =
     (if \<not> http_open c then Inl NilDereference
      else case get (url c @ ''/get/'' @ key) of
             RequestFailed \<Rightarrow> Inr (Some IOFailed, val, found)
           | BodyFailed \<Rightarrow> Inr (Some IOFailed, val, found)
           | HttpBody body \<Rightarrow> Inr (None, body, if length body > 0 then True else found))"

definition json_pair :: "string \<Rightarrow> string \<Rightarrow> string" where
  "json_pair key value = ''{'' @ [CHR 0x22] @ key @ [CHR 0x22] @ '':'' @ [CHR 0x22] @ value @
     [CHR 0x22] @ ''}''"

definition HTTP_Set ::
    "(string \<Rightarrow> string \<Rightarrow> http_reply) \<Rightarrow> Client \<Rightarrow> string \<Rightarrow> string \<Rightarrow> string \<Rightarrow>
     cli_error option \<times> string" where
  "HTTP_Set post c key value resp =
     (if \<not> http_open c then (Some HttpNil, resp)
      else case post (url c @ ''/set'') (json_pair key value) of
             RequestFailed \<Rightarrow> (Some IOFailed, resp)
           | BodyFailed \<Rightarrow> (Some IOFailed, resp)
           | HttpBody body \<Rightarrow> (None, body))"

definition HTTP_Del ::
    "(string \<Rightarrow> http_reply) \<Rightarrow> Client \<Rightarrow> string \<Rightarrow> string \<Rightarrow> (cli_error option \<times> string) go" where
  "HTTP_Del get c key resp =
     (if \<not> http_open c then Inl NilDereference
      else case get (url c @ ''/del/'' @ key) of
             RequestFailed \<Rightarrow> Inr (Some IOFailed, resp)
           | BodyFailed \<Rightarrow> Inr (Some IOFailed, resp)
           | HttpBody body \<Rightarrow> Inr (None, body))"

subsection \<open>The registry keeps its clients\<close>

text \<open>Client \<open>i\<close> of a handler that has registered \<open>hid\<close> clients sits at index \<open>i\<close>, all other
  places are empty, and index 0 is never used.\<close>

definition handler_ok :: "CliHandler \<Rightarrow> bool" where
  "handler_ok h \<longleftrightarrow>
     0 \<le> hid h \<and> hid h < slots h \<and> slots h \<le> int (length (Clients h)) \<and>
     int (length (Clients h)) \<le> 2 * slots h \<and>
     (\<forall>i < length (Clients h).
        case Clients h ! i of
          None \<Rightarrow> i = 0 \<or> hid h < int i
        | Some c \<Rightarrow> 0 < i \<and> int i \<le> hid h \<and> cid c = int i)"

lemma handler_ok_New: "handler_ok NewCliHandler"
  by (auto simp: handler_ok_def NewCliHandler_def nth_Cons numeral_2_eq_2 split: nat.splits)

lemma copy_clients_spec:
  assumes "i + length cs \<le> length new"
  shows "\<exists>new'. copy_clients i cs new = Inr new' \<and> length new' = length new \<and>
     (\<forall>j < length new. new' ! j =
        (if i \<le> j \<and> j < i + length cs \<and> cs ! (j - i) \<noteq> None then cs ! (j - i) else new ! j))"
  using assms
proof (induction cs arbitrary: i new)
  case (Cons c cs)
  let ?new = "case c of None \<Rightarrow> new | Some _ \<Rightarrow> new[i := c]"
  have len: "length ?new = length new" by (simp split: option.split)
  have step: "copy_clients i (c # cs) new = copy_clients (Suc i) cs ?new"
    using Cons.prems by (cases c) simp_all
  have "Suc i + length cs \<le> length ?new" using Cons.prems len by simp
  from Cons.IH [OF this] obtain new' where new': "copy_clients (Suc i) cs ?new = Inr new'"
    "length new' = length new"
    "\<forall>j < length new. new' ! j = (if Suc i \<le> j \<and> j < Suc i + length cs \<and> cs ! (j - Suc i) \<noteq> None
       then cs ! (j - Suc i) else ?new ! j)"
    unfolding len by blast
  have "new' ! j = (if i \<le> j \<and> j < i + length (c # cs) \<and> (c # cs) ! (j - i) \<noteq> None
       then (c # cs) ! (j - i) else new ! j)" if "j < length new" for j
  proof (cases "j = i")
    case True
    then show ?thesis using new'(3) that by (cases c) auto
  next
    case False
    then have "?new ! j = new ! j" by (cases c) auto
    then show ?thesis using new'(3) that False by (cases "i < j") (auto simp: nth_Cons' Suc_diff_Suc)
  qed
  then show ?case using step new'(1,2) by auto
qed auto

lemma copy_clients_fresh:
  assumes "length cs \<le> n"
  shows "copy_clients 0 cs (replicate n None) = Inr (cs @ replicate (n - length cs) None)"
proof -
  obtain new' where n: "copy_clients 0 cs (replicate n None) = Inr new'" "length new' = n"
    "\<forall>j < n. new' ! j = (if j < length cs \<and> cs ! j \<noteq> None then cs ! j else None)"
    using copy_clients_spec [of 0 cs "replicate n None"] assms by auto
  have "new' = cs @ replicate (n - length cs) None"
    using n(2,3) assms by (intro nth_equalityI) (auto simp: nth_append)
  then show ?thesis using n(1) by simp
qed

lemma expandSlice_spec:
  assumes "0 < hid h" and "hid h \<le> slots h" and "int (length (Clients h)) \<le> 2 * slots h"
    and "slots h \<le> int (length (Clients h))"
  shows "\<exists>h' n. expandSlice h = Inr h' \<and> hid h' = hid h \<and> hid h < slots h' \<and>
     slots h' \<le> int (length (Clients h')) \<and> int (length (Clients h')) \<le> 2 * slots h' \<and>
     Clients h' = Clients h @ replicate n None"
proof (cases "slots h > hid h")
  case True
  then have "expandSlice h = Inr h \<and> Clients h = Clients h @ replicate 0 None"
    by (simp add: expandSlice_def)
  then show ?thesis using True assms by blast
next
  case False
  let ?n = "nat (slots h * 2) - length (Clients h)"
  have "length (Clients h) \<le> nat (slots h * 2)" using assms(3) by linarith
  then have "expandSlice h =
      Inr (h\<lparr>Clients := Clients h @ replicate ?n None, slots := slots h * 2\<rparr>)"
    using False by (simp add: expandSlice_def Let_def copy_clients_fresh)
  moreover have "int (length (Clients h @ replicate ?n None)) = 2 * slots h"
    using assms by simp
  ultimately show ?thesis using assms False
    by (intro exI [of _ "h\<lparr>Clients := Clients h @ replicate ?n None, slots := slots h * 2\<rparr>"]
        exI [of _ ?n]) simp
qed

lemma NewCli_spec:
  assumes "handler_ok h"
  shows "case CliConnect N (new_client opts) of
      (_, ConnectFailed e) \<Rightarrow> NewCli N opts h = Inr (h, Inl e)
    | (_, ConnectedNil) \<Rightarrow> NewCli N opts h = Inl NilDereference
    | (c, Connected) \<Rightarrow>
        \<exists>h'. NewCli N opts h = Inr (h', Inr (c\<lparr>cid := hid h + 1\<rparr>)) \<and> handler_ok h' \<and>
          hid h' = hid h + 1 \<and> Clients h' ! nat (hid h') = Some (c\<lparr>cid := hid h + 1\<rparr>) \<and>
          (\<forall>i < nat (hid h'). Clients h' ! i = Clients h ! i)"
proof -
  obtain c r where conn: "CliConnect N (new_client opts) = (c, r)" by fastforce
  show ?thesis
  proof (cases r)
    case Connected
    let ?h1 = "h\<lparr>hid := hid h + 1\<rparr>" and ?c = "c\<lparr>cid := hid h + 1\<rparr>"
    have h: "0 < hid ?h1" "hid ?h1 \<le> slots ?h1" "int (length (Clients ?h1)) \<le> 2 * slots ?h1"
      "slots ?h1 \<le> int (length (Clients ?h1))"
      using assms by (simp_all add: handler_ok_def)
    obtain h2 n where h2: "expandSlice ?h1 = Inr h2" "hid h2 = hid h + 1" "hid h + 1 < slots h2"
      "slots h2 \<le> int (length (Clients h2))" "int (length (Clients h2)) \<le> 2 * slots h2"
      "Clients h2 = Clients h @ replicate n None"
      using expandSlice_spec [OF h] by auto
    let ?i = "nat (hid h + 1)"
    let ?h3 = "h2\<lparr>Clients := (Clients h2)[?i := Some ?c]\<rparr>"
    have i: "?i < length (Clients h2)" "int ?i = hid h + 1" using h h2 by auto
    have "go_update (Clients h2) (hid h + 1) (Some ?c) = Inr ((Clients h2)[?i := Some ?c])"
      using go_update_ok [OF i(1), of "Some ?c"] unfolding i(2) .
    then have "NewCli N opts h = Inr (?h3, Inr ?c)"
      using conn Connected h2(1,2) by (simp add: NewCli_def Let_def)
    moreover have "handler_ok ?h3"
    proof -
      have "case Clients ?h3 ! j of None \<Rightarrow> j = 0 \<or> hid h + 1 < int j
          | Some d \<Rightarrow> 0 < j \<and> int j \<le> hid h + 1 \<and> cid d = int j" if "j < length (Clients h2)" for j
      proof (cases "j < length (Clients h)")
        case True
        then have "case Clients h ! j of None \<Rightarrow> j = 0 \<or> hid h < int j
            | Some d \<Rightarrow> 0 < j \<and> int j \<le> hid h \<and> cid d = int j"
          using assms by (simp add: handler_ok_def)
        moreover have "0 \<le> hid h" using assms by (simp add: handler_ok_def)
        ultimately show ?thesis using True that i
          by (cases "j = ?i") (auto simp: h2(6) nth_append split: option.splits)
      next
        case False
        then have "hid h < int j" "0 \<le> hid h" using assms by (simp_all add: handler_ok_def)
        then show ?thesis using False that i
          by (cases "j = ?i") (auto simp: h2(6) nth_append)
      qed
      moreover have hid3: "hid ?h3 = hid h + 1" by (simp add: h2(2))
      ultimately show ?thesis using h2 h(1) unfolding handler_ok_def hid3 by simp
    qed
    moreover have "Clients ?h3 ! j = Clients h ! j" if "j < ?i" for j
    proof -
      have "j < length (Clients h)" using that assms unfolding handler_ok_def by linarith
      then show ?thesis using that by (simp add: h2(6) nth_append)
    qed
    ultimately show ?thesis using conn Connected h2(2) i(1) by (auto simp: Let_def)
  qed (use conn in \<open>simp_all add: NewCli_def\<close>)
qed

end
