(* ===== verification/Logger.thy ===== *)
theory Logger
  imports GoPrelude
begin

text \<open>
  The logger, logger/logger.go: log levels, which messages are printed at which level, and the
  log file. Whether the file can be opened is a parameter; printing appends to the list of
  printed lines, and formatting the arguments is left to the caller. The writer of Go's standard
  logger, to which all messages go, is a field of the record too: the process has one of each.
\<close>

definition INFO :: int where "INFO = 0x1"
definition WARN :: int where "WARN = 0x2"
definition DEBUG :: int where "DEBUG = 0x3"

lemmas level_defs = INFO_def WARN_def DEBUG_def

text \<open>\<open>io.MultiWriter\<close> writes to all of its writers.\<close>

datatype writer = Stderr | Stdout | FileWriter string | MultiWriter "writer list"

record LOG =
  LogFile :: "string option"
  LOGLEVEL :: int
  printed :: "string list"
  log_output :: writer

definition log_Printf :: "string \<Rightarrow> LOG \<Rightarrow> LOG" where
  "log_Printf s l = l\<lparr>printed := printed l @ [s]\<rparr>"

definition IfDebug :: "LOG \<Rightarrow> bool" where
  "IfDebug l = (LOGLEVEL l = DEBUG)"

definition Info :: "string \<Rightarrow> LOG \<Rightarrow> LOG" where
  "Info msg l =
     (if LOGLEVEL l \<ge> INFO \<or> LOGLEVEL l = DEBUG then log_Printf (''[INFO] '' @ msg) l else l)"

definition Warn :: "string \<Rightarrow> LOG \<Rightarrow> LOG" where
  "Warn msg l = log_Printf (''[WARN] '' @ msg) l"

definition Error :: "string \<Rightarrow> LOG \<Rightarrow> LOG" where
  "Error msg l = log_Printf (''[ERROR] '' @ msg) l"

definition Debug :: "string \<Rightarrow> LOG \<Rightarrow> LOG" where
  "Debug msg l = (if LOGLEVEL l = DEBUG then log_Printf (''[DEBUG] '' @ msg) l else l)"

text \<open>\<open>log.Fatalf\<close> ends the process.\<close>

definition Fatal :: "string \<Rightarrow> LOG \<Rightarrow> LOG go" where
  "Fatal msg l = Inl ProcessExit"

text \<open>The line that \<open>GetLOGLEVEL\<close> prints for a known name goes to the package's default logger
  and is left out.\<close>

definition GetLOGLEVEL :: "string \<Rightarrow> int" where
  "GetLOGLEVEL loglvl =
     (if loglvl = ''INFO'' then INFO
      else if loglvl = ''WARN'' then WARN
      else if loglvl = ''DEBUG'' then DEBUG
      else - 1)"

definition GetEnvLOGLEVEL :: "(string \<Rightarrow> string option) \<Rightarrow> int" where
  "GetEnvLOGLEVEL LookupEnv =
     (case LookupEnv ''LOGLEVEL'' of Some logstr \<Rightarrow> GetLOGLEVEL logstr | None \<Rightarrow> INFO)"

text \<open>The method \<open>GetLOGLEVEL\<close>, which also prints.\<close>

definition LOG_GetLOGLEVEL :: "(int \<Rightarrow> string) \<Rightarrow> LOG \<Rightarrow> int \<times> LOG" where
  "LOG_GetLOGLEVEL fmt l = (let lvl = LOGLEVEL l in (lvl, Info (''LOGLEVEL='' @ fmt lvl) l))"

definition SetLOGLEVEL :: "(int \<Rightarrow> string) \<Rightarrow> int \<Rightarrow> LOG \<Rightarrow> LOG" where
  "SetLOGLEVEL fmt lvl l =
     log_Printf (''SetLOGLEVEL = '' @ fmt lvl)
       (Info (''SetLOGLEVEL LOGLEVEL='' @ fmt lvl) (l\<lparr>LOGLEVEL := lvl\<rparr>))"

definition SetOutput :: "writer \<Rightarrow> LOG \<Rightarrow> LOG" where
  "SetOutput w l = l\<lparr>log_output := w\<rparr>"

definition ConfigureFileAndConsoleOutput :: "LOG \<Rightarrow> LOG" where
  "ConfigureFileAndConsoleOutput l =
     (case LogFile l of
        None \<Rightarrow>
          log_Printf ''Could not ConfigureFileAndConsoleOutput: LogFile is nil'' (SetOutput Stdout l)
      | Some f \<Rightarrow> SetOutput (MultiWriter [Stdout, FileWriter f]) l)"

text \<open>\<open>open_ok\<close> says whether \<open>os.OpenFile\<close> succeeds; on failure the file stays nil.\<close>

definition LogStart :: "(string \<Rightarrow> bool) \<Rightarrow> string \<Rightarrow> LOG \<Rightarrow> LOG" where
  "LogStart open_ok filename l =
     (if LogFile l \<noteq> None then l
      else ConfigureFileAndConsoleOutput
        (l\<lparr>LogFile := if open_ok filename then Some filename else None\<rparr>))"

definition LogClose :: "LOG \<Rightarrow> LOG" where
  "LogClose l = (case LogFile l of None \<Rightarrow> l | Some _ \<Rightarrow> l\<lparr>LogFile := None\<rparr>)"

definition NewLogger :: "(string \<Rightarrow> bool) \<Rightarrow> int \<Rightarrow> string \<Rightarrow> LOG" where
  "NewLogger open_ok lvl logfile =
     (let l = \<lparr>LogFile = None, LOGLEVEL = lvl, printed = [], log_output = Stderr\<rparr> in
      if logfile \<noteq> [] then LogStart open_ok logfile l else l)"

lemma print_levels:
  "printed (Error m l) = printed l @ [''[ERROR] '' @ m]"
  "printed (Warn m l) = printed l @ [''[WARN] '' @ m]"
  "printed (Info m l) = printed l @ (if 1 \<le> LOGLEVEL l then [''[INFO] '' @ m] else [])"
  "printed (Debug m l) = printed l @ (if LOGLEVEL l = 3 then [''[DEBUG] '' @ m] else [])"
  by (auto simp: Error_def Warn_def Info_def Debug_def log_Printf_def level_defs)

text \<open>Where the messages go: a failed open falls back to the console, and closing the file leaves
  the standard logger with the closed file as one of its writers.\<close>

lemma NewLogger_output:
  "log_output (NewLogger open_ok lvl logfile) =
     (if logfile = [] then Stderr
      else if open_ok logfile then MultiWriter [Stdout, FileWriter logfile] else Stdout)"
  by (simp add: NewLogger_def LogStart_def ConfigureFileAndConsoleOutput_def SetOutput_def log_Printf_def)

lemma LogClose_keeps_writer:
  "log_output (LogClose l) = log_output l" "LogFile (LogClose l) = None"
  by (simp_all add: LogClose_def split: option.split)

lemma LogStart_once: "LogFile l = Some f \<Longrightarrow> LogStart open_ok filename l = l"
  by (simp add: LogStart_def)

end
