(* ===== verification/WebServer.thy ===== *)
theory WebServer
  imports XDick Logger
begin

text \<open>
  The HTTP handlers of server/ndb-server.go. A response is the status, the body and the headers
  set to nil. The router's path variables and the JSON decoder are the libraries' part: a
  handler gets the value of the path variable \<open>key\<close> and the decoder's result, the pairs of the
  object in the order in which the loop ranges over them, or \<open>None\<close> for its error.
\<close>

record response =
  status :: "int option"
  body :: string
  nil_headers :: "string list"

definition StatusOK :: int where "StatusOK = 200"
definition StatusCreated :: int where "StatusCreated = 201"
definition StatusMethodNotAllowed :: int where "StatusMethodNotAllowed = 405"
definition StatusNotAcceptable :: int where "StatusNotAcceptable = 406"
definition StatusGone :: int where "StatusGone = 410"
definition StatusInternalServerError :: int where "StatusInternalServerError = 500"

lemmas status_defs = StatusOK_def StatusCreated_def StatusMethodNotAllowed_def
  StatusNotAcceptable_def StatusGone_def StatusInternalServerError_def

definition fresh_response :: response where
  "fresh_response = \<lparr>status = None, body = [], nil_headers = []\<rparr>"

text \<open>Only the first status counts.\<close>

definition WriteHeader :: "int \<Rightarrow> response \<Rightarrow> response" where
  "WriteHeader code w = (if status w = None then w\<lparr>status := Some code\<rparr> else w)"

definition write_body :: "string \<Rightarrow> response \<Rightarrow> response" where
  "write_body s w = (WriteHeader StatusOK w)\<lparr>body := body w @ s\<rparr>"

definition nilheader :: "response \<Rightarrow> response" where
  "nilheader w = w\<lparr>nil_headers := nil_headers w @
     [''Date'', ''Content-Type'', ''Content-Length'', ''X-Content-Type-Options'',
      ''Transfer-Encoding'']\<rparr>"

definition HandlerGetValByKey ::
    "'a db_env_scheme \<Rightarrow> XDatabase \<Rightarrow> string \<Rightarrow> string \<Rightarrow> response \<Rightarrow> response go" where
  "HandlerGetValByKey E db meth key w0 =
     (let w = nilheader w0 in
      if meth \<noteq> ''GET'' then Inr (WriteHeader StatusMethodNotAllowed w)
      else if key = [] then Inr (WriteHeader StatusNotAcceptable w)
      else rbind (XDatabase_Get E db key) (\<lambda>val.
             case val of
               GoNil \<Rightarrow> Inr (WriteHeader StatusGone w)
             | GoString s \<Rightarrow> Inr (write_body s (WriteHeader StatusOK w))
             | _ \<Rightarrow> Inl TypeAssertionFailed))"

text \<open>The loop over the decoded object: the first failing insertion ends it.\<close>

fun set_pairs ::
    "'a db_env_scheme \<Rightarrow> XDatabase \<Rightarrow> (string \<times> go_value) list \<Rightarrow> (XDatabase \<times> bool) go" where
  "set_pairs E db [] = Inr (db, True)"
| "set_pairs E db ((k, v) # kvs) =
     rbind (XDatabase_Set E db k v) (\<lambda>(db', err).
       if err \<noteq> None then Inr (db', False) else set_pairs E db' kvs)"

definition HandlerSet ::
    "'a db_env_scheme \<Rightarrow> XDatabase \<Rightarrow> string \<Rightarrow> (string \<times> go_value) list option \<Rightarrow> response \<Rightarrow>
     (XDatabase \<times> response) go" where
  "HandlerSet E db meth decoded w0 =
     (let w = nilheader w0 in
      if meth \<noteq> ''POST'' then Inr (db, WriteHeader StatusMethodNotAllowed w)
      else case decoded of
             None \<Rightarrow> Inr (db, WriteHeader StatusNotAcceptable w)
           | Some data \<Rightarrow>
               rbind (set_pairs E db data) (\<lambda>(db', ok).
                 Inr (db', WriteHeader (if ok then StatusCreated else StatusInternalServerError) w)))"

definition HandlerDel ::
    "'a db_env_scheme \<Rightarrow> XDatabase \<Rightarrow> string \<Rightarrow> string \<Rightarrow> response \<Rightarrow> (XDatabase \<times> response) go" where
  "HandlerDel E db meth key w0 =
     (let w = nilheader w0 in
      if meth \<noteq> ''GET'' then Inr (db, WriteHeader StatusMethodNotAllowed w)
      else if key = [] then Inr (db, WriteHeader StatusNotAcceptable w)
      else rbind (XDatabase_Del E db key) (\<lambda>(db', err).
             Inr (db', WriteHeader (if err \<noteq> None then StatusInternalServerError else StatusOK) w)))"

text \<open>\<open>SetLogLvl\<close>, which no route reaches; an unknown name sets the level \<open>- 1\<close>.\<close>

definition SetLogLvl ::
    "(int \<Rightarrow> string) \<Rightarrow> LOG \<Rightarrow> string \<Rightarrow> string \<Rightarrow> response \<Rightarrow> LOG \<times> response" where
  "SetLogLvl fmt l meth key w =
     (if meth \<noteq> ''GET'' then (l, WriteHeader StatusMethodNotAllowed w)
      else if key = [] then (l, WriteHeader StatusNotAcceptable w)
      else (SetLOGLEVEL fmt (GetLOGLEVEL key) l, w))"

subsection \<open>Routes\<close>

datatype handler = RouteGet | RouteDel | RouteSet

text \<open>\<open>CreateMux\<close>: the patterns in the order of registration. A variable \<open>{key}\<close> of the router
  matches one non-empty path segment.\<close>

definition CreateMux :: "(string \<times> handler) list" where
  "CreateMux = [(''/get/{key}'', RouteGet), (''/del/{key}'', RouteDel), (''/set'', RouteSet)]"

definition dispatch ::
    "'a db_env_scheme \<Rightarrow> XDatabase \<Rightarrow> handler \<Rightarrow> string \<Rightarrow> string \<Rightarrow>
     (string \<times> go_value) list option \<Rightarrow> (XDatabase \<times> response) go" where
  "dispatch E db h meth key decoded =
     (case h of
        RouteGet \<Rightarrow>
          rbind (HandlerGetValByKey E db meth key fresh_response) (\<lambda>w. Inr (db, w))
      | RouteDel \<Rightarrow> HandlerDel E db meth key fresh_response
      | RouteSet \<Rightarrow> HandlerSet E db meth decoded fresh_response)"

subsection \<open>What the handlers do to the database\<close>

lemma set_pairs_spec:
  assumes "db_inv E db" and "db_count db + length kvs \<le> 2 ^ 61"
  shows "\<exists>db'. set_pairs E db kvs = Inr (db', True) \<and> db_inv E db' \<and>
     db_view db' = db_view db ++ map_of (rev kvs) \<and> db_count db' \<le> db_count db + length kvs"
  using assms
proof (induction kvs arbitrary: db)
  case (Cons p kvs)
  obtain k v where p: "p = (k, v)" by fastforce
  have "db_count db < 2 ^ 61" using Cons.prems(2) by simp
  from db.set_ok [OF Cons.prems(1) this, of k v] obtain db1 where
    db1: "XDatabase_Set E db k v = Inr (db1, None)" "db_inv E db1"
      "db_view db1 = (db_view db)(k \<mapsto> v)" "db_count db1 \<le> Suc (db_count db)" by blast
  have "db_count db1 + length kvs \<le> 2 ^ 61" using db1(4) Cons.prems(2) by simp
  from Cons.IH [OF db1(2) this] obtain db' where db': "set_pairs E db1 kvs = Inr (db', True)"
    "db_inv E db'" "db_view db' = db_view db1 ++ map_of (rev kvs)"
    "db_count db' \<le> db_count db1 + length kvs" by blast
  have "db_view db' = db_view db ++ map_of (rev (p # kvs))"
    unfolding db'(3) db1(3) p by simp
  moreover have "set_pairs E db (p # kvs) = Inr (db', True)"
    using db1(1) db'(1) by (simp add: p)
  moreover have "db_count db' \<le> db_count db + length (p # kvs)"
    using db'(4) db1(4) by simp
  ultimately show ?case using db'(2) by blast
qed simp

lemma HandlerSet_post:
  assumes "db_inv E db" and "db_count db + length kvs \<le> 2 ^ 61"
  shows "\<exists>db' w. HandlerSet E db ''POST'' (Some kvs) fresh_response = Inr (db', w) \<and>
     status w = Some 201 \<and> body w = [] \<and> db_inv E db' \<and> db_view db' = db_view db ++ map_of (rev kvs)"
  using set_pairs_spec [OF assms]
  by (auto simp: HandlerSet_def Let_def fresh_response_def nilheader_def WriteHeader_def status_defs)

lemma HandlerGetValByKey_get:
  assumes "db_inv E db" and "key \<noteq> []"
  shows "HandlerGetValByKey E db ''GET'' key fresh_response =
     (case db_view db key of
        None \<Rightarrow> Inr (WriteHeader 410 (nilheader fresh_response))
      | Some GoNil \<Rightarrow> Inr (WriteHeader 410 (nilheader fresh_response))
      | Some (GoString s) \<Rightarrow> Inr (write_body s (WriteHeader 200 (nilheader fresh_response)))
      | Some _ \<Rightarrow> Inl TypeAssertionFailed)"
  using db.get_ok [OF assms(1), of key] assms(2)
  by (auto simp: HandlerGetValByKey_def Let_def get_result_def status_defs
      split: option.splits go_value.splits)

lemma HandlerDel_get:
  assumes "db_inv E db" and "key \<noteq> []"
  shows "\<exists>db' w. HandlerDel E db ''GET'' key fresh_response = Inr (db', w) \<and>
     status w = Some (if db_view db key = None then 500 else 200) \<and> body w = [] \<and>
     db_inv E db' \<and> db_view db' = (db_view db)(key := None)"
  using db.del_ok [OF assms(1), of key] assms(2)
  by (auto simp: HandlerDel_def Let_def fresh_response_def nilheader_def WriteHeader_def status_defs)

end
