(* ===== verification/Constants.thy ===== *)
theory Constants
  imports GoPrelude
begin

text \<open>
  The configuration part of server/constants.go: the keys under which the configuration library
  keeps the settings, their default values, and the permitted numbers of shards.
\<close>

subsection \<open>Defaults\<close>

definition AVAIL_SUBDICKS :: "uint32 list" where
  "AVAIL_SUBDICKS = [10, 100, 1000, 10000, 100000, 1000000, 10000000, 100000000, 1000000000,
     2000000000, 4000000000]"

definition DEFAULT_PW_LEN :: int where "DEFAULT_PW_LEN = 32"
definition DEFAULT_SUPERADMIN :: string where "DEFAULT_SUPERADMIN = ''superadmin''"
definition DEFAULT_CONFIG_FILE :: string where "DEFAULT_CONFIG_FILE = ''config.toml''"
definition DATA_DIR :: string where "DATA_DIR = ''dat''"
definition CONFIG_DIR :: string where "CONFIG_DIR = ''cfg''"
definition DEFAULT_LOGS_FILE :: string where "DEFAULT_LOGS_FILE = ''ndb.log''"
definition DEFAULT_LOGLEVEL_STR :: string where "DEFAULT_LOGLEVEL_STR = ''INFO''"
definition DEFAULT_SERVER_ADDR :: string where "DEFAULT_SERVER_ADDR = ''[::1]''"
definition DEFAULT_SERVER_TCP_PORT :: string where "DEFAULT_SERVER_TCP_PORT = ''2420''"
definition DEFAULT_SERVER_UDP_PORT :: string where "DEFAULT_SERVER_UDP_PORT = ''2240''"
definition DEFAULT_SERVER_SOCKET_PATH :: string where
  "DEFAULT_SERVER_SOCKET_PATH = ''/tmp/ndb.socket''"
definition DEFAULT_SERVER_SOCKET_TCP_PORT :: string where
  "DEFAULT_SERVER_SOCKET_TCP_PORT = ''3420''"
definition DEFAULT_SERVER_SOCKET_TLS_PORT :: string where
  "DEFAULT_SERVER_SOCKET_TLS_PORT = ''4420''"
definition DEFAULT_TLS_PRIVKEY :: string where "DEFAULT_TLS_PRIVKEY = ''privkey.pem''"
definition DEFAULT_TLS_PUBCERT :: string where "DEFAULT_TLS_PUBCERT = ''fullchain.pem''"
definition DOT :: string where "DOT = ''.''"
definition V_DEFAULT_SUB_DICKS :: string where "V_DEFAULT_SUB_DICKS = ''100''"
definition V_DEFAULT_TLS_ENABLED :: bool where "V_DEFAULT_TLS_ENABLED = False"
definition V_DEFAULT_NET_WEBSRV_READ_TIMEOUT :: int where "V_DEFAULT_NET_WEBSRV_READ_TIMEOUT = 5"
definition V_DEFAULT_NET_WEBSRV_WRITE_TIMEOUT :: int where "V_DEFAULT_NET_WEBSRV_WRITE_TIMEOUT = 10"
definition V_DEFAULT_NET_WEBSRV_IDLE_TIMEOUT :: int where "V_DEFAULT_NET_WEBSRV_IDLE_TIMEOUT = 120"
definition V_DEFAULT_SERVER_SOCKET_ACL :: string where
  "V_DEFAULT_SERVER_SOCKET_ACL = ''127.0.0.1,::1''"

subsection \<open>Keys\<close>

definition VK_ACCESS_SUPERADMIN_USER :: string where
  "VK_ACCESS_SUPERADMIN_USER = ''server.superadmin_user''"
definition VK_ACCESS_SUPERADMIN_PASS :: string where
  "VK_ACCESS_SUPERADMIN_PASS = ''server.superadmin_pass''"
definition VK_LOG_LOGLEVEL :: string where "VK_LOG_LOGLEVEL = ''log.loglevel''"
definition VK_LOG_LOGFILE :: string where "VK_LOG_LOGFILE = ''log.logfile''"
definition VK_SETTINGS_BASE_DIR :: string where "VK_SETTINGS_BASE_DIR = ''settings.base_dir''"
definition VK_SETTINGS_DATA_DIR :: string where "VK_SETTINGS_DATA_DIR = ''settings.data_dir''"
definition VK_SETTINGS_SETTINGS_DIR :: string where
  "VK_SETTINGS_SETTINGS_DIR = ''settings.settings_dir''"
definition VK_SETTINGS_SUB_DICKS :: string where "VK_SETTINGS_SUB_DICKS = ''settings.sub_dicks''"
definition VK_SEC_TLS_ENABLED :: string where "VK_SEC_TLS_ENABLED = ''security.tls_enabled''"
definition VK_SEC_TLS_PRIVKEY :: string where "VK_SEC_TLS_PRIVKEY = ''security.tls_priv_key''"
definition VK_SEC_TLS_PUBCERT :: string where "VK_SEC_TLS_PUBCERT = ''security.tls_pub_cert''"
definition VK_NET_WEBSRV_READ_TIMEOUT :: string where
  "VK_NET_WEBSRV_READ_TIMEOUT = ''network.websrv_read_timeout''"
definition VK_NET_WEBSRV_WRITE_TIMEOUT :: string where
  "VK_NET_WEBSRV_WRITE_TIMEOUT = ''network.websrv_write_timeout''"
definition VK_NET_WEBSRV_IDLE_TIMEOUT :: string where
  "VK_NET_WEBSRV_IDLE_TIMEOUT = ''network.websrv_idle_timeout''"
definition VK_SERVER_HOST :: string where "VK_SERVER_HOST = ''server.bindip''"
definition VK_SERVER_PORT_TCP :: string where "VK_SERVER_PORT_TCP = ''server.port''"
definition VK_SERVER_PORT_UDP :: string where "VK_SERVER_PORT_UDP = ''server.port_udp''"
definition VK_SERVER_SOCKET_PATH :: string where "VK_SERVER_SOCKET_PATH = ''server.socket_path''"
definition VK_SERVER_SOCKET_PORT_TCP :: string where
  "VK_SERVER_SOCKET_PORT_TCP = ''server.socket_tcpport''"
definition VK_SERVER_SOCKET_PORT_TLS :: string where
  "VK_SERVER_SOCKET_PORT_TLS = ''server.socket_tlsport''"
definition VK_SERVER_SOCKET_ACL :: string where "VK_SERVER_SOCKET_ACL = ''server.socket_acl''"

lemmas conf_keys =
  VK_ACCESS_SUPERADMIN_USER_def VK_ACCESS_SUPERADMIN_PASS_def VK_LOG_LOGLEVEL_def
  VK_LOG_LOGFILE_def VK_SETTINGS_BASE_DIR_def VK_SETTINGS_DATA_DIR_def
  VK_SETTINGS_SETTINGS_DIR_def VK_SETTINGS_SUB_DICKS_def VK_SEC_TLS_ENABLED_def
  VK_SEC_TLS_PRIVKEY_def VK_SEC_TLS_PUBCERT_def VK_NET_WEBSRV_READ_TIMEOUT_def
  VK_NET_WEBSRV_WRITE_TIMEOUT_def VK_NET_WEBSRV_IDLE_TIMEOUT_def VK_SERVER_HOST_def
  VK_SERVER_PORT_TCP_def VK_SERVER_PORT_UDP_def VK_SERVER_SOCKET_PATH_def
  VK_SERVER_SOCKET_PORT_TCP_def VK_SERVER_SOCKET_PORT_TLS_def VK_SERVER_SOCKET_ACL_def

end
