(* ===== verification/Config.thy ===== *)
theory Config
  imports XDick Utils Logger Constants
begin

text \<open>
  The configuration, server/configuration.go with the tables of server/constants.go, and the
  start of the server in main.go and server/factory.go as far as it decides the state of the
  database. The library \<open>viper\<close> is a parameter: a definition that changes it yields the calls
  it makes, a definition that asks it takes the answers as arguments.
\<close>

subsection \<open>Tables\<close>

datatype conf_value = CStr string | CBool bool | CInt int

text \<open>\<open>mapEnvsToConf\<close>: the configuration keys and the environment variables that override them.\<close>

definition mapEnvsToConf :: "(string \<times> string) list" where
  "mapEnvsToConf =
     [(VK_ACCESS_SUPERADMIN_USER, ''NDB_SUPERADMIN''),
      (VK_ACCESS_SUPERADMIN_PASS, ''NDB_SADMINPASS''),
      (VK_LOG_LOGLEVEL, ''LOGLEVEL''),
      (VK_LOG_LOGFILE, ''LOGS_FILE''),
      (VK_SETTINGS_BASE_DIR, ''NDB_BASE_DIR''),
      (VK_SETTINGS_DATA_DIR, ''NDB_DATA_DIR''),
      (VK_SETTINGS_SETTINGS_DIR, ''NDB_CONFIG_DIR''),
      (VK_SETTINGS_SUB_DICKS, ''NDB_SUB_DICKS''),
      (VK_SEC_TLS_ENABLED, ''NDB_TLS_ENABLED''),
      (VK_SEC_TLS_PRIVKEY, ''NDB_TLS_KEY''),
      (VK_SEC_TLS_PUBCERT, ''NDB_TLS_CRT''),
      (VK_NET_WEBSRV_READ_TIMEOUT, ''NDB_WEBSRV_READ_TIMEOUT''),
      (VK_NET_WEBSRV_WRITE_TIMEOUT, ''NDB_WEBSRV_WRITE_TIMEOUT''),
      (VK_NET_WEBSRV_IDLE_TIMEOUT, ''NDB_WEBSRV_IDLE_TIMEOUT''),
      (VK_SERVER_HOST, ''NDB_HOST''),
      (VK_SERVER_PORT_TCP, ''NDB_PORT''),
      (VK_SERVER_PORT_UDP, ''SERVER_UDP_PORT''),
      (VK_SERVER_SOCKET_PATH, ''SERVER_SOCKET_PATH''),
      (VK_SERVER_SOCKET_PORT_TCP, ''SERVER_SOCKET_TCP_PORT''),
      (VK_SERVER_SOCKET_PORT_TLS, ''SERVER_SOCKET_TLS_PORT''),
      (VK_SERVER_SOCKET_ACL, ''SERVER_SOCKET_ACL'')]"

text \<open>The \<open>SetDefault\<close> calls of \<open>createDefaultConfigFile\<close>; \<open>join\<close> is \<open>filepath.Join\<close>.\<close>

definition default_settings ::
    "(string \<Rightarrow> string \<Rightarrow> string) \<Rightarrow> string \<Rightarrow> (string \<times> conf_value) list" where
  "default_settings join suadminpass =
     [(VK_ACCESS_SUPERADMIN_USER, CStr DEFAULT_SUPERADMIN),
      (VK_ACCESS_SUPERADMIN_PASS, CStr suadminpass),
      (VK_LOG_LOGLEVEL, CStr DEFAULT_LOGLEVEL_STR),
      (VK_LOG_LOGFILE, CStr DEFAULT_LOGS_FILE),
      (VK_SETTINGS_BASE_DIR, CStr DOT),
      (VK_SETTINGS_DATA_DIR, CStr DATA_DIR),
      (VK_SETTINGS_SETTINGS_DIR, CStr CONFIG_DIR),
      (VK_SETTINGS_SUB_DICKS, CStr V_DEFAULT_SUB_DICKS),
      (VK_SEC_TLS_ENABLED, CBool V_DEFAULT_TLS_ENABLED),
      (VK_SEC_TLS_PRIVKEY, CStr (join CONFIG_DIR DEFAULT_TLS_PUBCERT)),
      (VK_SEC_TLS_PUBCERT, CStr (join CONFIG_DIR DEFAULT_TLS_PRIVKEY)),
      (VK_NET_WEBSRV_READ_TIMEOUT, CInt V_DEFAULT_NET_WEBSRV_READ_TIMEOUT),
      (VK_NET_WEBSRV_WRITE_TIMEOUT, CInt V_DEFAULT_NET_WEBSRV_WRITE_TIMEOUT),
      (VK_NET_WEBSRV_IDLE_TIMEOUT, CInt V_DEFAULT_NET_WEBSRV_IDLE_TIMEOUT),
      (VK_SERVER_HOST, CStr DEFAULT_SERVER_ADDR),
      (VK_SERVER_PORT_TCP, CStr DEFAULT_SERVER_TCP_PORT),
      (VK_SERVER_PORT_UDP, CStr DEFAULT_SERVER_UDP_PORT),
      (VK_SERVER_SOCKET_PATH, CStr DEFAULT_SERVER_SOCKET_PATH),
      (VK_SERVER_SOCKET_PORT_TCP, CStr DEFAULT_SERVER_SOCKET_TCP_PORT),
      (VK_SERVER_SOCKET_PORT_TLS, CStr DEFAULT_SERVER_SOCKET_TLS_PORT),
      (VK_SERVER_SOCKET_ACL, CStr V_DEFAULT_SERVER_SOCKET_ACL)]"

definition createDefaultConfigFile ::
    "(nat \<Rightarrow> int) \<Rightarrow> (string \<Rightarrow> string \<Rightarrow> string) \<Rightarrow> (string \<times> conf_value) list go" where
  "createDefaultConfigFile rnd join =
     rbind (GenerateRandomString rnd DEFAULT_PW_LEN) (\<lambda>pass. Inr (default_settings join pass))"

subsection \<open>The environment\<close>

text \<open>The \<open>Set\<close> calls of \<open>ReadConfigsFromEnvs\<close> and the log level it leaves; the loop ranges
  over the map in any order, here that of the list.\<close>

fun read_envs ::
    "(string \<Rightarrow> string option) \<Rightarrow> (string \<Rightarrow> string) \<Rightarrow> (string \<times> string) list \<Rightarrow> int \<Rightarrow>
     (string \<times> string) list \<times> int" where
  "read_envs LookupEnv ToUpper [] lvl = ([], lvl)"
| "read_envs LookupEnv ToUpper ((key, envK) # m) lvl =
     (case LookupEnv envK of
        None \<Rightarrow> read_envs LookupEnv ToUpper m lvl
      | Some v \<Rightarrow>
          (let v' = (if envK = ''LOGLEVEL'' then ToUpper v else v);
               lvl' = (if envK = ''LOGLEVEL'' then GetLOGLEVEL v' else lvl);
               (calls, lvl'') = read_envs LookupEnv ToUpper m lvl'
           in ((key, v') # calls, lvl'')))"

definition ReadConfigsFromEnvs ::
    "(string \<Rightarrow> string option) \<Rightarrow> (string \<Rightarrow> string) \<Rightarrow> int \<Rightarrow> (string \<times> string) list \<times> int" where
  "ReadConfigsFromEnvs LookupEnv ToUpper lvl = read_envs LookupEnv ToUpper mapEnvsToConf lvl"

subsection \<open>Number of shards and timeouts\<close>

text \<open>The package variables of the web server's timeouts, and what \<open>initDB\<close> does outside.\<close>

record conf_state =
  RTO :: int
  WTO :: int
  ITO :: int
  env_base_dir :: "string option"
  made_dirs :: "string list"

definition initDB ::
    "string option \<Rightarrow> (string \<Rightarrow> string \<Rightarrow> string) \<Rightarrow> (string \<Rightarrow> string) \<Rightarrow> (string \<Rightarrow> uint32) \<Rightarrow>
     (string \<Rightarrow> int) \<Rightarrow> conf_state \<Rightarrow> (conf_state \<times> uint32) go" where
  "initDB cwd join GetString GetUint32 GetInt st =
     (case cwd of
        None \<Rightarrow> Inl ProcessExit
      | Some dbBaseDir \<Rightarrow>
          (let st1 = st\<lparr>env_base_dir := Some dbBaseDir,
                        made_dirs := made_dirs st @
                          [join dbBaseDir CONFIG_DIR, join dbBaseDir (GetString VK_SETTINGS_DATA_DIR)]\<rparr>;
               setSUBDICKS = GetUint32 VK_SETTINGS_SUB_DICKS
           in if setSUBDICKS \<in> set AVAIL_SUBDICKS then Inr (st1, setSUBDICKS)
              else Inr (st1\<lparr>RTO := GetInt VK_NET_WEBSRV_READ_TIMEOUT,
                            WTO := GetInt VK_NET_WEBSRV_WRITE_TIMEOUT,
                            ITO := GetInt VK_NET_WEBSRV_IDLE_TIMEOUT\<rparr>, 1000)))"

subsection \<open>Start of the server\<close>

text \<open>The part of \<open>main\<close> for the mode flag: the hash mode, the database, and the salt for
  sipHash, drawn with the random numbers \<open>rs\<close>. Mode 0 starts nothing.\<close>

definition boot_database ::
    "int \<Rightarrow> int \<Rightarrow> nat list \<Rightarrow> int \<Rightarrow> uint32 \<Rightarrow> salt_state \<times> 'a db_env_scheme \<Rightarrow>
     ((salt_state \<times> 'a db_env_scheme) \<times> XDatabase option) go" where
  "boot_database flag_mode flag_hashmode rs now sub_dicks p =
     (if flag_mode = 0 then Inr (p, None)
      else if flag_mode = 1 then
        (let E1 = (snd p)\<lparr>HASHER := flag_hashmode\<rparr>;
             db = NewDICK now sub_dicks;
             p1 = (if HASHER E1 = HASH_siphash then generateSALT rs (fst p, E1) else (fst p, E1))
         in Inr (p1, Some db))
      else Inl ProcessExit)"

lemma AVAIL_nonzero: "n \<in> set AVAIL_SUBDICKS \<Longrightarrow> n \<noteq> 0"
  by (auto simp: AVAIL_SUBDICKS_def)

lemma initDB_cases:
  assumes "initDB (Some cwd) join gs gu gi st = Inr (st', n)"
  shows "n \<in> set AVAIL_SUBDICKS"
    and "n = (if gu VK_SETTINGS_SUB_DICKS \<in> set AVAIL_SUBDICKS then gu VK_SETTINGS_SUB_DICKS
              else 1000)"
  using assms by (auto simp: initDB_def Let_def AVAIL_SUBDICKS_def split: if_splits)

lemma generateSALT_env:
  "env_ok (snd (generateSALT rs (st, E))) = env_ok E"
  by (simp add: generateSALT_def env_ok_def hasher_ok_def Let_def split: prod.splits)

end
