(* ===== verification/Acl.thy ===== *)
theory Acl
  imports Utils
begin

text \<open>
  The access control list of the TCP and TLS sockets, the last part of server/socket.go: which
  remote addresses may connect. \<open>DefaultACL\<close>, which a program can set before booting, is a
  map that the list then shares.
\<close>

record AccessControlList =
  acl_map :: "(string \<rightharpoonup> bool) option"

definition SetupACL ::
    "(string \<rightharpoonup> bool) option \<Rightarrow> AccessControlList \<Rightarrow> AccessControlList" where
  "SetupACL DefaultACL a =
     (if acl_map a \<noteq> None then a
      else if DefaultACL \<noteq> None then a\<lparr>acl_map := DefaultACL\<rparr>
      else a\<lparr>acl_map := Some Map.empty\<rparr>)"

definition NewACL :: "(string \<rightharpoonup> bool) option \<Rightarrow> AccessControlList" where
  "NewACL DefaultACL = SetupACL DefaultACL \<lparr>acl_map = None\<rparr>"

text \<open>A lookup in a nil map, or of a missing key, is \<open>false\<close>; storing into a nil map panics,
  deleting from it does nothing.\<close>

definition IsAllowed :: "AccessControlList \<Rightarrow> string \<Rightarrow> bool" where
  "IsAllowed a ip =
     (case acl_map a of None \<Rightarrow> False
      | Some m \<Rightarrow> (case m ip of None \<Rightarrow> False | Some b \<Rightarrow> b))"

definition SetACL :: "string \<Rightarrow> bool \<Rightarrow> AccessControlList \<Rightarrow> AccessControlList go" where
  "SetACL ip val a =
     (if \<not> val then Inr (a\<lparr>acl_map := map_option (\<lambda>m. m(ip := None)) (acl_map a)\<rparr>)
      else case acl_map a of
             None \<Rightarrow> Inl NilMapWrite
           | Some m \<Rightarrow> Inr (a\<lparr>acl_map := Some (m(ip \<mapsto> val))\<rparr>))"

fun SetACL_all :: "string list \<Rightarrow> AccessControlList \<Rightarrow> AccessControlList go" where
  "SetACL_all [] a = Inr a"
| "SetACL_all (ip # ips) a = rbind (SetACL ip True a) (SetACL_all ips)"

text \<open>The list that \<open>NewSocketHandler\<close> builds from the configured addresses.\<close>

definition handler_acl :: "(string \<rightharpoonup> bool) option \<Rightarrow> string \<Rightarrow> AccessControlList go" where
  "handler_acl DefaultACL iplist =
     (if iplist \<noteq> [] then SetACL_all (strings_Split iplist '','') (NewACL DefaultACL)
      else Inr (NewACL DefaultACL))"

text \<open>The remote address of a connection: the IP of a TCP address, else the text \<open>x\<close>; a failed
  \<open>Accept\<close> leaves a nil connection, whose address the listeners read first.\<close>

datatype conn_addr = TCPAddr string | OtherAddr | NilConn

definition getRemoteIP :: "conn_addr \<Rightarrow> string go" where
  "getRemoteIP conn =
     (case conn of TCPAddr ip \<Rightarrow> Inr ip | OtherAddr \<Rightarrow> Inr ''x'' | NilConn \<Rightarrow> Inl NilDereference)"

definition checkACL :: "AccessControlList \<Rightarrow> conn_addr \<Rightarrow> bool go" where
  "checkACL a conn = rbind (getRemoteIP conn) (\<lambda>ip. Inr (IsAllowed a ip))"

text \<open>One turn of the accept loops of the TCP and TLS listeners: \<open>ok\<close> is whether \<open>Accept\<close>
  succeeded, \<open>closed\<close> whether its error is \<open>net.ErrClosed\<close>.\<close>

datatype accept_action = ListenerEnds | AcceptAgain | RejectConn | ServeConn string

definition accept_step ::
    "AccessControlList \<Rightarrow> bool \<Rightarrow> bool \<Rightarrow> conn_addr \<Rightarrow> accept_action go" where
  "accept_step a ok closed conn =
     rbind (getRemoteIP conn) (\<lambda>raddr.
       if \<not> ok then Inr (if closed then ListenerEnds else AcceptAgain)
       else rbind (checkACL a conn) (\<lambda>allowed.
              Inr (if \<not> allowed then RejectConn else ServeConn raddr)))"

lemma SetACL_all_spec:
  "acl_map a = Some m \<Longrightarrow>
   SetACL_all ips a = Inr (a\<lparr>acl_map := Some (\<lambda>ip. if ip \<in> set ips then Some True else m ip)\<rparr>)"
proof (induction ips arbitrary: a m)
  case (Cons ip ips)
  let ?a = "a\<lparr>acl_map := Some (m(ip \<mapsto> True))\<rparr>"
  have "SetACL_all (ip # ips) a = SetACL_all ips ?a"
    using Cons.prems by (simp add: SetACL_def)
  also have "\<dots> = Inr (?a\<lparr>acl_map :=
      Some (\<lambda>x. if x \<in> set ips then Some True else (m(ip \<mapsto> True)) x)\<rparr>)"
    by (rule Cons.IH) (simp add: fun_upd_def)
  also have "(\<lambda>x. if x \<in> set ips then Some True else (m(ip \<mapsto> True)) x) =
      (\<lambda>x. if x \<in> set (ip # ips) then Some True else m x)" by (rule ext) auto
  finally show ?case by (simp add: fun_upd_def)
qed (simp add: fun_upd_def)

lemma handler_acl_spec:
  assumes "DefaultACL = None"
  shows "\<exists>a. handler_acl DefaultACL iplist = Inr a \<and>
     (\<forall>ip. IsAllowed a ip \<longleftrightarrow> iplist \<noteq> [] \<and> ip \<in> set (strings_Split iplist '',''))"
  using SetACL_all_spec [of "NewACL None" Map.empty "strings_Split iplist '',''"] assms
  by (auto simp: handler_acl_def NewACL_def SetupACL_def IsAllowed_def split: if_splits)

subsection \<open>The listeners\<close>

record socket_conf =
  conf_host :: string
  conf_tcpport :: string
  conf_tlsport :: string
  conf_socket_path :: string
  conf_acl :: string
  conf_tls_enabled :: bool

datatype listener = UnixListener string | TCPListener string | TLSListener string

text \<open>The listeners that \<open>Start\<close> brings up for what \<open>NewSocketHandler\<close> passes to it; each
  runs in a goroutine of its own. The parameter \<open>ok\<close> says whether listening (for TLS: loading
  the key pair and listening) succeeds; where it fails the process ends.\<close>

definition Start ::
    "(listener \<Rightarrow> bool) \<Rightarrow> string \<Rightarrow> string \<Rightarrow> string \<Rightarrow> bool \<Rightarrow> listener list go" where
  "Start ok tcpListen tlsListen socketPath tlsenabled =
     (let ls = (if socketPath = [] then [] else [UnixListener socketPath]) @
               (if tcpListen = [] then [] else [TCPListener tcpListen]) @
               (if tlsListen = [] \<or> \<not> tlsenabled then [] else [TLSListener tlsListen])
      in if list_all ok ls then Inr ls else Inl ProcessExit)"

definition NewSocketHandler ::
    "(string \<rightharpoonup> bool) option \<Rightarrow> (listener \<Rightarrow> bool) \<Rightarrow> socket_conf \<Rightarrow>
     (AccessControlList \<times> listener list) go" where
  "NewSocketHandler DefaultACL ok cfg =
     (let tcpListen = conf_host cfg @ '':'' @ conf_tcpport cfg;
          tlsListen = conf_host cfg @ '':'' @ conf_tlsport cfg
      in rbind (handler_acl DefaultACL (conf_acl cfg)) (\<lambda>a.
         rbind (Start ok tcpListen tlsListen (conf_socket_path cfg) (conf_tls_enabled cfg)) (\<lambda>ls.
           Inr (a, ls))))"

text \<open>An accept loop consumes what successive calls of \<open>Accept\<close> return and yields the
  connections it hands to \<open>handleSocketConn\<close>: their number, remote address, and whether they
  came over the unix socket, which knows neither list nor address.\<close>

record accepted =
  acc_ok :: bool
  acc_closed :: bool
  acc_conn :: conn_addr

fun accept_loop ::
    "AccessControlList \<Rightarrow> nat \<Rightarrow> accepted list \<Rightarrow> (nat \<times> string \<times> bool) list go" where
  "accept_loop a cid [] = Inr []"
| "accept_loop a cid (x # xs) =
     rbind (accept_step a (acc_ok x) (acc_closed x) (acc_conn x)) (\<lambda>act.
       case act of
         ListenerEnds \<Rightarrow> Inr []
       | AcceptAgain \<Rightarrow> accept_loop a cid xs
       | RejectConn \<Rightarrow> accept_loop a cid xs
       | ServeConn raddr \<Rightarrow>
           rbind (accept_loop a (cid + 1) xs) (\<lambda>cs. Inr ((cid + 1, raddr, False) # cs)))"

fun unix_accept_loop :: "nat \<Rightarrow> accepted list \<Rightarrow> (nat \<times> string \<times> bool) list" where
  "unix_accept_loop cid [] = []"
| "unix_accept_loop cid (x # xs) =
     (if \<not> acc_ok x then (if acc_closed x then [] else unix_accept_loop cid xs)
      else (cid + 1, [], True) # unix_accept_loop (cid + 1) xs)"

lemma accept_loop_acl:
  "accept_loop a n xs = Inr cs \<Longrightarrow>
   (\<forall>(i, raddr, socket) \<in> set cs. IsAllowed a raddr \<and> \<not> socket \<and> n < i) \<and>
   sorted_wrt (<) (map fst cs)"
proof (induction xs arbitrary: n cs)
  case (Cons x xs)
  obtain act where act: "accept_step a (acc_ok x) (acc_closed x) (acc_conn x) = Inr act"
    using Cons.prems by (cases "accept_step a (acc_ok x) (acc_closed x) (acc_conn x)") auto
  show ?case
  proof (cases act)
    case (ServeConn raddr)
    then have "IsAllowed a raddr"
      using act by (auto simp: accept_step_def checkACL_def rbind_eq_Inr split: if_splits)
    moreover obtain cs' where "accept_loop a (n + 1) xs = Inr cs'" "cs = (n + 1, raddr, False) # cs'"
      using Cons.prems act ServeConn by (auto simp: rbind_eq_Inr)
    ultimately show ?thesis using Cons.IH [of "n + 1" cs'] by (auto simp: Suc_lessD)
  qed (use Cons act in auto)
qed simp

end
