(* ===== verification/EndToEnd.thy ===== *)
theory EndToEnd
  imports SessionExchange Client WebServer Config Acl
begin

text \<open>
  Client library and server together: a request of clilib travels as bytes to the handler of a
  session, whose output is what the client reads; and the HTTP requests of clilib meet the HTTP
  handlers. Also a concrete environment, on which the properties' hypotheses are met.
\<close>

subsection \<open>A socket client and its session\<close>

text \<open>The session reads the lines of the request; the client reads the first line of what the
  session has written since.\<close>

definition serve_request ::
    "'a sock_env_scheme \<Rightarrow> sock_state \<Rightarrow> string \<Rightarrow> (sock_reply \<times> sock_state) go" where
  "serve_request E st req =
     rbind (readlines_loop E False (read_lines req) st) (\<lambda>(_, st').
       Inr (case read_lines (drop (length (sent st)) (sent st')) of
              [] \<Rightarrow> ReadFailed
            | l # _ \<Rightarrow> Reply l, st'))"

text \<open>A client's pointer arguments start as the empty string, a nil \<open>nfk\<close> and \<open>false\<close>.\<close>

definition client_set ::
    "'a sock_env_scheme \<Rightarrow> Client \<Rightarrow> sock_state \<Rightarrow> string \<Rightarrow> string \<Rightarrow>
     ((cli_error option \<times> string) \<times> sock_state) go" where
  "client_set E c st k v =
     rbind (serve_request E st (set_request k v)) (\<lambda>(r, st').
       Inr (SOCK_Set (\<lambda>_. r) c k v [], st'))"

definition client_get ::
    "'a sock_env_scheme \<Rightarrow> Client \<Rightarrow> sock_state \<Rightarrow> string \<Rightarrow>
     ((cli_error option \<times> string \<times> string option \<times> bool) \<times> sock_state) go" where
  "client_get E c st k =
     rbind (serve_request E st (get_request k)) (\<lambda>(r, st').
       Inr (SOCK_Get (\<lambda>_. r) c k [] None False, st'))"

definition client_del ::
    "'a sock_env_scheme \<Rightarrow> Client \<Rightarrow> sock_state \<Rightarrow> string \<Rightarrow>
     ((cli_error option \<times> string \<times> string option) \<times> sock_state) go" where
  "client_del E c st k =
     rbind (serve_request E st (del_request k)) (\<lambda>(r, st').
       Inr (SOCK_Del (\<lambda>_. r) c k [] None, st'))"

text \<open>What a session needs: it waits for a command, its database is well formed and holds
  strings, and writes succeed.\<close>

definition session_ready :: "'a sock_env_scheme \<Rightarrow> sock_state \<Rightarrow> bool" where
  "session_ready E st \<longleftrightarrow> idle st \<and> db_fine E (sdb st) \<and> reliable E"

definition good_key :: "string \<Rightarrow> bool" where
  "good_key k \<longleftrightarrow> line_text k \<and> length k \<le> KEY_LIMIT"

definition good_value :: "string \<Rightarrow> bool" where
  "good_value v \<longleftrightarrow> line_text v \<and> length v \<le> VAL_LIMIT"

lemma line_text_command [simp]: "line_text (MagicS @ ''|1'')" "line_text (MagicG @ ''|1'')"
    "line_text (MagicD @ ''|1'')"
  by (simp_all add: line_text_def magic_defs)

lemma read_request:
  "good_key k \<Longrightarrow> good_value v \<Longrightarrow>
     read_lines (set_request k v) = [MagicS @ ''|'' @ ''1'', k, v, ETB]"
  "good_key k \<Longrightarrow>
     read_lines (get_request k) = (MagicG @ ''|'' @ ''1'') # key_lines [k] @ [ETB]"
  "good_key k \<Longrightarrow>
     read_lines (del_request k) = (MagicD @ ''|'' @ ''1'') # key_lines [k] @ [ETB]"
  using read_lines_line [of "MagicS @ ''|1''" "k @ CRLF @ v @ CRLF @ ETB @ CRLF"]
    read_lines_line [of "MagicG @ ''|1''" "k @ CRLF @ ETB @ CRLF"]
    read_lines_line [of "MagicD @ ''|1''" "k @ CRLF @ ETB @ CRLF"]
    read_lines_line [of k "v @ CRLF @ ETB @ CRLF"] read_lines_line [of v "ETB @ CRLF"]
    read_lines_line [of k "ETB @ CRLF"] read_lines_last [of ETB]
  by (simp_all add: set_request_def get_request_def del_request_def good_key_def good_value_def)

lemma first_byte [simp]: "byte_string (ACK ! 0) = ACK" "byte_string (NUL ! 0) = NUL"
  by (simp_all add: byte_string_def control_defs Let_def)

lemma serve_set:
  assumes "session_ready E st" and "good_key k" and "good_value v"
    and "db_count (sdb st) < 2 ^ 61"
  shows "\<exists>st'. serve_request E st (set_request k v) = Inr (Reply ACK, st') \<and> session_ready E st' \<and>
     db_view (sdb st') = (db_view (sdb st))(k \<mapsto> GoString v) \<and>
     db_count (sdb st') \<le> Suc (db_count (sdb st))"
proof -
  obtain st' where st': "readlines_loop E False [MagicS @ ''|'' @ ''1'', k, v, ETB] st =
       Inr (ContinueRead, st')" "idle st'" "db_fine E (sdb st')"
    "db_view (sdb st') = (db_view (sdb st))(k \<mapsto> GoString v)"
    "db_count (sdb st') \<le> Suc (db_count (sdb st))" "sent st' = sent st @ ACK @ CRLF"
    using set_exchange [of st E "''1''" k v False] good_count_1 assms
    by (auto simp: session_ready_def good_key_def good_value_def)
  have "serve_request E st (set_request k v) = Inr (Reply ACK, st')"
    using st'(1,6) read_lines_last [of ACK] read_request(1) [OF assms(2,3)]
    by (simp add: serve_request_def)
  with st' assms(1) show ?thesis by (simp add: session_ready_def)
qed

lemma client_set_spec:
  assumes "session_ready E st" and "tp_open c" and "good_key k" and "good_value v"
    and "db_count (sdb st) < 2 ^ 61"
  shows "\<exists>st'. client_set E c st k v = Inr ((None, ACK), st') \<and> session_ready E st' \<and>
     db_view (sdb st') = (db_view (sdb st))(k \<mapsto> GoString v) \<and>
     db_count (sdb st') \<le> Suc (db_count (sdb st))"
  using serve_set [OF assms(1,3-5)] assms(2)
  by (auto simp: client_set_def SOCK_Set_def)

text \<open>The reply to a GET of one key.\<close>

definition reply_text :: "(string \<rightharpoonup> go_value) \<Rightarrow> string \<Rightarrow> string" where
  "reply_text m k = (case m k of Some (GoString v) \<Rightarrow> v | _ \<Rightarrow> NUL)"

lemma get_reply_text: "get_reply m k = reply_text m k @ CRLF"
  by (simp add: get_reply_def reply_text_def split: option.split go_value.split)

lemma serve_get:
  assumes "session_ready E st" and "good_key k"
    and "line_text (reply_text (db_view (sdb st)) k)"
  shows "\<exists>st'. serve_request E st (get_request k) =
       Inr (Reply (reply_text (db_view (sdb st)) k), st') \<and> session_ready E st' \<and> sdb st' = sdb st"
proof -
  let ?r = "reply_text (db_view (sdb st)) k"
  obtain st' where st': "readlines_loop E False ((MagicG @ ''|'' @ ''1'') # key_lines [k] @ [ETB]) st =
       Inr (ContinueRead, st')" "idle st'" "sdb st' = sdb st" "sent st' = sent st @ ?r @ CRLF"
    using get_exchange [of st E "''1''" "[k]" False] good_count_1 assms(1,2)
    by (auto simp: session_ready_def good_key_def get_reply_text)
  have "serve_request E st (get_request k) = Inr (Reply ?r, st')"
    using st'(1,4) read_lines_last [OF assms(3)] read_request(2) [OF assms(2)]
    by (simp add: serve_request_def)
  with st' assms(1) show ?thesis by (auto simp: session_ready_def)
qed

lemma client_get_spec:
  assumes "session_ready E st" and "tp_open c" and "good_key k"
    and "line_text (reply_text (db_view (sdb st)) k)"
  shows "\<exists>st'. client_get E c st k =
       Inr ((None, reply_text (db_view (sdb st)) k, None, reply_text (db_view (sdb st)) k \<noteq> []),
            st') \<and>
     session_ready E st' \<and> sdb st' = sdb st"
  using serve_get [OF assms(1,3,4)] assms(2)
  by (auto simp: client_get_def SOCK_Get_def)

lemma client_del_spec:
  assumes "session_ready E st" and "tp_open c" and "good_key k"
  shows "\<exists>st'. client_del E c st k =
       Inr ((None, if db_view (sdb st) k = None then ACK else NUL, None), st') \<and>
     db_fine E (sdb st') \<and> db_view (sdb st') = (db_view (sdb st))(k := None) \<and>
     after_key modeDEL [k] st'"
proof -
  let ?r = "if db_view (sdb st) k = None then ACK else NUL"
  obtain st' where st': "readlines_loop E False ((MagicD @ ''|'' @ ''1'') # key_lines [k] @ [ETB]) st =
       Inr (ContinueRead, st')" "after_key modeDEL [k] st'" "db_fine E (sdb st')"
    "db_view (sdb st') = without (db_view (sdb st)) [k]" "sent st' = sent st @ ?r @ CRLF"
    using del_exchange [of st E "''1''" "[k]" False] good_count_1 assms(1,3)
    by (auto simp: session_ready_def good_key_def)
  have "without (db_view (sdb st)) [k] = (db_view (sdb st))(k := None)"
    by (auto simp: without_def)
  moreover have "client_del E c st k = Inr ((None, ?r, None), st')"
    using st'(1,5) assms(2) read_lines_last [of ?r] read_request(3) [OF assms(3)]
    by (simp add: client_del_def serve_request_def SOCK_Del_def)
  ultimately show ?thesis using st' by auto
qed

subsection \<open>An HTTP client and the handlers\<close>

text \<open>The body of the handler's answer; a handler that panics drops the connection.\<close>

definition answer_body :: "response go \<Rightarrow> http_reply" where
  "answer_body r = (case r of Inl _ \<Rightarrow> RequestFailed | Inr w \<Rightarrow> HttpBody (body w))"

definition web_get :: "'a db_env_scheme \<Rightarrow> XDatabase \<Rightarrow> string \<Rightarrow> http_reply" where
  "web_get E db key = answer_body (HandlerGetValByKey E db ''GET'' key fresh_response)"

text \<open>A GET of \<open>u\<close> when the router gives \<open>route_key u\<close> to the variable \<open>key\<close> of the route of /get/; another
  address, for instance that of a key with a slash, gets the router's page.\<close>

definition not_found_page :: string where
  "not_found_page = ''404 page not found'' @ LF"

definition get_reply_of ::
    "'a db_env_scheme \<Rightarrow> (string \<Rightarrow> string option) \<Rightarrow> XDatabase \<Rightarrow> string \<Rightarrow> http_reply" where
  "get_reply_of E route_key db u =
     (case route_key u of None \<Rightarrow> HttpBody not_found_page | Some key \<Rightarrow> web_get E db key)"

definition web_set ::
    "'a db_env_scheme \<Rightarrow> (string \<Rightarrow> (string \<times> go_value) list option) \<Rightarrow> XDatabase \<Rightarrow> string \<Rightarrow>
     (XDatabase \<times> response) go" where
  "web_set E json db payload = HandlerSet E db ''POST'' (json payload) fresh_response"

lemma web_get_spec:
  assumes "db_inv E db" and "key \<noteq> []"
  shows "web_get E db key =
     (case db_view db key of
        None \<Rightarrow> HttpBody []
      | Some GoNil \<Rightarrow> HttpBody []
      | Some (GoString s) \<Rightarrow> HttpBody s
      | Some _ \<Rightarrow> RequestFailed)"
  unfolding web_get_def HandlerGetValByKey_get [OF assms]
  by (simp add: answer_body_def WriteHeader_def write_body_def nilheader_def fresh_response_def
      split: option.split go_value.split)

subsection \<open>A concrete environment\<close>

definition demo_env :: sock_env where
  "demo_env = \<lparr>HASHER = HASH_FNV64A, key0 = 0, key1 = 0, siphash_Hash = (\<lambda>_ _ _. 0),
     pool = zero_Hash, nd = (\<lambda>_. False), peer = (\<lambda>_. True), Prof = None\<rparr>"

definition demo_db :: XDatabase where "demo_db = NewDICK 0 10"

definition demo_session :: sock_state where "demo_session = new_session demo_db False 0"

definition demo_client :: Client where
  "demo_client = \<lparr>cMode = 2, cid = 1, addr = DefaultAddrTCPsocket, url = [], ssl = False,
     insecure = False, auth = [], daemon = False, runtest = False, http_open = True,
     sock_open = True, tp_open = True\<rparr>"

lemma demo_env_ok: "env_ok demo_env" "hasher_ok demo_env" "reliable demo_env"
  by (simp_all add: env_ok_def hasher_ok_def demo_env_def reliable_def zero_Hash_def)

lemma demo_db_ok: "db_inv demo_env demo_db" "db_view demo_db = Map.empty" "db_count demo_db = 0"
    "db_fine demo_env demo_db"
  using NewDICK_ok [OF demo_env_ok(1), of 10 0]
  by (simp_all add: demo_db_def db_fine_def strings_only_def)

lemma demo_ready: "session_ready demo_env demo_session" "sdb demo_session = demo_db"
    "tp_open demo_client" "http_open demo_client"
  using demo_db_ok(4) demo_env_ok(3) idle_new
  by (simp_all add: session_ready_def demo_session_def new_session_def demo_client_def)

lemma demo_key: "good_key ''k''" "good_value ''v''"
  by (simp_all add: good_key_def good_value_def line_text_def KEY_LIMIT_def VAL_LIMIT_def)

end
