(* ===== verification/EntryHeap.thy ===== *)
theory EntryHeap
  imports XDick
begin

text \<open>
  The database with its pointers. The entries of DickEntry.go are cells of a heap, linked by
  \<open>next\<close>; the tables of dickTable.go are cells of their own, to which the two elements of a
  shard's \<open>hashTables\<close> point; the chains of a bucket are what the pointers make them, and a loop
  along a chain runs until it meets nil, for ever if it never does. HeapRefinement proves that
  this program does what the one of SubDick and XDick does with its chains as lists.

  An operation that runs a loop has a result of type \<open>'a go option\<close>: \<open>None\<close> when it does not
  return, else the value or the fault. Addresses below the two \<open>brk\<close> counters are allocated.
\<close>

subsection \<open>The heap\<close>

type_synonym addr = nat

record 'v node =
  next_ptr :: "addr option"
  node_key :: string
  node_value :: 'v

record ptr_table =
  buckets :: "addr option list"
  slot_size :: int64
  slot_mask :: uint64
  slot_used :: int64

record 'v heap =
  nodes :: "addr \<Rightarrow> 'v node"
  nodes_brk :: addr
  tabs :: "addr \<Rightarrow> ptr_table"
  tabs_brk :: addr

record ptr_shard =
  tab0 :: addr
  tab1 :: addr
  ptr_rehashidx :: int

definition mainDICK :: "'v heap \<Rightarrow> ptr_shard \<Rightarrow> ptr_table" where
  "mainDICK H s = tabs H (tab0 s)"

definition rehashingTable :: "'v heap \<Rightarrow> ptr_shard \<Rightarrow> ptr_table" where
  "rehashingTable H s = tabs H (tab1 s)"

definition table_ptr :: "nat \<Rightarrow> ptr_shard \<Rightarrow> addr" where
  "table_ptr i s = (if i = 0 then tab0 s else tab1 s)"

text \<open>Allocation, and stores through a pointer.\<close>

definition alloc_node :: "'v node \<Rightarrow> 'v heap \<Rightarrow> addr \<times> 'v heap" where
  "alloc_node n H = (nodes_brk H, H\<lparr>nodes := (nodes H)(nodes_brk H := n), nodes_brk := nodes_brk H + 1\<rparr>)"

definition alloc_table :: "ptr_table \<Rightarrow> 'v heap \<Rightarrow> addr \<times> 'v heap" where
  "alloc_table t H = (tabs_brk H, H\<lparr>tabs := (tabs H)(tabs_brk H := t), tabs_brk := tabs_brk H + 1\<rparr>)"

definition put_table :: "addr \<Rightarrow> ptr_table \<Rightarrow> 'v heap \<Rightarrow> 'v heap" where
  "put_table p t H = H\<lparr>tabs := (tabs H)(p := t)\<rparr>"

definition put_next :: "addr \<Rightarrow> addr option \<Rightarrow> 'v heap \<Rightarrow> 'v heap" where
  "put_next a p H = H\<lparr>nodes := (nodes H)(a := (nodes H a)\<lparr>next_ptr := p\<rparr>)\<rparr>"

definition put_value :: "addr \<Rightarrow> 'v \<Rightarrow> 'v heap \<Rightarrow> 'v heap" where
  "put_value a v H = H\<lparr>nodes := (nodes H)(a := (nodes H a)\<lparr>node_value := v\<rparr>)\<rparr>"

lemmas store_defs = alloc_node_def alloc_table_def put_table_def put_next_def put_value_def

definition ptr_NewDickEntry :: "string \<Rightarrow> 'v \<Rightarrow> 'v node" where
  "ptr_NewDickEntry k v = \<lparr>next_ptr = None, node_key = k, node_value = v\<rparr>"

definition ptr_NewDickTable :: "int64 \<Rightarrow> ptr_table" where
  "ptr_NewDickTable sz =
     (if 0 <s sz
      then \<lparr>buckets = replicate (unat sz) None, slot_size = sz, slot_mask = sz - 1, slot_used = 0\<rparr>
      else \<lparr>buckets = [], slot_size = sz, slot_mask = 0, slot_used = 0\<rparr>)"

text \<open>Sequencing of results that may be missing.\<close>

definition gbind :: "'a go option \<Rightarrow> ('a \<Rightarrow> 'b go option) \<Rightarrow> 'b go option" where
  "gbind m f =
     (case m of None \<Rightarrow> None | Some r \<Rightarrow> (case r of Inl e \<Rightarrow> Some (Inl e) | Inr x \<Rightarrow> f x))"

lemma gbind_simps [simp, go_simps]:
  "gbind None f = None"
  "gbind (Some (Inl e)) f = Some (Inl e)"
  "gbind (Some (Inr x)) f = f x"
  by (simp_all add: gbind_def)

subsection \<open>Growing\<close>

definition ptr_isRehashing :: "ptr_shard \<Rightarrow> bool" where
  "ptr_isRehashing s = (ptr_rehashidx s \<noteq> -1)"

definition ptr_expand :: "'v heap \<Rightarrow> ptr_shard \<Rightarrow> int64 \<Rightarrow> 'v heap \<times> ptr_shard" where
  "ptr_expand H s newSize =
     (let isrehashing = ptr_isRehashing s;
          istablefull = newSize <s slot_used (mainDICK H s)
      in if isrehashing \<or> istablefull then (H, s)
         else
           let nextSize = nextPower newSize
           in if nextSize \<le>s slot_used (mainDICK H s) then (H, s)
              else
                let (newDickTable, H1) = alloc_table (ptr_NewDickTable nextSize) H
                in if length (buckets (mainDICK H1 s)) = 0
                   then (put_table (tab0 s) (tabs H1 newDickTable) H1, s)
                   else (put_table (tab1 s) (tabs H1 newDickTable) H1, s\<lparr>ptr_rehashidx := 0\<rparr>))"

definition ptr_expandIfNeeded :: "'v heap \<Rightarrow> ptr_shard \<Rightarrow> 'v heap \<times> ptr_shard" where
  "ptr_expandIfNeeded H s =
     (if ptr_isRehashing s then (H, s)
      else if length (buckets (mainDICK H s)) = 0 then ptr_expand H s INITIAL_SIZE
      else if slot_size (mainDICK H s) \<le>s slot_used (mainDICK H s)
      then ptr_expand H s (slot_used (mainDICK H s) * 2)
      else (H, s))"

subsection \<open>Rehashing\<close>

fun ptr_skip_empty :: "ptr_table \<Rightarrow> int \<Rightarrow> nat \<Rightarrow> (int \<times> nat) go" where
  "ptr_skip_empty t i 0 = Inr (i, 0)"
| "ptr_skip_empty t i (Suc ev) =
     (if length (buckets t) = 0 then ptr_skip_empty t (i + 1) ev
      else rbind (go_index (buckets t) i) (\<lambda>p.
        if p = None then ptr_skip_empty t (i + 1) ev else Inr (i, Suc ev)))"

text \<open>One entry goes to the front of its chain in the second table: its \<open>next\<close>, the bucket and
  the two counters are stored to.\<close>

definition move_entry :: "'a hash_env_scheme \<Rightarrow> ptr_shard \<Rightarrow> addr \<Rightarrow> 'v heap \<Rightarrow> 'v heap go" where
  "move_entry E s a H =
     rbind (hasher E (node_key (nodes H a))) (\<lambda>h.
       let X = uint (h AND slot_mask (rehashingTable H s))
       in rbind (go_index (buckets (rehashingTable H s)) X) (\<lambda>p.
          let H1 = put_next a p H
          in rbind (go_update (buckets (rehashingTable H1 s)) X (Some a)) (\<lambda>tb.
             let H2 = put_table (tab1 s) ((rehashingTable H1 s)\<lparr>buckets := tb\<rparr>) H1;
                 H3 = put_table (tab0 s)
                   ((mainDICK H2 s)\<lparr>slot_used := slot_used (mainDICK H2 s) - 1\<rparr>) H2
             in Inr (put_table (tab1 s)
                  ((rehashingTable H3 s)\<lparr>slot_used := slot_used (rehashingTable H3 s) + 1\<rparr>) H3))))"

partial_function (option) move_entries ::
    "'a hash_env_scheme \<Rightarrow> ptr_shard \<Rightarrow> addr option \<Rightarrow> 'v heap \<Rightarrow> 'v heap go option" where
  "move_entries E s entry H =
     (case entry of
        None \<Rightarrow> Some (Inr H)
      | Some a \<Rightarrow>
          let nextEntry = next_ptr (nodes H a)
          in case move_entry E s a H of
               Inl e \<Rightarrow> Some (Inl e)
             | Inr H1 \<Rightarrow> move_entries E s nextEntry H1)"

fun ptr_rehash_loop ::
    "'a hash_env_scheme \<Rightarrow> nat \<Rightarrow> nat \<Rightarrow> 'v heap \<Rightarrow> ptr_shard \<Rightarrow>
     ('v heap \<times> ptr_shard \<times> bool) go option" where
  "ptr_rehash_loop E 0 ev H s = Some (Inr (H, s, False))"
| "ptr_rehash_loop E (Suc n) ev H s =
     (if slot_used (mainDICK H s) = 0 then Some (Inr (H, s, False))
      else gbind (Some (ptr_skip_empty (mainDICK H s) (ptr_rehashidx s) ev)) (\<lambda>(i, ev').
        let s1 = s\<lparr>ptr_rehashidx := i\<rparr>
        in if ev' = 0 then Some (Inr (H, s1, True))
           else gbind (Some (go_index (buckets (mainDICK H s1)) i)) (\<lambda>entry.
                gbind (move_entries E s1 entry H) (\<lambda>H1.
                gbind (Some (go_update (buckets (mainDICK H1 s1)) (ptr_rehashidx s1) None)) (\<lambda>tb.
                  ptr_rehash_loop E n ev'
                    (put_table (tab0 s1) ((mainDICK H1 s1)\<lparr>buckets := tb\<rparr>) H1)
                    (s1\<lparr>ptr_rehashidx := ptr_rehashidx s1 + 1\<rparr>))))))"

definition ptr_rehash ::
    "'a hash_env_scheme \<Rightarrow> nat \<Rightarrow> 'v heap \<Rightarrow> ptr_shard \<Rightarrow> ('v heap \<times> ptr_shard) go option" where
  "ptr_rehash E n H s =
     (if \<not> ptr_isRehashing s then Some (Inr (H, s))
      else gbind (ptr_rehash_loop E n (n * 10) H s) (\<lambda>(H1, s1, returned).
        if returned then Some (Inr (H1, s1))
        else if slot_used (mainDICK H1 s1) = 0
        then let (p, H2) = alloc_table (ptr_NewDickTable 0) H1
             in Some (Inr (H2, s1\<lparr>tab0 := tab1 s1, tab1 := p, ptr_rehashidx := -1\<rparr>))
        else Some (Inr (H1, s1))))"

definition ptr_rehashStep ::
    "'a hash_env_scheme \<Rightarrow> 'v heap \<Rightarrow> ptr_shard \<Rightarrow> ('v heap \<times> ptr_shard) go option" where
  "ptr_rehashStep E H s = ptr_rehash E 1 H s"

subsection \<open>Walking a chain\<close>

text \<open>The loops of \<open>get\<close>, \<open>keyIndex\<close> and \<open>add\<close>: the first entry with the key, or nil. The loop
  of \<open>del\<close> also keeps the entry before.\<close>

partial_function (option) find_entry ::
    "('v, 'm) heap_scheme \<Rightarrow> string \<Rightarrow> addr option \<Rightarrow> addr option option" where
  "find_entry H k entry =
     (case entry of
        None \<Rightarrow> Some None
      | Some a \<Rightarrow>
          if node_key (nodes H a) = k then Some entry
          else find_entry H k (next_ptr (nodes H a)))"

partial_function (option) find_previous ::
    "('v, 'm) heap_scheme \<Rightarrow> string \<Rightarrow> addr option \<Rightarrow> addr option \<Rightarrow> (addr option \<times> addr option) option" where
  "find_previous H k previousEntry entry =
     (case entry of
        None \<Rightarrow> Some (previousEntry, None)
      | Some a \<Rightarrow>
          if node_key (nodes H a) = k then Some (previousEntry, entry)
          else find_previous H k entry (next_ptr (nodes H a)))"

subsection \<open>Lookup, insertion and deletion\<close>

fun ptr_get_loop ::
    "'v heap \<Rightarrow> ptr_shard \<Rightarrow> string \<Rightarrow> uint64 \<Rightarrow> nat list \<Rightarrow> addr option go option" where
  "ptr_get_loop H s k h [] = Some (Inr None)"
| "ptr_get_loop H s k h (ind # inds) =
     (let t = tabs H (table_ptr ind s)
      in if length (buckets t) = 0 \<or> (ind = 1 \<and> \<not> ptr_isRehashing s) then ptr_get_loop H s k h inds
         else
           gbind (Some (go_index (buckets t) (uint (h AND slot_mask t)))) (\<lambda>p.
             Option.bind (find_entry H k p) (\<lambda>entry.
               if entry = None then ptr_get_loop H s k h inds else Some (Inr entry))))"

definition ptr_get ::
    "'a hash_env_scheme \<Rightarrow> 'v heap \<Rightarrow> ptr_shard \<Rightarrow> string \<Rightarrow> addr option go option" where
  "ptr_get E H s k =
     (if slot_used (mainDICK H s) = 0 \<and> slot_used (rehashingTable H s) = 0 then Some (Inr None)
      else gbind (Some (hasher E k)) (\<lambda>h. ptr_get_loop H s k h [0, 1]))"

fun ptr_keyIndex_loop ::
    "'v heap \<Rightarrow> ptr_shard \<Rightarrow> string \<Rightarrow> uint64 \<Rightarrow> nat list \<Rightarrow> int \<Rightarrow> int go option" where
  "ptr_keyIndex_loop H s k h [] index = Some (Inr index)"
| "ptr_keyIndex_loop H s k h (i # is) index =
     (let t = tabs H (table_ptr i s);
          index' = sint (h AND slot_mask t)
      in gbind (Some (go_index (buckets t) index')) (\<lambda>p.
           Option.bind (find_entry H k p) (\<lambda>entry.
             if entry \<noteq> None then Some (Inr (-1))
             else if index' = -1 \<or> \<not> ptr_isRehashing s then Some (Inr index')
             else ptr_keyIndex_loop H s k h is index')))"

definition ptr_keyIndex ::
    "'a hash_env_scheme \<Rightarrow> 'v heap \<Rightarrow> ptr_shard \<Rightarrow> string \<Rightarrow> ('v heap \<times> ptr_shard \<times> int) go option"
  where
  "ptr_keyIndex E H s k =
     (let (H1, s1) = ptr_expandIfNeeded H s
      in gbind (Some (hasher E k)) (\<lambda>h.
         gbind (ptr_keyIndex_loop H1 s1 k h [0, 1] 0) (\<lambda>index. Some (Inr (H1, s1, index)))))"

text \<open>The insertion proper of \<open>add\<close>: the entry is allocated, linked to the chain and made its
  head.\<close>

definition push_entry ::
    "'v heap \<Rightarrow> addr \<Rightarrow> int \<Rightarrow> string \<Rightarrow> 'v \<Rightarrow> 'v heap go" where
  "push_entry H p X k v =
     (let (a, H1) = alloc_node (ptr_NewDickEntry k v) H
      in rbind (go_index (buckets (tabs H1 p)) X) (\<lambda>head.
         let H2 = put_next a head H1
         in rbind (go_update (buckets (tabs H2 p)) X (Some a)) (\<lambda>tb.
            let H3 = put_table p ((tabs H2 p)\<lparr>buckets := tb\<rparr>) H2
            in Inr (put_table p ((tabs H3 p)\<lparr>slot_used := slot_used (tabs H3 p) + 1\<rparr>) H3))))"

definition ptr_add ::
    "'a hash_env_scheme \<Rightarrow> 'v heap \<Rightarrow> ptr_shard \<Rightarrow> string \<Rightarrow> 'v \<Rightarrow>
     ('v heap \<times> ptr_shard \<times> db_error option) go option" where
  "ptr_add E H s k v =
     gbind (ptr_keyIndex E H s k) (\<lambda>(H1, s1, X).
       if X = -1 then Some (Inr (H1, s1, Some (EntryExists k)))
       else
         gbind (if ptr_isRehashing s1
                then gbind (ptr_rehashStep E H1 s1) (\<lambda>(H2, s2).
                       Some (Inr (H2, s2, if ptr_isRehashing s2 then 1 else 0)))
                else Some (Inr (H1, s1, 0))) (\<lambda>(H2, s2, which).
           let p = table_ptr which s2
           in gbind (Some (go_index (buckets (tabs H2 p)) X)) (\<lambda>head.
              Option.bind (find_entry H2 k head) (\<lambda>entry.
                if entry = None
                then gbind (Some (push_entry H2 p X k v)) (\<lambda>H3. Some (Inr (H3, s2, None)))
                else Some (Inr (H2, s2, None))))))"

text \<open>Unlinking: the pointer to the entry, in the entry before it or in the bucket, skips it.\<close>

definition unlink_entry :: "'v heap \<Rightarrow> addr \<Rightarrow> int \<Rightarrow> addr option \<Rightarrow> addr \<Rightarrow> 'v heap go" where
  "unlink_entry H p index previousEntry a =
     rbind (case previousEntry of
              Some b \<Rightarrow> Inr (put_next b (next_ptr (nodes H a)) H)
            | None \<Rightarrow>
                rbind (go_update (buckets (tabs H p)) index (next_ptr (nodes H a))) (\<lambda>tb.
                  Inr (put_table p ((tabs H p)\<lparr>buckets := tb\<rparr>) H))) (\<lambda>H1.
       Inr (put_table p ((tabs H1 p)\<lparr>slot_used := slot_used (tabs H1 p) - 1\<rparr>) H1))"

fun ptr_del_loop ::
    "'v heap \<Rightarrow> ptr_shard \<Rightarrow> string \<Rightarrow> uint64 \<Rightarrow> nat list \<Rightarrow> ('v heap \<times> addr option) go option" where
  "ptr_del_loop H s k h [] = Some (Inr (H, None))"
| "ptr_del_loop H s k h (i # is) =
     (let p = table_ptr i s;
          t = tabs H p
      in if i = 1 \<and> \<not> ptr_isRehashing s then ptr_del_loop H s k h is
         else
           let index = uint (h AND slot_mask t)
           in gbind (Some (go_index (buckets t) index)) (\<lambda>head.
              Option.bind (find_previous H k None head) (\<lambda>(previousEntry, entry).
                case entry of
                  None \<Rightarrow> ptr_del_loop H s k h is
                | Some a \<Rightarrow>
                    gbind (Some (unlink_entry H p index previousEntry a)) (\<lambda>H1.
                      Some (Inr (H1, Some a))))))"

definition ptr_del ::
    "'a hash_env_scheme \<Rightarrow> 'v heap \<Rightarrow> ptr_shard \<Rightarrow> string \<Rightarrow>
     ('v heap \<times> ptr_shard \<times> addr option) go option" where
  "ptr_del E H s k =
     (if slot_used (mainDICK H s) = 0 \<and> slot_used (rehashingTable H s) = 0 then Some (Inr (H, s, None))
      else
        gbind (if ptr_isRehashing s then ptr_rehashStep E H s else Some (Inr (H, s))) (\<lambda>(H1, s1).
        gbind (Some (hasher E k)) (\<lambda>h.
        gbind (ptr_del_loop H1 s1 k h [0, 1]) (\<lambda>(H2, e). Some (Inr (H2, s1, e))))))"

subsection \<open>Get, Set and Del on a shard\<close>

definition ptr_Get ::
    "'a hash_env_scheme \<Rightarrow> 'v heap \<Rightarrow> ptr_shard \<Rightarrow> string \<Rightarrow> 'v option go option" where
  "ptr_Get E H s k =
     gbind (ptr_get E H s k) (\<lambda>entry. Some (Inr (map_option (\<lambda>a. node_value (nodes H a)) entry)))"

definition ptr_Set ::
    "'a hash_env_scheme \<Rightarrow> 'v heap \<Rightarrow> ptr_shard \<Rightarrow> string \<Rightarrow> 'v \<Rightarrow>
     ('v heap \<times> ptr_shard \<times> db_error option) go option" where
  "ptr_Set E H s k v =
     gbind (ptr_get E H s k) (\<lambda>entry.
       case entry of
         Some a \<Rightarrow> Some (Inr (put_value a v H, s, None))
       | None \<Rightarrow> ptr_add E H s k v)"

definition ptr_Del ::
    "'a hash_env_scheme \<Rightarrow> 'v heap \<Rightarrow> ptr_shard \<Rightarrow> string \<Rightarrow>
     ('v heap \<times> ptr_shard \<times> db_error option) go option" where
  "ptr_Del E H s k =
     gbind (ptr_del E H s k) (\<lambda>(H1, s1, e).
       Some (Inr (H1, s1, case e of None \<Rightarrow> Some EntryNotFound | Some _ \<Rightarrow> None)))"

subsection \<open>The sharded database\<close>

record ptr_XDICK =
  ptr_SubDICKs :: "ptr_shard list"
  ptr_SubCount :: uint32

definition ptr_NewSubDICK :: "'v heap \<Rightarrow> ptr_shard \<times> 'v heap" where
  "ptr_NewSubDICK H =
     (let (p, H1) = alloc_table (ptr_NewDickTable 0) H;
          (q, H2) = alloc_table (ptr_NewDickTable 0) H1
      in (\<lparr>tab0 = p, tab1 = q, ptr_rehashidx = -1\<rparr>, H2))"

fun ptr_NewSubDICKs :: "nat \<Rightarrow> 'v heap \<Rightarrow> ptr_shard list \<times> 'v heap" where
  "ptr_NewSubDICKs 0 H = ([], H)"
| "ptr_NewSubDICKs (Suc n) H =
     (let (s, H1) = ptr_NewSubDICK H; (ss, H2) = ptr_NewSubDICKs n H1 in (s # ss, H2))"

definition ptr_NewXDICK :: "uint32 \<Rightarrow> 'v heap \<Rightarrow> 'v heap \<times> ptr_XDICK" where
  "ptr_NewXDICK sub_dicks H =
     (let (ss, H1) = ptr_NewSubDICKs (unat sub_dicks) H
      in (H1, \<lparr>ptr_SubDICKs = ss, ptr_SubCount = sub_dicks\<rparr>))"

definition ptr_shard_index :: "'a db_env_scheme \<Rightarrow> ptr_XDICK \<Rightarrow> string \<Rightarrow> uint32 go" where
  "ptr_shard_index E D key =
     (if ptr_SubCount D = 0 then Inl DivideByZero
      else Inr (StringHash (pool E) key mod ptr_SubCount D))"

definition ptr_XDICK_Get ::
    "'a db_env_scheme \<Rightarrow> go_value heap \<times> ptr_XDICK \<Rightarrow> string \<Rightarrow> go_value go option" where
  "ptr_XDICK_Get E w key =
     (case w of (H, D) \<Rightarrow>
       gbind (Some (ptr_shard_index E D key)) (\<lambda>i.
       gbind (Some (go_index (ptr_SubDICKs D) (uint i))) (\<lambda>s.
       gbind (ptr_Get E H s key) (\<lambda>r.
         Some (Inr (case r of None \<Rightarrow> GoNil | Some v \<Rightarrow> v))))))"

text \<open>The changed fields of a shard are stored back in the slice of shards.\<close>

definition ptr_update_shard ::
    "ptr_XDICK \<Rightarrow> uint32 \<Rightarrow> (go_value heap \<times> ptr_shard \<times> db_error option) go option \<Rightarrow>
     ((go_value heap \<times> ptr_XDICK) \<times> db_error option) go option" where
  "ptr_update_shard D i r =
     gbind r (\<lambda>(H1, s1, err).
     gbind (Some (go_update (ptr_SubDICKs D) (uint i) s1)) (\<lambda>ss.
       Some (Inr ((H1, D\<lparr>ptr_SubDICKs := ss\<rparr>), err))))"

definition ptr_XDICK_Set ::
    "'a db_env_scheme \<Rightarrow> go_value heap \<times> ptr_XDICK \<Rightarrow> string \<Rightarrow> go_value \<Rightarrow>
     ((go_value heap \<times> ptr_XDICK) \<times> db_error option) go option" where
  "ptr_XDICK_Set E w key v =
     (case w of (H, D) \<Rightarrow>
       gbind (Some (ptr_shard_index E D key)) (\<lambda>i.
       gbind (Some (go_index (ptr_SubDICKs D) (uint i))) (\<lambda>s.
         ptr_update_shard D i (ptr_Set E H s key v))))"

definition ptr_XDICK_Del ::
    "'a db_env_scheme \<Rightarrow> go_value heap \<times> ptr_XDICK \<Rightarrow> string \<Rightarrow>
     ((go_value heap \<times> ptr_XDICK) \<times> db_error option) go option" where
  "ptr_XDICK_Del E w key =
     (case w of (H, D) \<Rightarrow>
       gbind (Some (ptr_shard_index E D key)) (\<lambda>i.
       gbind (Some (go_index (ptr_SubDICKs D) (uint i))) (\<lambda>s.
         ptr_update_shard D i (ptr_Del E H s key))))"

end
