(* ===== verification/HeapRefinement.thy ===== *)
theory HeapRefinement
  imports EntryHeap
begin

text \<open>
  The pointer program of EntryHeap refines the list program of SubDick and XDick: from a heap in
  which a shard's chains are finite, end in nil and share no entry, every operation returns, with
  the same answer or fault, and leaves such a heap, which stands for the list program's new
  state; and it changes no cell outside the shard and its fresh cells, so that the shards of a
  database do not disturb each other.
\<close>

named_theorems heap_simps \<open>reading the heap after a store\<close>

subsection \<open>Chains\<close>

primrec chain :: "(addr \<Rightarrow> 'v node) \<Rightarrow> addr option \<Rightarrow> addr list \<Rightarrow> bool" where
  "chain nds p [] \<longleftrightarrow> p = None"
| "chain nds p (a # as) \<longleftrightarrow> p = Some a \<and> chain nds (next_ptr (nds a)) as"

definition entry_at :: "(addr \<Rightarrow> 'v node) \<Rightarrow> addr \<Rightarrow> 'v DickEntry" where
  "entry_at nds a = \<lparr>ekey = node_key (nds a), evalue = node_value (nds a)\<rparr>"

lemma chain_None [simp]: "chain nds None as \<longleftrightarrow> as = []"
  by (cases as) simp_all

lemma chain_Some: "chain nds (Some a) as \<longleftrightarrow> (\<exists>bs. as = a # bs \<and> chain nds (next_ptr (nds a)) bs)"
  by (cases as) auto

lemma chain_cong: "(\<And>a. a \<in> set as \<Longrightarrow> next_ptr (nds' a) = next_ptr (nds a)) \<Longrightarrow> chain nds' p as = chain nds p as"
  by (induction as arbitrary: p) auto

text \<open>Skipping an entry: the one before it gets its \<open>next\<close>.\<close>

lemma chain_skip:
  assumes "chain nds p (as @ b # a # bs)" and "distinct (as @ b # a # bs)"
  shows "chain (nds(b := (nds b)\<lparr>next_ptr := next_ptr (nds a)\<rparr>)) p (as @ b # bs)"
  using assms
proof (induction as arbitrary: p)
  case Nil
  then show ?case
    by (auto intro: chain_cong [THEN iffD1, rotated] split: if_splits)
qed auto

lemma entry_at_simps [simp]:
  "ekey (entry_at nds a) = node_key (nds a)" "evalue (entry_at nds a) = node_value (nds a)"
  by (simp_all add: entry_at_def)

text \<open>The walks return what \<open>find_pos\<close> finds.\<close>

lemma find_entry_chain:
  "chain (nodes H) p as \<Longrightarrow>
   find_entry H k p = Some (map_option ((!) as) (find_pos k (map (entry_at (nodes H)) as)))"
proof (induction as arbitrary: p)
  case Nil
  then show ?case by (simp add: find_entry.simps)
next
  case (Cons a as)
  then show ?case by (simp add: find_entry.simps [of H k "Some a"] option.map_comp comp_def)
qed

definition previous_at :: "addr option \<Rightarrow> addr list \<Rightarrow> nat \<Rightarrow> addr option" where
  "previous_at prev as j = (if j = 0 then prev else Some (as ! (j - 1)))"

lemma find_previous_chain:
  "chain (nodes H) p as \<Longrightarrow>
   find_previous H k prev p = Some (case find_pos k (map (entry_at (nodes H)) as) of
     None \<Rightarrow> (previous_at prev as (length as), None)
   | Some j \<Rightarrow> (previous_at prev as j, Some (as ! j)))"
proof (induction as arbitrary: p prev)
  case Nil
  then show ?case by (simp add: find_previous.simps previous_at_def)
next
  case (Cons a as)
  have "previous_at (Some a) as j = previous_at prev (a # as) (Suc j)" for j
    by (cases j) (simp_all add: previous_at_def)
  with Cons show ?case
    by (auto simp: find_previous.simps [of H k prev "Some a"] previous_at_def split: option.split)
qed

subsection \<open>Simulation of results\<close>

definition sim :: "('c \<Rightarrow> 's \<Rightarrow> bool) \<Rightarrow> 'c go option \<Rightarrow> 's go \<Rightarrow> bool" where
  "sim R c a = (\<exists>r. c = Some r \<and> rel_sum (=) R r a)"

lemma sim_simps [simp]:
  "sim R (Some (Inr x)) (Inr y) = R x y"
  "sim R (Some (Inl e)) (Inl e') = (e = e')"
  "sim R (Some (Inr x)) (Inl e) = False"
  "sim R (Some (Inl e)) (Inr y) = False"
  "sim R None a = False"
  by (auto simp: sim_def)

lemma sim_Inr: "sim R c (Inr y) \<longleftrightarrow> (\<exists>x. c = Some (Inr x) \<and> R x y)"
  by (auto simp: sim_def rel_sum.simps)

lemma sim_bind:
  assumes "sim R c a" and "\<And>x y. c = Some (Inr x) \<Longrightarrow> a = Inr y \<Longrightarrow> R x y \<Longrightarrow> sim S (f x) (g y)"
  shows "sim S (gbind c f) (rbind a g)"
proof -
  obtain r where r: "c = Some r" "rel_sum (=) R r a" using assms(1) by (auto simp: sim_def)
  from r(2) show ?thesis
  proof cases
    case (1 e e')
    then show ?thesis using r(1) by simp
  next
    case (2 x y)
    then show ?thesis using r(1) assms(2) [of x y] by simp
  qed
qed

lemma sim_mono: "sim R c a \<Longrightarrow> (\<And>x y. R x y \<Longrightarrow> S x y) \<Longrightarrow> sim S c a"
  unfolding sim_def by (metis sum.rel_mono_strong)

lemma sim_same [simp]: "sim (=) (Some r) r' \<longleftrightarrow> r = r'"
  by (simp add: sim_def sum.rel_eq)

text \<open>A step that both programs make alike.\<close>

lemma sim_same_bind:
  assumes "\<And>x. r = Inr x \<Longrightarrow> sim S (f x) (g x)"
  shows "sim S (gbind (Some r) f) (rbind r g)"
  using sim_bind [of "(=)" "Some r" r S f g] assms by simp

lemma sim_if:
  "(c \<longleftrightarrow> c') \<Longrightarrow> (c' \<Longrightarrow> sim R a b) \<Longrightarrow> (\<not> c' \<Longrightarrow> sim R a' b') \<Longrightarrow>
   sim R (if c then a else a') (if c' then b else b')"
  by simp

lemma sim_go_index:
  assumes "length xs = length ys"
    and "\<And>j. i = int j \<Longrightarrow> j < length ys \<Longrightarrow> sim S (f (xs ! j)) (g (ys ! j))"
  shows "sim S (gbind (Some (go_index xs i)) f) (rbind (go_index ys i) g)"
proof (cases "0 \<le> i \<and> i < int (length ys)")
  case True
  then show ?thesis using assms(1) assms(2) [of "nat i"] by (simp add: go_index_def nat_less_iff)
next
  case False
  then show ?thesis using assms(1) by (simp add: go_index_fault)
qed

lemma sim_go_update:
  assumes "length xs = length ys"
    and "\<And>j. i = int j \<Longrightarrow> j < length ys \<Longrightarrow> sim S (f (xs[j := x])) (g (ys[j := y]))"
  shows "sim S (gbind (Some (go_update xs i x)) f) (rbind (go_update ys i y) g)"
proof (cases "0 \<le> i \<and> i < int (length ys)")
  case True
  then show ?thesis using assms(1) assms(2) [of "nat i"] by (simp add: go_update_def nat_less_iff)
next
  case False
  then show ?thesis using assms(1) by (auto simp: go_update_def)
qed

subsection \<open>A shard in the heap\<close>

definition chains :: "(addr \<Rightarrow> 'v node) \<Rightarrow> ptr_table \<Rightarrow> addr list list \<Rightarrow> bool" where
  "chains nds t A = list_all2 (chain nds) (buckets t) A"

definition table_of :: "(addr \<Rightarrow> 'v node) \<Rightarrow> ptr_table \<Rightarrow> addr list list \<Rightarrow> 'v DickTable" where
  "table_of nds t A =
     \<lparr>table = map (map (entry_at nds)) A, tsize = slot_size t, sizemask = slot_mask t, used = slot_used t\<rparr>"

text \<open>The cells of a shard: \<open>A\<close> and \<open>B\<close> are the chains of its tables.\<close>

definition shard_at ::
    "'v heap \<Rightarrow> ptr_shard \<Rightarrow> addr list list \<Rightarrow> addr list list \<Rightarrow> 'v SubDICK \<Rightarrow> bool" where
  "shard_at H s A B d \<longleftrightarrow>
     tab0 s \<noteq> tab1 s \<and> tab0 s < tabs_brk H \<and> tab1 s < tabs_brk H \<and>
     chains (nodes H) (mainDICK H s) A \<and> chains (nodes H) (rehashingTable H s) B \<and>
     distinct (concat A @ concat B) \<and> (\<forall>a \<in> set (concat A @ concat B). a < nodes_brk H) \<and>
     d = \<lparr>ht0 = table_of (nodes H) (mainDICK H s) A,
          ht1 = table_of (nodes H) (rehashingTable H s) B, rehashidx = ptr_rehashidx s\<rparr>"

definition cells :: "addr list list \<Rightarrow> addr list list \<Rightarrow> addr set" where
  "cells A B = set (concat A @ concat B)"

definition owns :: "'v heap \<Rightarrow> ptr_shard \<Rightarrow> addr set \<Rightarrow> addr set \<Rightarrow> 'v SubDICK \<Rightarrow> bool" where
  "owns H s N T d \<longleftrightarrow> (\<exists>A B. shard_at H s A B d \<and> N = cells A B \<and> T = {tab0 s, tab1 s})"

text \<open>A change of the heap that may touch the cells \<open>N\<close> and \<open>T\<close> only, and after which the
  shard has some of those and fresh ones.\<close>

definition frame ::
    "'v heap \<Rightarrow> addr set \<Rightarrow> addr set \<Rightarrow> 'v heap \<Rightarrow> addr set \<Rightarrow> addr set \<Rightarrow> bool" where
  "frame H N T H' N' T' \<longleftrightarrow>
     nodes_brk H \<le> nodes_brk H' \<and> tabs_brk H \<le> tabs_brk H' \<and>
     (\<forall>a \<in> N'. a \<in> N \<or> nodes_brk H \<le> a) \<and> (\<forall>p \<in> T'. p \<in> T \<or> tabs_brk H \<le> p) \<and>
     (\<forall>a < nodes_brk H. a \<notin> N \<longrightarrow> nodes H' a = nodes H a) \<and>
     (\<forall>p < tabs_brk H. p \<notin> T \<longrightarrow> tabs H' p = tabs H p)"

lemma frame_refl: "frame H N T H N T"
  by (simp add: frame_def)

lemma frame_trans:
  assumes "frame H N T H1 N1 T1" and "frame H1 N1 T1 H2 N2 T2"
  shows "frame H N T H2 N2 T2"
  unfolding frame_def
proof (intro conjI ballI allI impI)
  have le: "nodes_brk H \<le> nodes_brk H1" "tabs_brk H \<le> tabs_brk H1" using assms(1) by (simp_all add: frame_def)
  then show "nodes_brk H \<le> nodes_brk H2" "tabs_brk H \<le> tabs_brk H2"
    using assms(2) by (auto simp: frame_def)
  show "a \<in> N \<or> nodes_brk H \<le> a" if "a \<in> N2" for a
    using that assms le(1) unfolding frame_def by fastforce
  show "p \<in> T \<or> tabs_brk H \<le> p" if "p \<in> T2" for p
    using that assms le(2) unfolding frame_def by fastforce
  show "nodes H2 a = nodes H a" if "a < nodes_brk H" "a \<notin> N" for a
  proof -
    have "a \<notin> N1" using that assms(1) by (auto simp: frame_def)
    then show ?thesis using that le(1) assms by (simp add: frame_def)
  qed
  show "tabs H2 p = tabs H p" if "p < tabs_brk H" "p \<notin> T" for p
  proof -
    have "p \<notin> T1" using that assms(1) by (auto simp: frame_def)
    then show ?thesis using that le(2) assms by (simp add: frame_def)
  qed
qed

text \<open>The result of an operation on a shard that had the cells \<open>N\<close> and \<open>T\<close>.\<close>

definition moves_to ::
    "'v heap \<Rightarrow> addr set \<Rightarrow> addr set \<Rightarrow> 'v heap \<Rightarrow> ptr_shard \<Rightarrow> 'v SubDICK \<Rightarrow> bool" where
  "moves_to H N T H' s' d' \<longleftrightarrow> (\<exists>N' T'. owns H' s' N' T' d' \<and> frame H N T H' N' T')"

lemma moves_to_refl: "owns H s N T d \<Longrightarrow> moves_to H N T H s d"
  using frame_refl unfolding moves_to_def by blast

lemma moves_toI:
  "shard_at H' s' A' B' d' \<Longrightarrow> frame H N T H' (cells A' B') {tab0 s', tab1 s'} \<Longrightarrow> moves_to H N T H' s' d'"
  unfolding moves_to_def owns_def by blast

lemma moves_to_trans:
  assumes "frame H N T H1 N1 T1" and "moves_to H1 N1 T1 H2 s2 d2"
  shows "moves_to H N T H2 s2 d2"
  using assms frame_trans unfolding moves_to_def by blast

lemma chains_length: "chains nds t A \<Longrightarrow> length (buckets t) = length A"
  unfolding chains_def by (rule list_all2_lengthD)

lemma chains_nth: "chains nds t A \<Longrightarrow> j < length A \<Longrightarrow> chain nds (buckets t ! j) (A ! j)"
  unfolding chains_def by (simp add: list_all2_conv_all_nth)

lemma chains_update:
  "chains nds t A \<Longrightarrow> chain nds p as \<Longrightarrow> chains nds (t\<lparr>buckets := (buckets t)[j := p]\<rparr>) (A[j := as])"
  by (simp add: chains_def list_all2_update_cong)

lemma chains_cong:
  assumes "\<And>a. a \<in> set (concat A) \<Longrightarrow> next_ptr (nds' a) = next_ptr (nds a)"
  shows "chains nds' t A = chains nds t A"
  unfolding chains_def
  by (rule list.rel_cong [OF refl refl], rule chain_cong) (use assms in auto)

lemma chains_counters [simp]:
  "chains nds (t\<lparr>slot_used := u\<rparr>) A = chains nds t A"
  by (simp add: chains_def)

lemma table_of_simps [simp]:
  "table (table_of nds t A) = map (map (entry_at nds)) A" "tsize (table_of nds t A) = slot_size t"
  "sizemask (table_of nds t A) = slot_mask t" "used (table_of nds t A) = slot_used t"
  by (simp_all add: table_of_def)

lemma table_of_cong:
  "(\<And>a. a \<in> set (concat A) \<Longrightarrow> entry_at nds' a = entry_at nds a) \<Longrightarrow> table_of nds' t A = table_of nds t A"
  by (auto simp: table_of_def)

lemma chains_new: "chains nds (ptr_NewDickTable sz) (replicate (length (buckets (ptr_NewDickTable sz))) [])"
  by (simp add: chains_def ptr_NewDickTable_def list_all2_conv_all_nth)

lemma table_of_new:
  "table_of nds (ptr_NewDickTable sz) (replicate (length (buckets (ptr_NewDickTable sz))) []) = NewDickTable sz"
  by (simp add: table_of_def ptr_NewDickTable_def NewDickTable_def)

lemma concat_replicate_Nil [simp]: "concat (replicate n []) = []"
  by (induction n) simp_all

lemma set_concat_update: "set (concat (xss[j := ys])) \<subseteq> set (concat xss) \<union> set ys"
  using set_update_subset_insert [of xss j ys] by fastforce

subsection \<open>Growing\<close>

lemma mainDICK_simps [heap_simps]:
  "mainDICK (put_table p t H) s = (if p = tab0 s then t else mainDICK H s)"
  "rehashingTable (put_table p t H) s = (if p = tab1 s then t else rehashingTable H s)"
  "nodes (put_table p t H) = nodes H" "nodes_brk (put_table p t H) = nodes_brk H"
  "tabs_brk (put_table p t H) = tabs_brk H" "tabs (put_table p t H) = (tabs H)(p := t)"
  "mainDICK (put_next a q H) s = mainDICK H s" "rehashingTable (put_next a q H) s = rehashingTable H s"
  "nodes (put_next a q H) = (nodes H)(a := (nodes H a)\<lparr>next_ptr := q\<rparr>)"
  "nodes_brk (put_next a q H) = nodes_brk H" "tabs_brk (put_next a q H) = tabs_brk H"
  "tabs (put_next a q H) = tabs H"
  "mainDICK H (s\<lparr>ptr_rehashidx := i\<rparr>) = mainDICK H s"
  "rehashingTable H (s\<lparr>ptr_rehashidx := i\<rparr>) = rehashingTable H s"
  by (auto simp: mainDICK_def rehashingTable_def put_table_def put_next_def)

lemma ptr_expand_ok:
  assumes "owns H s N T d"
  shows "moves_to H N T (fst (ptr_expand H s sz)) (snd (ptr_expand H s sz)) (expand d sz)"
proof -
  obtain A B where sh: "shard_at H s A B d" and N: "N = cells A B" and T: "T = {tab0 s, tab1 s}"
    using assms by (auto simp: owns_def)
  let ?n = "nextPower sz"
  let ?nt = "ptr_NewDickTable ?n"
  let ?E = "replicate (length (buckets ?nt)) []"
  define H1 where "H1 = snd (alloc_table ?nt H)"
  have d: "d = \<lparr>ht0 = table_of (nodes H) (mainDICK H s) A,
      ht1 = table_of (nodes H) (rehashingTable H s) B, rehashidx = ptr_rehashidx s\<rparr>"
    and len: "length (buckets (mainDICK H s)) = length A"
    using sh by (auto simp: shard_at_def chains_length)
  have H1: "nodes H1 = nodes H" "nodes_brk H1 = nodes_brk H" "tabs_brk H1 = tabs_brk H + 1"
    "tabs H1 (tabs_brk H) = ?nt" "mainDICK H1 s = mainDICK H s" "rehashingTable H1 s = rehashingTable H s"
    "p < tabs_brk H \<Longrightarrow> tabs H1 p = tabs H p" for p
    using sh by (auto simp: H1_def alloc_table_def mainDICK_def rehashingTable_def shard_at_def)
  have a0: "moves_to H N T (put_table (tab0 s) ?nt H1) s (d\<lparr>ht0 := NewDickTable ?n\<rparr>)"
    if "A = []"
  proof -
    have "shard_at (put_table (tab0 s) ?nt H1) s ?E B (d\<lparr>ht0 := NewDickTable ?n\<rparr>)"
      using sh that by (auto simp: shard_at_def heap_simps H1 table_of_new chains_new)
    moreover have "frame H N T (put_table (tab0 s) ?nt H1) (cells ?E B) {tab0 s, tab1 s}"
      using sh that by (auto simp: frame_def heap_simps H1 N T cells_def)
    ultimately show ?thesis by (rule moves_toI)
  qed
  have a1: "moves_to H N T (put_table (tab1 s) ?nt H1) (s\<lparr>ptr_rehashidx := 0\<rparr>)
      (d\<lparr>ht1 := NewDickTable ?n, rehashidx := 0\<rparr>)"
  proof -
    have "shard_at (put_table (tab1 s) ?nt H1) (s\<lparr>ptr_rehashidx := 0\<rparr>) A ?E
        (d\<lparr>ht1 := NewDickTable ?n, rehashidx := 0\<rparr>)"
      using sh by (auto simp: shard_at_def heap_simps H1 table_of_new chains_new)
    then show ?thesis
      by (rule moves_toI) (use sh in \<open>auto simp: frame_def heap_simps H1 N T cells_def\<close>)
  qed
  have r: "moves_to H N T H s d" by (rule moves_to_refl [OF assms])
  have al: "alloc_table ?nt H = (tabs_brk H, H1)" by (simp add: H1_def alloc_table_def)
  have c: "isRehashing d = ptr_isRehashing s" "used (ht0 d) = slot_used (mainDICK H s)"
    "length (table (ht0 d)) = length A"
    by (simp_all add: d isRehashing_def ptr_isRehashing_def)
  show ?thesis
    using a0 a1 r len by (auto simp: ptr_expand_def expand_def Let_def c al H1)
qed

lemma ptr_expandIfNeeded_ok:
  assumes "owns H s N T d" and "ptr_expandIfNeeded H s = (H', s')"
  shows "moves_to H N T H' s' (expandIfNeeded d)"
proof -
  obtain A B where sh: "shard_at H s A B d" using assms by (auto simp: owns_def)
  then have c: "isRehashing d = ptr_isRehashing s" "used (ht0 d) = slot_used (mainDICK H s)"
    "tsize (ht0 d) = slot_size (mainDICK H s)" "length (table (ht0 d)) = length (buckets (mainDICK H s))"
    by (auto simp: shard_at_def isRehashing_def ptr_isRehashing_def chains_length)
  show ?thesis
    using ptr_expand_ok [OF assms(1), of INITIAL_SIZE] moves_to_refl [OF assms(1)] assms(2)
      ptr_expand_ok [OF assms(1), of "slot_used (mainDICK H s) * 2"]
    by (auto simp: ptr_expandIfNeeded_def expandIfNeeded_def c split: if_splits)
qed

subsection \<open>Moving a bucket\<close>

text \<open>One turn of \<open>move_chain\<close>.\<close>

definition move_one :: "'a hash_env_scheme \<Rightarrow> 'v DickEntry \<Rightarrow> 'v SubDICK \<Rightarrow> 'v SubDICK go" where
  "move_one E entry d =
     rbind (hasher E (ekey entry)) (\<lambda>h.
       let X = uint (h AND sizemask (ht1 d))
       in rbind (go_index (table (ht1 d)) X) (\<lambda>chain.
          rbind (go_update (table (ht1 d)) X (entry # chain)) (\<lambda>tb.
            Inr (d\<lparr>ht0 := (ht0 d)\<lparr>used := used (ht0 d) - 1\<rparr>,
                   ht1 := (ht1 d)\<lparr>table := tb, used := used (ht1 d) + 1\<rparr>\<rparr>))))"

lemma rbind_assoc: "rbind (rbind m f) g = rbind m (\<lambda>x. rbind (f x) g)"
  by (cases m) simp_all

lemma rbind_Inr: "rbind m Inr = m"
  by (cases m) simp_all

lemma move_chain_Cons: "move_chain E (e # es) d = rbind (move_one E e d) (move_chain E es)"
  by (simp add: move_one_def rbind_assoc Let_def)

text \<open>What moving the cells \<open>as\<close> leaves: they are in the chains of the second table, the first
  table has a lower counter, and nothing else but the \<open>next\<close> pointers of \<open>as\<close> is different.\<close>

definition moved ::
    "ptr_shard \<Rightarrow> 'v heap \<Rightarrow> 'v SubDICK \<Rightarrow> addr list list \<Rightarrow> addr list \<Rightarrow> 'v heap \<Rightarrow> 'v SubDICK \<Rightarrow>
     addr list list \<Rightarrow> bool" where
  "moved s H d B as H' d' B' \<longleftrightarrow>
     chains (nodes H') (rehashingTable H' s) B' \<and>
     ht1 d' = table_of (nodes H') (rehashingTable H' s) B' \<and>
     mset (concat B') = mset as + mset (concat B) \<and>
     (\<exists>u. mainDICK H' s = (mainDICK H s)\<lparr>slot_used := u\<rparr> \<and> ht0 d' = (ht0 d)\<lparr>used := u\<rparr>) \<and>
     rehashidx d' = rehashidx d \<and>
     entry_at (nodes H') = entry_at (nodes H) \<and> (\<forall>a. a \<notin> set as \<longrightarrow> nodes H' a = nodes H a) \<and>
     nodes_brk H' = nodes_brk H \<and> tabs_brk H' = tabs_brk H \<and>
     (\<forall>p. p \<notin> {tab0 s, tab1 s} \<longrightarrow> tabs H' p = tabs H p)"

lemma move_entry_ok:
  assumes "tab0 s \<noteq> tab1 s" and "chains (nodes H) (rehashingTable H s) B"
    and "a \<notin> set (concat B)" and "ht1 d = table_of (nodes H) (rehashingTable H s) B"
    and "used (ht0 d) = slot_used (mainDICK H s)"
  shows "sim (\<lambda>H' d'. \<exists>B'. moved s H d B [a] H' d' B')
    (Some (move_entry E s a H)) (move_one E (entry_at (nodes H) a) d)"
proof (cases "hasher E (node_key (nodes H a))")
  case (Inl e)
  then show ?thesis by (simp add: move_entry_def move_one_def)
next
  case (Inr h)
  let ?X = "uint (h AND slot_mask (rehashingTable H s))"
  have len: "length (buckets (rehashingTable H s)) = length B" by (rule chains_length [OF assms(2)])
  show ?thesis
  proof (cases "?X < int (length B)")
    case False
    then show ?thesis using len Inr
      by (simp add: move_entry_def move_one_def Let_def assms(4) go_index_fault)
  next
    case True
    then obtain j where j: "?X = int j" "j < length B" by (metis nat_int_comparison(2) uint_nat)
    let ?p = "buckets (rehashingTable H s) ! j"
    let ?nds = "(nodes H)(a := (nodes H a)\<lparr>next_ptr := ?p\<rparr>)"
    have e: "entry_at ?nds = entry_at (nodes H)" by (simp add: entry_at_def fun_eq_iff)
    have B: "chains ?nds (rehashingTable H s) B"
      using assms(2,3) by (subst chains_cong) auto
    have "chain ?nds (Some a) (a # B ! j)" using chains_nth [OF B j(2)] by simp
    from chains_update [OF B this, of j]
    have c: "chains ?nds ((rehashingTable H s)\<lparr>buckets := (buckets (rehashingTable H s))[j := Some a]\<rparr>)
        (B[j := a # B ! j])" .
    have "mset (concat (B[j := a # B ! j])) + mset (B ! j) = mset (concat B) + mset (a # B ! j)"
      by (rule mset_concat_update [OF j(2)])
    then have m: "mset (concat (B[j := a # B ! j])) = add_mset a (mset (concat B))" by simp
    obtain H' where H': "move_entry E s a H = Inr H'" "nodes H' = ?nds" "nodes_brk H' = nodes_brk H"
      "tabs_brk H' = tabs_brk H"
      "rehashingTable H' s = (rehashingTable H s)\<lparr>buckets := (buckets (rehashingTable H s))[j := Some a],
         slot_used := slot_used (rehashingTable H s) + 1\<rparr>"
      "mainDICK H' s = (mainDICK H s)\<lparr>slot_used := slot_used (mainDICK H s) - 1\<rparr>"
      "\<forall>p. p \<notin> {tab0 s, tab1 s} \<longrightarrow> tabs H' p = tabs H p"
      using assms(1) j len Inr by (auto simp: move_entry_def Let_def heap_simps)
    moreover let ?d' = "d\<lparr>ht0 := (ht0 d)\<lparr>used := used (ht0 d) - 1\<rparr>,
      ht1 := (ht1 d)\<lparr>table := (table (ht1 d))[j := entry_at (nodes H) a # map (entry_at (nodes H)) (B ! j)],
         used := used (ht1 d) + 1\<rparr>\<rparr>"
    have "move_one E (entry_at (nodes H) a) d = Inr ?d'"
      using j Inr by (simp add: move_one_def Let_def assms(4))
    moreover have "moved s H d B [a] H' ?d' (B[j := a # B ! j])"
      using H' c m
      by (auto simp: moved_def e assms(4,5) table_of_def map_update
          intro: exI [of _ "slot_used (mainDICK H s) - 1"])
    ultimately show ?thesis by auto
  qed
qed

lemma moved_cells: "moved s H d B as H' d' B' \<Longrightarrow> set (concat B') = set as \<union> set (concat B)"
  unfolding moved_def by (metis set_mset_mset set_mset_union)

lemma moved_Cons:
  assumes "moved s H d B [a] H1 d1 B1" and "moved s H1 d1 B1 as H2 d2 B2"
  shows "moved s H d B (a # as) H2 d2 B2"
  using assms by (auto simp: moved_def)

lemma move_entries_ok:
  assumes "chain (nodes H) p as" and "distinct as" and "set as \<inter> set (concat B) = {}"
    and "tab0 s \<noteq> tab1 s" and "chains (nodes H) (rehashingTable H s) B"
    and "ht1 d = table_of (nodes H) (rehashingTable H s) B"
    and "used (ht0 d) = slot_used (mainDICK H s)"
  shows "sim (\<lambda>H' d'. \<exists>B'. moved s H d B as H' d' B')
    (move_entries E s p H) (move_chain E (map (entry_at (nodes H)) as) d)"
  using assms
proof (induction as arbitrary: p H d B)
  case Nil
  then have "moved s H d B [] H d B"
    by (auto simp: moved_def intro!: exI [of _ "slot_used (mainDICK H s)"])
  with Nil.prems(1) show ?case by (auto simp: move_entries.simps)
next
  case (Cons a as)
  have p: "p = Some a" "chain (nodes H) (next_ptr (nodes H a)) as" using Cons.prems(1) by simp_all
  have a: "a \<notin> set (concat B)" using Cons.prems(3) by auto
  have "move_entries E s p H = gbind (Some (move_entry E s a H)) (move_entries E s (next_ptr (nodes H a)))"
    unfolding p(1) by (subst move_entries.simps) (simp add: gbind_def split: sum.split)
  moreover have "sim (\<lambda>H' d'. \<exists>B'. moved s H d B (a # as) H' d' B')
    (gbind (Some (move_entry E s a H)) (move_entries E s (next_ptr (nodes H a))))
    (rbind (move_one E (entry_at (nodes H) a) d) (move_chain E (map (entry_at (nodes H)) as)))"
  proof (rule sim_bind [OF move_entry_ok [OF Cons.prems(4,5) a Cons.prems(6,7)]])
    fix H1 d1
    assume "\<exists>B1. moved s H d B [a] H1 d1 B1"
    then obtain B1 where m: "moved s H d B [a] H1 d1 B1" by blast
    have same: "nodes H1 x = nodes H x" if "x \<in> set as" for x
      using m Cons.prems(2) that by (auto simp: moved_def)
    have "chain (nodes H1) (next_ptr (nodes H a)) as"
      using p(2) chain_cong [of as "nodes H1" "nodes H"] same by simp
    moreover have "set as \<inter> set (concat B1) = {}"
      using moved_cells [OF m] Cons.prems(2,3) by auto
    ultimately have "sim (\<lambda>H' d'. \<exists>B'. moved s H1 d1 B1 as H' d' B')
        (move_entries E s (next_ptr (nodes H a)) H1) (move_chain E (map (entry_at (nodes H1)) as) d1)"
      using Cons.prems(2,4) m by (intro Cons.IH) (auto simp: moved_def)
    moreover have "entry_at (nodes H1) = entry_at (nodes H)" using m by (simp add: moved_def)
    ultimately show "sim (\<lambda>H' d'. \<exists>B'. moved s H d B (a # as) H' d' B')
        (move_entries E s (next_ptr (nodes H a)) H1) (move_chain E (map (entry_at (nodes H)) as) d1)"
      by (auto elim!: sim_mono intro: moved_Cons [OF m])
  qed
  ultimately show ?case by (simp only: list.map move_chain_Cons)
qed

subsection \<open>Rehashing\<close>

lemma ptr_skip_empty_eq:
  assumes "chains nds t A"
  shows "ptr_skip_empty t i ev = skip_empty (table_of nds t A) i ev"
proof (induction ev arbitrary: i)
  case (Suc ev)
  have "buckets t ! j = None \<longleftrightarrow> A ! j = []" if "j < length A" for j
    using chains_nth [OF assms that] by (cases "A ! j") auto
  then show ?case using chains_length [OF assms] Suc
    by (auto simp: go_index_def nat_less_iff)
qed simp

lemma shard_atD:
  assumes "shard_at H s A B d"
  shows "tab0 s \<noteq> tab1 s" and "chains (nodes H) (mainDICK H s) A"
    and "chains (nodes H) (rehashingTable H s) B"
    and "distinct (concat A @ concat B)"
    and "ht0 d = table_of (nodes H) (mainDICK H s) A"
    and "ht1 d = table_of (nodes H) (rehashingTable H s) B" and "rehashidx d = ptr_rehashidx s"
    and "isRehashing d = ptr_isRehashing s"
    and "length (buckets (mainDICK H s)) = length A" and "length (buckets (rehashingTable H s)) = length B"
  using assms by (auto simp: shard_at_def isRehashing_def ptr_isRehashing_def dest: chains_length)

lemma shard_atI:
  assumes "tab0 s \<noteq> tab1 s" and "tab0 s < tabs_brk H" and "tab1 s < tabs_brk H"
    and "chains (nodes H) (mainDICK H s) A" and "chains (nodes H) (rehashingTable H s) B"
    and "distinct (concat A @ concat B)" and "\<forall>a \<in> cells A B. a < nodes_brk H"
    and "ht0 d = table_of (nodes H) (mainDICK H s) A"
    and "ht1 d = table_of (nodes H) (rehashingTable H s) B" and "rehashidx d = ptr_rehashidx s"
  shows "shard_at H s A B d"
  using assms by (cases d) (simp add: shard_at_def cells_def)

text \<open>After the bucket's entries have moved, its slot is set to nil.\<close>

lemma moved_bucket:
  assumes "shard_at H s A B d" and "moved s H (d\<lparr>rehashidx := i\<rparr>) B (A ! j) H1 d1 B1" and "j < length A"
  defines "H2 \<equiv> put_table (tab0 s) ((mainDICK H1 s)\<lparr>buckets := (buckets (mainDICK H1 s))[j := None]\<rparr>) H1"
  shows "shard_at H2 (s\<lparr>ptr_rehashidx := i + 1\<rparr>) (A[j := []]) B1
      (d1\<lparr>ht0 := (ht0 d1)\<lparr>table := (table (ht0 d1))[j := []]\<rparr>, rehashidx := i + 1\<rparr>)"
    and "frame H (cells A B) {tab0 s, tab1 s} H2 (cells (A[j := []]) B1) {tab0 s, tab1 s}"
proof -
  note sh = shard_atD [OF assms(1)]
  note m = assms(2) [unfolded moved_def]
  have split: "mset (concat (A[j := []])) + mset (A ! j) = mset (concat A)"
    using mset_concat_update [OF assms(3), of "[]"] by simp
  then have ms: "mset (concat (A[j := []]) @ concat B1) = mset (concat A @ concat B)"
    using m by (simp add: ac_simps)
  have cells: "cells (A[j := []]) B1 = cells A B" unfolding cells_def by (rule mset_eq_setD [OF ms])
  have dist: "distinct (concat (A[j := []]) @ concat B1)" by (rule mset_eq_imp_distinct_iff [OF ms, THEN iffD2, OF sh(4)])
  have "distinct (concat (A[j := []]) @ A ! j)"
    using sh(4) split by (metis distinct_append mset_append mset_eq_imp_distinct_iff)
  then have same: "nodes H1 a = nodes H a" if "a \<in> set (concat (A[j := []]))" for a
    using m that by auto
  have "chains (nodes H) ((mainDICK H s)\<lparr>buckets := (buckets (mainDICK H s))[j := None]\<rparr>) (A[j := []])"
    by (rule chains_update [OF sh(2)]) simp
  then have A: "chains (nodes H1) ((mainDICK H s)\<lparr>buckets := (buckets (mainDICK H s))[j := None]\<rparr>) (A[j := []])"
    using same by (subst chains_cong) auto
  then have A': "chains (nodes H1) ((mainDICK H1 s)\<lparr>buckets := (buckets (mainDICK H1 s))[j := None]\<rparr>) (A[j := []])"
    using m by (auto simp: chains_def)
  show "frame H (cells A B) {tab0 s, tab1 s} H2 (cells (A[j := []]) B1) {tab0 s, tab1 s}"
    unfolding cells using m nth_mem [OF assms(3)]
    by (auto simp: frame_def H2_def heap_simps cells_def)
  show "shard_at H2 (s\<lparr>ptr_rehashidx := i + 1\<rparr>) (A[j := []]) B1
      (d1\<lparr>ht0 := (ht0 d1)\<lparr>table := (table (ht0 d1))[j := []]\<rparr>, rehashidx := i + 1\<rparr>)"
  proof (rule shard_atI)
    show "ht0 (d1\<lparr>ht0 := (ht0 d1)\<lparr>table := (table (ht0 d1))[j := []]\<rparr>, rehashidx := i + 1\<rparr>) =
        table_of (nodes H2) (mainDICK H2 (s\<lparr>ptr_rehashidx := i + 1\<rparr>)) (A[j := []])"
      using m sh(5) by (auto simp: H2_def heap_simps table_of_def map_update)
  qed (use assms(1) [unfolded shard_at_def] m A' dist cells in
    \<open>auto simp: H2_def heap_simps cells_def\<close>)
qed

lemma shard_at_idx: "shard_at H s A B d \<Longrightarrow> shard_at H (s\<lparr>ptr_rehashidx := i\<rparr>) A B (d\<lparr>rehashidx := i\<rparr>)"
  by (simp add: shard_at_def heap_simps)

lemma owns_idx: "owns H s N T d \<Longrightarrow> owns H (s\<lparr>ptr_rehashidx := i\<rparr>) N T (d\<lparr>rehashidx := i\<rparr>)"
  unfolding owns_def using shard_at_idx by fastforce

abbreviation loop_result ::
    "'v heap \<Rightarrow> addr set \<Rightarrow> addr set \<Rightarrow> 'v heap \<times> ptr_shard \<times> bool \<Rightarrow> 'v SubDICK \<times> bool \<Rightarrow> bool" where
  "loop_result H N T \<equiv> \<lambda>(H', s', returned') (d', returned). returned' = returned \<and> moves_to H N T H' s' d'"

text \<open>The end of a turn of \<open>rehash\<close>, in which a bucket moves, before the rest of the loop.\<close>

lemma rehash_bucket_ok:
  assumes at: "shard_at H s A B d" and j: "i = int j" "j < length A"
    and rest: "\<And>H' s' N' T' d'. owns H' s' N' T' d' \<Longrightarrow> sim (loop_result H' N' T') (rest H' s') (arest d')"
  shows "sim (loop_result H (cells A B) {tab0 s, tab1 s})
    (gbind (move_entries E (s\<lparr>ptr_rehashidx := i\<rparr>) (buckets (mainDICK H s) ! j) H) (\<lambda>H1.
       gbind (Some (go_update (buckets (mainDICK H1 s)) i None)) (\<lambda>tb.
         rest (put_table (tab0 s) ((mainDICK H1 s)\<lparr>buckets := tb\<rparr>) H1) (s\<lparr>ptr_rehashidx := i + 1\<rparr>))))
    (rbind (move_chain E (table (ht0 d) ! j) (d\<lparr>rehashidx := i\<rparr>)) (\<lambda>d2.
       rbind (go_update (table (ht0 d2)) (rehashidx d2) []) (\<lambda>tb.
         arest (d2\<lparr>ht0 := (ht0 d2)\<lparr>table := tb\<rparr>, rehashidx := rehashidx d2 + 1\<rparr>))))"
proof -
  note sh = shard_atD [OF at]
  have dist: "distinct (A ! j)" "set (A ! j) \<inter> set (concat B) = {}"
    using sh(4) nth_mem [OF j(2)] by (auto simp: distinct_concat_iff)
  have chain: "table (ht0 d) ! j = map (entry_at (nodes H)) (A ! j)" using sh(5) j(2) by simp
  show ?thesis
    unfolding chain
  proof (rule sim_bind [OF move_entries_ok [OF chains_nth [OF sh(2) j(2)] dist]], goal_cases)
    case (5 H1 d1)
    then obtain B1 where m: "moved s H (d\<lparr>rehashidx := i\<rparr>) B (A ! j) H1 d1 B1"
      by (auto simp: moved_def heap_simps)
    have idx: "rehashidx d1 = i" "length (buckets (mainDICK H1 s)) = length (table (ht0 d1))"
      using m sh by (auto simp: moved_def)
    note b = moved_bucket [OF at m j(2)]
    show ?case
      unfolding idx(1)
    proof (rule sim_go_update [OF idx(2)], goal_cases)
      case (1 j')
      then have j': "j' = j" using j(1) by simp
      have "frame H (cells A B) {tab0 s, tab1 s} H2 N2 {tab0 s, tab1 s} \<Longrightarrow>
          sim (loop_result H2 N2 {tab0 s, tab1 s}) c a \<Longrightarrow> sim (loop_result H (cells A B) {tab0 s, tab1 s}) c a"
        for H2 N2 and c :: "('a heap \<times> ptr_shard \<times> bool) go option" and a
        by (auto elim!: sim_mono intro: moves_to_trans)
      from this [OF b(2) rest] show ?case unfolding j' using b(1) unfolding owns_def by fastforce
    qed
  qed (use sh in \<open>simp_all add: heap_simps\<close>)
qed

lemma ptr_rehash_loop_ok:
  assumes "owns H s N T d"
  shows "sim (loop_result H N T) (ptr_rehash_loop E n ev H s) (rehash_loop E n ev d)"
  using assms
proof (induction n arbitrary: ev H s d N T)
  case 0
  then show ?case by (simp add: moves_to_refl)
next
  case (Suc n)
  obtain A B where at: "shard_at H s A B d" and N: "N = cells A B" and T: "T = {tab0 s, tab1 s}"
    using Suc.prems by (auto simp: owns_def)
  note sh = shard_atD [OF at]
  show ?case
  proof (cases "slot_used (mainDICK H s) = 0")
    case True
    then show ?thesis using sh(5) Suc.prems by (simp add: moves_to_refl)
  next
    case False
    have turn: "sim (loop_result H N T)
      (if ev' = 0 then Some (Inr (H, s\<lparr>ptr_rehashidx := i\<rparr>, True))
       else gbind (Some (go_index (buckets (mainDICK H s)) i)) (\<lambda>entry.
         gbind (move_entries E (s\<lparr>ptr_rehashidx := i\<rparr>) entry H) (\<lambda>H1.
         gbind (Some (go_update (buckets (mainDICK H1 s)) i None)) (\<lambda>tb.
           ptr_rehash_loop E n ev' (put_table (tab0 s) ((mainDICK H1 s)\<lparr>buckets := tb\<rparr>) H1)
             (s\<lparr>ptr_rehashidx := i + 1\<rparr>)))))
      (if ev' = 0 then Inr (d\<lparr>rehashidx := i\<rparr>, True)
       else rbind (go_index (table (ht0 d)) i) (\<lambda>chain.
         rbind (move_chain E chain (d\<lparr>rehashidx := i\<rparr>)) (\<lambda>d2.
         rbind (go_update (table (ht0 d2)) (rehashidx d2) []) (\<lambda>tb.
           rehash_loop E n ev'
             (d2\<lparr>ht0 := (ht0 d2)\<lparr>table := tb\<rparr>, rehashidx := rehashidx d2 + 1\<rparr>)))))"
      (is "sim _ (?F i ev') (?G i ev')") for i ev'
    proof (rule sim_if, goal_cases)
      case 2
      then show ?case using owns_idx [OF Suc.prems] by (simp add: moves_to_refl)
    next
      case 3
      show ?case
      proof (rule sim_go_index, goal_cases)
        case (2 j)
        then have "i = int j" "j < length A" using sh(5) by simp_all
        from rehash_bucket_ok [OF at this Suc.IH] show ?case unfolding N T .
      qed (use sh(5,9) in simp)
    qed simp
    let ?skip = "skip_empty (ht0 d) (rehashidx d) ev"
    have "ptr_rehash_loop E (Suc n) ev H s = gbind (Some ?skip) (\<lambda>(i, ev'). ?F i ev')"
      using False sh(5,7) by (simp add: Let_def heap_simps ptr_skip_empty_eq [OF sh(2)] cong: if_cong)
    moreover have "rehash_loop E (Suc n) ev d = rbind ?skip (\<lambda>(i, ev'). ?G i ev')"
      using False sh(5) by (simp add: Let_def cong: if_cong)
    moreover have "sim (loop_result H N T) (gbind (Some ?skip) (\<lambda>(i, ev'). ?F i ev'))
        (rbind ?skip (\<lambda>(i, ev'). ?G i ev'))"
      by (rule sim_same_bind, unfold split_paired_all prod.case, rule turn)
    ultimately show ?thesis by simp
  qed
qed

lemma swap_tables_ok:
  assumes "owns H s N T d" and "alloc_table (ptr_NewDickTable 0) H = (p, H')"
  shows "moves_to H N T H' (s\<lparr>tab0 := tab1 s, tab1 := p, ptr_rehashidx := -1\<rparr>)
    (d\<lparr>ht0 := ht1 d, ht1 := NewDickTable 0, rehashidx := -1\<rparr>)"
proof -
  obtain A B where at: "shard_at H s A B d" and N: "N = cells A B" and T: "T = {tab0 s, tab1 s}"
    using assms by (auto simp: owns_def)
  let ?s = "s\<lparr>tab0 := tab1 s, tab1 := p, ptr_rehashidx := -1\<rparr>"
  have H': "p = tabs_brk H" "nodes H' = nodes H" "nodes_brk H' = nodes_brk H" "tabs_brk H' = tabs_brk H + 1"
    "tabs H' = (tabs H)(p := ptr_NewDickTable 0)"
    using assms(2) by (auto simp: alloc_table_def)
  have "tab1 s \<noteq> p" using at H'(1) by (simp add: shard_at_def)
  then have t: "mainDICK H' ?s = rehashingTable H s" "rehashingTable H' ?s = ptr_NewDickTable 0"
    using H'(5) by (simp_all add: mainDICK_def rehashingTable_def)
  have new: "chains (nodes H') (ptr_NewDickTable 0) []" "table_of (nodes H') (ptr_NewDickTable 0) [] = NewDickTable 0"
    by (simp_all add: chains_def table_of_def ptr_NewDickTable_def NewDickTable_def)
  have "shard_at H' ?s B [] (d\<lparr>ht0 := ht1 d, ht1 := NewDickTable 0, rehashidx := -1\<rparr>)"
    by (rule shard_atI)
      (use at \<open>tab1 s \<noteq> p\<close> new in \<open>auto simp: t [unfolded H'(1)] H' shard_at_def cells_def\<close>)
  then show ?thesis
    by (rule moves_toI) (use at in \<open>auto simp: frame_def H' N T cells_def shard_at_def\<close>)
qed

lemma owns_tables:
  assumes "owns H s N T d"
  shows "used (ht0 d) = slot_used (mainDICK H s)" and "used (ht1 d) = slot_used (rehashingTable H s)"
    and "isRehashing d = ptr_isRehashing s"
  using assms by (auto simp: owns_def dest: shard_atD)

lemma ptr_rehash_ok:
  assumes "owns H s N T d"
  shows "sim (\<lambda>(H', s') d'. moves_to H N T H' s' d') (ptr_rehash E n H s) (rehash E n d)"
proof (cases "ptr_isRehashing s")
  case False
  then show ?thesis using assms owns_tables(3) [OF assms]
    by (simp add: ptr_rehash_def rehash_def moves_to_refl)
next
  case True
  have "sim (\<lambda>(H', s') d'. moves_to H N T H' s' d')
    (gbind (ptr_rehash_loop E n (n * 10) H s) (\<lambda>(H1, s1, returned).
        if returned then Some (Inr (H1, s1))
        else if slot_used (mainDICK H1 s1) = 0
        then let (p, H2) = alloc_table (ptr_NewDickTable 0) H1
             in Some (Inr (H2, s1\<lparr>tab0 := tab1 s1, tab1 := p, ptr_rehashidx := -1\<rparr>))
        else Some (Inr (H1, s1))))
    (rbind (rehash_loop E n (n * 10) d) (\<lambda>(d1, returned).
        if returned then Inr d1
        else if used (ht0 d1) = 0
        then Inr (d1\<lparr>ht0 := ht1 d1, ht1 := NewDickTable 0, rehashidx := -1\<rparr>)
        else Inr d1))"
  proof (rule sim_bind [OF ptr_rehash_loop_ok [OF assms]], unfold split_paired_all prod.case, elim conjE)
    fix H1 s1 d1 and returned' returned :: bool
    assume [simp]: "returned' = returned" and m: "moves_to H N T H1 s1 d1"
    then obtain N1 T1 where o1: "owns H1 s1 N1 T1 d1" and f: "frame H N T H1 N1 T1"
      by (auto simp: moves_to_def)
    obtain p H2 where al: "alloc_table (ptr_NewDickTable 0) H1 = (p, H2)" by fastforce
    show "sim (\<lambda>(H', s') d'. moves_to H N T H' s' d')
      (if returned' then Some (Inr (H1, s1))
        else if slot_used (mainDICK H1 s1) = 0
        then let (p, H2) = alloc_table (ptr_NewDickTable 0) H1
             in Some (Inr (H2, s1\<lparr>tab0 := tab1 s1, tab1 := p, ptr_rehashidx := -1\<rparr>))
        else Some (Inr (H1, s1)))
      (if returned then Inr d1
        else if used (ht0 d1) = 0
        then Inr (d1\<lparr>ht0 := ht1 d1, ht1 := NewDickTable 0, rehashidx := -1\<rparr>)
        else Inr d1)"
      using m owns_tables(1) [OF o1] moves_to_trans [OF f swap_tables_ok [OF o1 al]] by (simp add: al)
  qed
  then show ?thesis using True owns_tables(3) [OF assms] by (simp add: ptr_rehash_def rehash_def)
qed

subsection \<open>Lookup\<close>

definition sel :: "nat \<Rightarrow> 'x \<Rightarrow> 'x \<Rightarrow> 'x" where
  "sel i A B = (if i = 0 then A else B)"

lemma shard_at_table:
  assumes "shard_at H s A B d"
  shows "chains (nodes H) (tabs H (table_ptr i s)) (sel i A B)"
    and "hashTable i d = table_of (nodes H) (tabs H (table_ptr i s)) (sel i A B)"
    and "length (buckets (tabs H (table_ptr i s))) = length (sel i A B)"
  using shard_atD [OF assms]
  by (simp_all add: table_ptr_def sel_def hashTable_def mainDICK_def rehashingTable_def)

text \<open>The cell that a reference of the list program stands for.\<close>

definition ref_at :: "addr list list \<Rightarrow> addr list list \<Rightarrow> addr \<Rightarrow> entry_ref \<Rightarrow> bool" where
  "ref_at A B a r \<longleftrightarrow>
     (let C = sel (ref_table r) A B
      in ref_table r < 2 \<and> ref_bucket r < length C \<and> ref_pos r < length (C ! ref_bucket r) \<and>
         a = C ! ref_bucket r ! ref_pos r)"

lemma ptr_get_loop_ok:
  assumes "shard_at H s A B d" and "\<forall>i \<in> set inds. i < 2"
  shows "sim (rel_option (ref_at A B)) (ptr_get_loop H s k h inds) (get_loop d k h inds)"
  using assms(2)
proof (induction inds)
  case (Cons i inds)
  note t = shard_at_table [OF assms(1), of i]
  let ?m = "slot_mask (tabs H (table_ptr i s))"
  let ?C = "sel i A B"
  have i: "i < 2" and IH: "sim (rel_option (ref_at A B)) (ptr_get_loop H s k h inds) (get_loop d k h inds)"
    using Cons by simp_all
  have "sim (rel_option (ref_at A B))
    (gbind (Some (go_index (buckets (tabs H (table_ptr i s))) (uint (h AND ?m)))) (\<lambda>p.
       Option.bind (find_entry H k p) (\<lambda>entry.
         if entry = None then ptr_get_loop H s k h inds else Some (Inr entry))))
    (rbind (go_index (table (hashTable i d)) (uint (h AND ?m))) (\<lambda>chain.
       case find_pos k chain of
         Some p \<Rightarrow> Inr (Some (EntryRef i (unat (h AND ?m)) p))
       | None \<Rightarrow> get_loop d k h inds))"
  proof (rule sim_go_index)
    fix j
    assume "uint (h AND ?m) = int j" and "j < length (table (hashTable i d))"
    then have j: "j = unat (h AND ?m)" "j < length ?C" using t(2) by (simp_all add: unat_eq_nat_uint)
    have c: "table (hashTable i d) ! j = map (entry_at (nodes H)) (?C ! j)"
      using j(2) by (simp add: t(2))
    show "sim (rel_option (ref_at A B))
      (Option.bind (find_entry H k (buckets (tabs H (table_ptr i s)) ! j)) (\<lambda>entry.
        if entry = None then ptr_get_loop H s k h inds else Some (Inr entry)))
      (case find_pos k (table (hashTable i d) ! j) of
         Some p \<Rightarrow> Inr (Some (EntryRef i (unat (h AND ?m)) p))
       | None \<Rightarrow> get_loop d k h inds)"
    proof (cases "find_pos k (map (entry_at (nodes H)) (?C ! j))")
      case None
      then show ?thesis using IH find_entry_chain [OF chains_nth [OF t(1) j(2)], of k] by (simp add: c)
    next
      case (Some p)
      then have "p < length (?C ! j)" using find_pos_Some by fastforce
      with Some i j(2) show ?thesis unfolding c
        by (simp add: find_entry_chain [OF chains_nth [OF t(1) j(2)]] ref_at_def flip: j(1))
    qed
  qed (simp add: t)
  moreover have "buckets (tabs H (table_ptr i s)) = [] \<longleftrightarrow> ?C = []" using t(3) by auto
  ultimately show ?case using IH shard_atD(8) [OF assms(1)] t(2)
    by (simp add: Let_def get_loop.simps(2))
qed simp

lemma ptr_get_ok:
  assumes "shard_at H s A B d"
  shows "sim (rel_option (ref_at A B)) (ptr_get E H s k) (sub_get E d k)"
  using shard_atD [OF assms] ptr_get_loop_ok [OF assms, of "[0, 1]" k]
  by (auto simp: ptr_get_def sub_get_def intro!: sim_same_bind)

lemma ref_at_value:
  assumes "shard_at H s A B d" and "ref_at A B a r"
  shows "evalue (deref d r) = node_value (nodes H a)"
  using assms(2) shard_at_table(2) [OF assms(1)] by (simp add: deref_def ref_at_def Let_def)

lemma ptr_Get_ok:
  assumes "shard_at H s A B d"
  shows "sim (=) (ptr_Get E H s k) (shard_Get E d k)"
  unfolding ptr_Get_def shard_Get_def
  by (rule sim_bind [OF ptr_get_ok [OF assms]])
    (auto simp: ref_at_value [OF assms] rel_option_iff split: option.splits)

subsection \<open>Changing one bucket\<close>

lemma chains_change:
  assumes "chains nds t A" and "distinct (concat A)" and "X < length A"
    and "\<forall>a \<in> set (concat A). a \<notin> set (A ! X) \<longrightarrow> nds' a = nds a"
    and "chain nds' p as" and "distinct as" and "\<forall>a \<in> set as. a \<in> set (A ! X) \<or> a \<notin> set (concat A)"
  shows "chains nds' (t\<lparr>buckets := (buckets t)[X := p]\<rparr>) (A[X := as])"
    and "distinct (concat (A[X := as]))"
    and "map (map (entry_at nds')) (A[X := as]) =
      (map (map (entry_at nds)) A)[X := map (entry_at nds') as]"
proof -
  let ?R = "concat (A[X := []])"
  have 2: "mset (concat A) = mset (?R @ A ! X)"
    using mset_concat_update [OF assms(3), of "[]"] by simp
  have "mset (concat (A[X := as])) + mset (A ! X) = mset (?R @ as) + mset (A ! X)"
    using mset_concat_update [OF assms(3), of as] by (simp add: 2 ac_simps)
  then have 1: "mset (concat (A[X := as])) = mset (?R @ as)" by (rule add_right_imp_eq)
  have d: "distinct (?R @ A ! X)" and r: "set ?R \<union> set (A ! X) = set (concat A)"
    using mset_eq_imp_distinct_iff [OF 2] mset_eq_setD [OF 2] assms(2) by simp_all
  have other: "set (A ! j) \<inter> set (A ! X) = {}" if "j < length A" "j \<noteq> X" for j
  proof -
    have "A ! j \<in> set (A[X := []])" using that by (metis length_list_update nth_list_update_neq nth_mem)
    then have "set (A ! j) \<subseteq> set ?R" by auto
    then show ?thesis using d by auto
  qed
  have same: "nds' a = nds a" if "a \<in> set (A ! j)" "j < length A" "j \<noteq> X" for a j
  proof -
    have "a \<in> set (concat A)" using that(1) nth_mem [OF that(2)] by auto
    moreover have "a \<notin> set (A ! X)" using that(1) other [OF that(2,3)] by auto
    ultimately show ?thesis using assms(4) by blast
  qed
  show "chains nds' (t\<lparr>buckets := (buckets t)[X := p]\<rparr>) (A[X := as])"
    unfolding chains_def list_all2_conv_all_nth
  proof (intro conjI allI impI)
    show len: "length (buckets (t\<lparr>buckets := (buckets t)[X := p]\<rparr>)) = length (A[X := as])"
      using chains_length [OF assms(1)] by simp
    fix j
    assume "j < length (buckets (t\<lparr>buckets := (buckets t)[X := p]\<rparr>))"
    then have j: "j < length A" using len by simp
    show "chain nds' (buckets (t\<lparr>buckets := (buckets t)[X := p]\<rparr>) ! j) (A[X := as] ! j)"
    proof (cases "j = X")
      case True
      then show ?thesis using j assms(5) chains_length [OF assms(1)] by simp
    next
      case False
      then show ?thesis
        using chains_nth [OF assms(1) j] chain_cong [of "A ! j" nds' nds] same [OF _ j False] by simp
    qed
  qed
  show "map (map (entry_at nds')) (A[X := as]) =
      (map (map (entry_at nds)) A)[X := map (entry_at nds') as]"
  proof (rule nth_equalityI)
    fix j
    assume "j < length (map (map (entry_at nds')) (A[X := as]))"
    then have j: "j < length A" by simp
    have "map (entry_at nds') (A ! j) = map (entry_at nds) (A ! j)" if "j \<noteq> X"
      using same [OF _ j that] by (auto simp: entry_at_def)
    then show "map (map (entry_at nds')) (A[X := as]) ! j =
        (map (map (entry_at nds)) A)[X := map (entry_at nds') as] ! j"
      using j by (cases "j = X") simp_all
  qed simp
    have "set ?R \<inter> set as = {}" using assms(7) d r by (auto simp del: set_concat)
  then have "distinct (?R @ as)" using assms(6) d by simp
  then show "distinct (concat (A[X := as]))" using mset_eq_imp_distinct_iff [OF 1] by simp
qed

text \<open>A change of one bucket \<open>X\<close> of table \<open>i\<close> whose chain becomes \<open>as\<close>, made of its old cells and
  fresh ones: first the chains and the cells of the shard, then the shard.\<close>

definition upd_chain :: "nat \<Rightarrow> nat \<Rightarrow> nat \<Rightarrow> addr list \<Rightarrow> addr list list \<Rightarrow> addr list list" where
  "upd_chain i j X as C = (if i = j then C[X := as] else C)"

lemma bucket_cells:
  assumes at: "shard_at H s A B d" and i: "i = 0 \<or> i = 1" and X: "X < length (sel i A B)"
    and same: "\<forall>a < nodes_brk H. a \<notin> set (sel i A B ! X) \<longrightarrow> nds' a = nodes H a"
    and new: "chain nds' p as" "distinct as"
      "\<forall>a \<in> set as. a \<in> set (sel i A B ! X) \<or> nodes_brk H \<le> a"
  defines "C \<equiv> sel i A B" and "R \<equiv> sel (1 - i) A B" and "t \<equiv> tabs H (table_ptr i s)"
    and "A' \<equiv> upd_chain i 0 X as A" and "B' \<equiv> upd_chain i 1 X as B"
  shows "chains nds' (t\<lparr>buckets := (buckets t)[X := p]\<rparr>) (C[X := as])"
    and "map (map (entry_at nds')) (C[X := as]) =
      (map (map (entry_at (nodes H))) C)[X := map (entry_at nds') as]"
    and "chains nds' t' R = chains (nodes H) t' R" and "table_of nds' t' R = table_of (nodes H) t' R"
    and "cells A' B' \<subseteq> cells A B \<union> set as" and "distinct (concat A' @ concat B')"
proof -
  have lt: "\<forall>a \<in> cells A B. a < nodes_brk H" and dC: "distinct (concat C)" and dR: "distinct (concat R)"
    and dCR: "set (concat C) \<inter> set (concat R) = {}" and CR: "cells A B = set (concat C) \<union> set (concat R)"
    using at i by (auto simp: shard_at_def cells_def sel_def C_def R_def)
  have as: "\<forall>a \<in> set as. a \<in> set (C ! X) \<or> a \<notin> cells A B" using new(3) lt unfolding C_def by fastforce
  have sub: "set (C ! X) \<subseteq> set (concat C)" using nth_mem [OF X] by (auto simp: C_def)
  have c: "chains nds' (t\<lparr>buckets := (buckets t)[X := p]\<rparr>) (C[X := as])" "distinct (concat (C[X := as]))"
    "map (map (entry_at nds')) (C[X := as]) = (map (map (entry_at (nodes H))) C)[X := map (entry_at nds') as]"
    using chains_change [OF shard_at_table(1) [OF at] dC [unfolded C_def] X, of nds' p as] same new(1,2) as lt
    unfolding CR C_def t_def by (auto simp del: set_concat)
  then show "chains nds' (t\<lparr>buckets := (buckets t)[X := p]\<rparr>) (C[X := as])"
    and "map (map (entry_at nds')) (C[X := as]) =
      (map (map (entry_at (nodes H))) C)[X := map (entry_at nds') as]" by simp_all
  have "nds' a = nodes H a" if "a \<in> set (concat R)" for a
    using that same lt sub dCR unfolding CR C_def by blast
  then show "chains nds' t' R = chains (nodes H) t' R" "table_of nds' t' R = table_of (nodes H) t' R"
    by (auto intro!: chains_cong table_of_cong simp: entry_at_def)
  have Cs: "set (concat (C[X := as])) \<subseteq> set (concat C) \<union> set as" by (rule set_concat_update)
  have "cells A' B' = set (concat (C[X := as])) \<union> set (concat R)"
    using i by (auto simp: A'_def B'_def C_def R_def cells_def sel_def upd_chain_def)
  then show "cells A' B' \<subseteq> cells A B \<union> set as" using Cs unfolding CR by blast
  have "set (concat (C[X := as])) \<inter> set (concat R) = {}" using Cs dCR as sub unfolding CR by blast
  then show "distinct (concat A' @ concat B')"
    using c(2) dR i by (auto simp: A'_def B'_def C_def R_def sel_def upd_chain_def Int_commute simp del: set_concat)
qed

lemma bucket_change:
  assumes at: "shard_at H s A B d" and "i < 2" and X: "X < length (sel i A B)"
    and brk: "nodes_brk H \<le> nodes_brk H'" "tabs_brk H' = tabs_brk H"
    and tabs: "tabs H' = (tabs H)(table_ptr i s :=
      (tabs H (table_ptr i s))\<lparr>buckets := (buckets (tabs H (table_ptr i s)))[X := p], slot_used := u\<rparr>)"
    and same: "\<forall>a < nodes_brk H. a \<notin> set (sel i A B ! X) \<longrightarrow> nodes H' a = nodes H a"
    and new: "chain (nodes H') p as" "distinct as"
      "\<forall>a \<in> set as. a < nodes_brk H' \<and> (a \<in> set (sel i A B ! X) \<or> nodes_brk H \<le> a)"
  shows "moves_to H (cells A B) {tab0 s, tab1 s} H' s
    (set_hashTable i ((hashTable i d)\<lparr>table :=
       (table (hashTable i d))[X := map (entry_at (nodes H')) as], used := u\<rparr>) d)"
proof -
  let ?A = "upd_chain i 0 X as A" and ?B = "upd_chain i 1 X as B"
  let ?d = "set_hashTable i ((hashTable i d)\<lparr>table :=
    (table (hashTable i d))[X := map (entry_at (nodes H')) as], used := u\<rparr>) d"
  have i: "i = 0 \<or> i = 1" using assms(2) by linarith
  have new3: "\<forall>a \<in> set as. a \<in> set (sel i A B ! X) \<or> nodes_brk H \<le> a" using new(3) by blast
  note b = bucket_cells [OF at i X same new(1,2) new3]
  note sh = shard_atD [OF at] and shi = at [unfolded shard_at_def]
  have lt: "\<forall>a \<in> cells A B. a < nodes_brk H" using shi by (simp add: cells_def)
  have lt': "\<forall>a \<in> cells ?A ?B. a < nodes_brk H'"
    using b(5) lt brk(1) new(3) by (meson UnE less_le_trans subsetD)
  have sub: "set (sel i A B ! X) \<subseteq> cells A B"
    using nth_mem [OF X] by (auto simp: sel_def cells_def split: if_splits)
  have "\<forall>a \<in> cells ?A ?B. a \<in> cells A B \<or> nodes_brk H \<le> a" using b(5) new3 sub by blast
  moreover have "\<forall>a < nodes_brk H. a \<notin> cells A B \<longrightarrow> nodes H' a = nodes H a" using same sub by blast
  ultimately have f: "frame H (cells A B) {tab0 s, tab1 s} H' (cells ?A ?B) {tab0 s, tab1 s}"
    using brk by (simp add: frame_def tabs table_ptr_def)
  have m: "tab0 s \<noteq> tab1 s" "tab0 s < tabs_brk H'" "tab1 s < tabs_brk H'" using shi brk by simp_all
  have t: "mainDICK H' s = (if i = 0 then (mainDICK H s)\<lparr>buckets := (buckets (mainDICK H s))[X := p], slot_used := u\<rparr>
      else mainDICK H s)"
    "rehashingTable H' s = (if i = 1 then (rehashingTable H s)\<lparr>buckets := (buckets (rehashingTable H s))[X := p],
      slot_used := u\<rparr> else rehashingTable H s)"
    using i m(1) by (auto simp: tabs mainDICK_def rehashingTable_def table_ptr_def)
  have "shard_at H' s ?A ?B ?d"
  proof (rule shard_atI)
    show "chains (nodes H') (mainDICK H' s) ?A" "chains (nodes H') (rehashingTable H' s) ?B"
      using i b(1,3) sh(2,3) by (auto simp: t upd_chain_def sel_def table_ptr_def chains_def
          simp flip: mainDICK_def rehashingTable_def)
    show "ht0 ?d = table_of (nodes H') (mainDICK H' s) ?A" "ht1 ?d = table_of (nodes H') (rehashingTable H' s) ?B"
      "rehashidx ?d = ptr_rehashidx s"
      using i b(2,4) sh(5,6,7) by (auto simp: t upd_chain_def sel_def hashTable_def set_hashTable_def table_of_def)
  qed (use m lt' b(6) in simp_all)
  then show ?thesis using f by (rule moves_toI)
qed

subsection \<open>Storing a value\<close>

lemma put_value_ok:
  assumes at: "shard_at H s A B d" and r: "ref_at A B a r"
  shows "moves_to H (cells A B) {tab0 s, tab1 s} (put_value a v H) s (set_value r v d)"
proof -
  let ?i = "ref_table r" and ?X = "ref_bucket r"
  let ?C = "sel ?i A B" and ?t = "tabs H (table_ptr ?i s)"
  note t = shard_at_table [OF at, of ?i]
  have X: "?X < length ?C" "ref_pos r < length (?C ! ?X)" "a = ?C ! ?X ! ref_pos r"
    and i: "?i < 2"
    using r by (simp_all add: ref_at_def Let_def)
  have dist: "distinct (?C ! ?X)"
    using shard_atD(4) [OF at] nth_mem [OF X(1)] by (auto simp: sel_def distinct_concat_iff split: if_splits)
  have a: "a \<in> set (?C ! ?X)" using X by simp
  have lt: "\<forall>x \<in> set (?C ! ?X). x < nodes_brk H"
    using at nth_mem [OF X(1)] by (auto simp: shard_at_def sel_def split: if_splits)
  have "chain (nodes (put_value a v H)) (buckets ?t ! ?X) (?C ! ?X)"
    using chains_nth [OF t(1) X(1)] by (subst chain_cong [of _ _ "nodes H"]) (simp_all add: put_value_def)
  then have m: "moves_to H (cells A B) {tab0 s, tab1 s} (put_value a v H) s
    (set_hashTable ?i ((hashTable ?i d)\<lparr>table := (table (hashTable ?i d))[?X :=
       map (entry_at (nodes (put_value a v H))) (?C ! ?X)], used := slot_used ?t\<rparr>) d)"
    using a dist lt by (intro bucket_change [OF at i X(1)]) (auto simp: put_value_def)
  have "map (entry_at (nodes (put_value a v H))) (?C ! ?X) =
      (map (entry_at (nodes H)) (?C ! ?X))[ref_pos r := (entry_at (nodes H) a)\<lparr>evalue := v\<rparr>]"
    using X dist by (intro nth_equalityI)
      (auto simp: nth_list_update put_value_def entry_at_def nth_eq_iff_index_eq)
  moreover have "(hashTable ?i d)\<lparr>table := tb, used := slot_used ?t\<rparr> = (hashTable ?i d)\<lparr>table := tb\<rparr>" for tb
    by (simp add: t(2) table_of_def)
  moreover have "table (hashTable ?i d) ! ?X = map (entry_at (nodes H)) (?C ! ?X)"
    "map (entry_at (nodes H)) (?C ! ?X) ! ref_pos r = entry_at (nodes H) a"
    using t(2) X by simp_all
  ultimately show ?thesis using m by (simp add: set_value_def Let_def)
qed

subsection \<open>Insertion\<close>

lemma ptr_keyIndex_loop_ok:
  assumes "shard_at H s A B d"
  shows "sim (=) (ptr_keyIndex_loop H s k h inds index) (keyIndex_loop d k h inds index)"
proof (induction inds arbitrary: index)
  case (Cons i inds)
  note t = shard_at_table [OF assms, of i]
  let ?m = "slot_mask (tabs H (table_ptr i s))"
  let ?C = "sel i A B"
  have "sim (=)
    (gbind (Some (go_index (buckets (tabs H (table_ptr i s))) (sint (h AND ?m)))) (\<lambda>p.
       Option.bind (find_entry H k p) (\<lambda>entry.
         if entry \<noteq> None then Some (Inr (-1))
         else if sint (h AND ?m) = -1 \<or> \<not> ptr_isRehashing s then Some (Inr (sint (h AND ?m)))
         else ptr_keyIndex_loop H s k h inds (sint (h AND ?m)))))
    (rbind (go_index (table (hashTable i d)) (sint (h AND ?m))) (\<lambda>chain.
       if find_pos k chain \<noteq> None then Inr (-1)
       else if sint (h AND ?m) = -1 \<or> \<not> isRehashing d then Inr (sint (h AND ?m))
       else keyIndex_loop d k h inds (sint (h AND ?m))))"
  proof (rule sim_go_index)
    fix j
    assume ij: "sint (h AND ?m) = int j" and "j < length (table (hashTable i d))"
    then have j: "j < length ?C" using t(2) by simp
    have c: "table (hashTable i d) ! j = map (entry_at (nodes H)) (?C ! j)" using j by (simp add: t(2))
    show "sim (=)
      (Option.bind (find_entry H k (buckets (tabs H (table_ptr i s)) ! j)) (\<lambda>entry.
         if entry \<noteq> None then Some (Inr (-1))
         else if sint (h AND ?m) = -1 \<or> \<not> ptr_isRehashing s then Some (Inr (sint (h AND ?m)))
         else ptr_keyIndex_loop H s k h inds (sint (h AND ?m))))
      (if find_pos k (table (hashTable i d) ! j) \<noteq> None then Inr (-1)
       else if sint (h AND ?m) = -1 \<or> \<not> isRehashing d then Inr (sint (h AND ?m))
       else keyIndex_loop d k h inds (sint (h AND ?m)))"
      unfolding c find_entry_chain [OF chains_nth [OF t(1) j]]
      using Cons.IH shard_atD(8) [OF assms] by simp
  qed (simp add: t)
  moreover have "sizemask (hashTable i d) = ?m" using t(2) by simp
  ultimately show ?case by (simp only: ptr_keyIndex_loop.simps keyIndex_loop.simps Let_def)
qed simp

lemma ptr_keyIndex_ok:
  assumes "owns H s N T d"
  shows "sim (\<lambda>(H', s', i') (d', i). i' = i \<and> moves_to H N T H' s' d') (ptr_keyIndex E H s k) (keyIndex E d k)"
proof -
  obtain H1 s1 where e: "ptr_expandIfNeeded H s = (H1, s1)" by fastforce
  note m = ptr_expandIfNeeded_ok [OF assms e]
  then obtain A B where at: "shard_at H1 s1 A B (expandIfNeeded d)" unfolding moves_to_def owns_def by blast
  show ?thesis
    unfolding ptr_keyIndex_def keyIndex_def e Let_def prod.case
    by (rule sim_same_bind, rule sim_bind [OF ptr_keyIndex_loop_ok [OF at]]) (use m in simp)
qed

lemma ptr_push_entry_ok:
  assumes at: "shard_at H s A B d" and i: "i < 2" and X: "X = int j" and j: "j < length (sel i A B)"
  shows "sim (\<lambda>H' tb. moves_to H (cells A B) {tab0 s, tab1 s} H' s
      (set_hashTable i ((hashTable i d)\<lparr>table := tb, used := used (hashTable i d) + 1\<rparr>) d))
    (Some (push_entry H (table_ptr i s) X k v))
    (go_update (table (hashTable i d)) X (NewDickEntry k v # table (hashTable i d) ! j))"
proof -
  note t = shard_at_table [OF at, of i]
  let ?C = "sel i A B" and ?t = "tabs H (table_ptr i s)"
  let ?a = "nodes_brk H"
  have len: "length (table (hashTable i d)) = length ?C" using t(2) by simp
  let ?p = "buckets ?t ! j"
  let ?nds = "(nodes H)(?a := \<lparr>next_ptr = ?p, node_key = k, node_value = v\<rparr>)"
  have lt: "\<forall>x \<in> set (?C ! j). x < ?a" and dist: "distinct (?C ! j)"
    using at nth_mem [OF j] by (auto simp: shard_at_def sel_def distinct_concat_iff split: if_splits)
  define H' where "H' = H\<lparr>nodes := ?nds, nodes_brk := ?a + 1, tabs := (tabs H)(table_ptr i s :=
    ?t\<lparr>buckets := (buckets ?t)[j := Some ?a], slot_used := slot_used ?t + 1\<rparr>)\<rparr>"
  have H': "push_entry H (table_ptr i s) X k v = Inr H'" "nodes H' = ?nds"
    "nodes_brk H' = ?a + 1" "tabs_brk H' = tabs_brk H"
    "tabs H' = (tabs H)(table_ptr i s := ?t\<lparr>buckets := (buckets ?t)[j := Some ?a], slot_used := slot_used ?t + 1\<rparr>)"
    using j t(3) by (simp_all add: X H'_def push_entry_def alloc_node_def put_next_def put_table_def
        Let_def ptr_NewDickEntry_def)
  have same: "\<forall>x \<in> set (?C ! j). ?nds x = nodes H x" using lt by auto
  have "chain ?nds ?p (?C ! j)"
    using chains_nth [OF t(1) j] same by (subst chain_cong [of _ _ "nodes H"]) auto
  then have m: "moves_to H (cells A B) {tab0 s, tab1 s} H' s
    (set_hashTable i ((hashTable i d)\<lparr>table := (table (hashTable i d))[j :=
       map (entry_at (nodes H')) (?a # ?C ! j)], used := slot_used ?t + 1\<rparr>) d)"
    using lt dist by (intro bucket_change [OF at i j]) (auto simp: H')
  have "map (entry_at (nodes H')) (?a # ?C ! j) = NewDickEntry k v # table (hashTable i d) ! j"
    using same t(2) j by (auto simp: H'(2) entry_at_def NewDickEntry_def)
  from m [unfolded this] show ?thesis using j len t(2) by (simp add: X H'(1) [unfolded X])
qed

lemma moves_to_rehashing: "moves_to H N T H' s' d' \<Longrightarrow> isRehashing d' = ptr_isRehashing s'"
  by (auto simp: moves_to_def dest: owns_tables(3))

lemma ptr_rehashStep_ok:
  assumes "owns H s N T d"
  shows "sim (\<lambda>(H', s') d'. moves_to H N T H' s' d') (ptr_rehashStep E H s) (rehashStep E d)"
  unfolding ptr_rehashStep_def rehashStep_def by (rule ptr_rehash_ok [OF assms])

text \<open>The step that \<open>add\<close> and \<open>del\<close> make while a rehash is going on.\<close>

lemma ptr_add_step_ok:
  assumes "owns H s N T d"
  shows "sim (\<lambda>(H', s', w') (d', w). w' = w \<and> w < 2 \<and> moves_to H N T H' s' d')
    (if ptr_isRehashing s
     then gbind (ptr_rehashStep E H s) (\<lambda>(H2, s2). Some (Inr (H2, s2, if ptr_isRehashing s2 then 1 else 0)))
     else Some (Inr (H, s, 0)))
    (if isRehashing d
     then rbind (rehashStep E d) (\<lambda>d2. Inr (d2, if isRehashing d2 then 1 else 0))
     else Inr (d, 0 :: nat))"
proof (cases "ptr_isRehashing s")
  case True
  have "sim (\<lambda>(H', s', w') (d', w). w' = w \<and> w < 2 \<and> moves_to H N T H' s' d')
    (gbind (ptr_rehashStep E H s) (\<lambda>(H2, s2). Some (Inr (H2, s2, if ptr_isRehashing s2 then 1 else 0))))
    (rbind (rehashStep E d) (\<lambda>d2. Inr (d2, if isRehashing d2 then 1 else 0 :: nat)))"
    by (rule sim_bind [OF ptr_rehashStep_ok [OF assms]]) (auto dest: moves_to_rehashing)
  then show ?thesis using True owns_tables(3) [OF assms] by simp
next
  case False
  then show ?thesis using owns_tables(3) [OF assms] moves_to_refl [OF assms] by simp
qed

lemma ptr_insert_ok:
  assumes at: "shard_at H s A B d" and i: "i < 2"
  shows "sim (\<lambda>(H', s', e') (d', e). e' = e \<and> moves_to H (cells A B) {tab0 s, tab1 s} H' s' d')
    (gbind (Some (go_index (buckets (tabs H (table_ptr i s))) X)) (\<lambda>head.
       Option.bind (find_entry H k head) (\<lambda>entry.
         if entry = None
         then gbind (Some (push_entry H (table_ptr i s) X k v)) (\<lambda>H3. Some (Inr (H3, s, None)))
         else Some (Inr (H, s, None)))))
    (rbind (go_index (table (hashTable i d)) X) (\<lambda>chain.
       if find_pos k chain = None
       then rbind (go_update (table (hashTable i d)) X (NewDickEntry k v # chain)) (\<lambda>tb.
              Inr (set_hashTable i ((hashTable i d)\<lparr>table := tb, used := used (hashTable i d) + 1\<rparr>) d, None))
       else Inr (d, None)))" (is "sim ?R _ _")
proof (rule sim_go_index)
  note t = shard_at_table [OF at, of i]
  show "length (buckets (tabs H (table_ptr i s))) = length (table (hashTable i d))" using t by simp
  fix j
  assume X: "X = int j" and "j < length (table (hashTable i d))"
  then have j: "j < length (sel i A B)" using t(2) by simp
  have c: "table (hashTable i d) ! j = map (entry_at (nodes H)) (sel i A B ! j)" using j by (simp add: t(2))
  have refl: "moves_to H (cells A B) {tab0 s, tab1 s} H s d"
    by (rule moves_to_refl) (use at in \<open>auto simp: owns_def\<close>)
  have push: "sim ?R (gbind (Some (push_entry H (table_ptr i s) X k v)) (\<lambda>H3. Some (Inr (H3, s, None))))
    (rbind (go_update (table (hashTable i d)) X (NewDickEntry k v # table (hashTable i d) ! j)) (\<lambda>tb.
       Inr (set_hashTable i ((hashTable i d)\<lparr>table := tb, used := used (hashTable i d) + 1\<rparr>) d, None)))"
    by (rule sim_bind [OF ptr_push_entry_ok [OF at i X j, of k v]]) simp
  show "sim ?R
      (Option.bind (find_entry H k (buckets (tabs H (table_ptr i s)) ! j)) (\<lambda>entry.
         if entry = None
         then gbind (Some (push_entry H (table_ptr i s) X k v)) (\<lambda>H3. Some (Inr (H3, s, None)))
         else Some (Inr (H, s, None))))
      (if find_pos k (table (hashTable i d) ! j) = None
       then rbind (go_update (table (hashTable i d)) X (NewDickEntry k v # table (hashTable i d) ! j)) (\<lambda>tb.
              Inr (set_hashTable i ((hashTable i d)\<lparr>table := tb, used := used (hashTable i d) + 1\<rparr>) d, None))
       else Inr (d, None))"
    using push refl unfolding c find_entry_chain [OF chains_nth [OF t(1) j]] by simp
qed

abbreviation same_answer ::
    "'v heap \<Rightarrow> addr set \<Rightarrow> addr set \<Rightarrow> 'v heap \<times> ptr_shard \<times> 'e \<Rightarrow> 'v SubDICK \<times> 'e \<Rightarrow> bool" where
  "same_answer H N T \<equiv> \<lambda>(H', s', e') (d', e). e' = e \<and> moves_to H N T H' s' d'"

lemma same_answer_trans:
  assumes "frame H N T H1 N1 T1" and "sim (same_answer H1 N1 T1) c a"
  shows "sim (same_answer H N T) c a"
  using assms(2) by (rule sim_mono) (auto intro: moves_to_trans [OF assms(1)])

lemma ptr_add_ok:
  assumes "owns H s N T d"
  shows "sim (same_answer H N T) (ptr_add E H s k v) (add E d k v)"
  unfolding ptr_add_def add_def
proof (rule sim_bind [OF ptr_keyIndex_ok [OF assms]], unfold split_paired_all prod.case, goal_cases)
  case (1 H1 s1 X d1 X')
  then have X: "X = X'" and m1: "moves_to H N T H1 s1 d1" by simp_all
  then obtain N1 T1 where o1: "owns H1 s1 N1 T1 d1" and f1: "frame H N T H1 N1 T1"
    by (auto simp: moves_to_def)
  show ?case
  proof (rule sim_if, goal_cases)
    case 3
    show ?case
    proof (rule sim_bind [OF ptr_add_step_ok [OF o1]], unfold split_paired_all prod.case Let_def, goal_cases)
      case (1 H2 s2 w d2 w')
      then have eq: "w = w'" and w: "w' < 2" and "moves_to H1 N1 T1 H2 s2 d2" by simp_all
      then obtain A B where "frame H1 N1 T1 H2 (cells A B) {tab0 s2, tab1 s2}" and at: "shard_at H2 s2 A B d2"
        unfolding moves_to_def owns_def by blast
      then have "frame H N T H2 (cells A B) {tab0 s2, tab1 s2}" using frame_trans [OF f1] by blast
      from same_answer_trans [OF this ptr_insert_ok [OF at w]] show ?case unfolding eq X .
    qed
  qed (use m1 X in simp_all)
qed

subsection \<open>Deletion\<close>

lemma chain_unlink:
  assumes "chain nds p as" and "distinct as" and "j < length as"
  shows "previous_at None as j = None \<Longrightarrow> chain nds (next_ptr (nds (as ! j))) (remove_at j as)"
    and "previous_at None as j = Some b \<Longrightarrow> b \<in> set as \<and>
      chain (nds(b := (nds b)\<lparr>next_ptr := next_ptr (nds (as ! j))\<rparr>)) p (remove_at j as)"
proof -
  assume "previous_at None as j = None"
  then have [simp]: "j = 0" by (simp add: previous_at_def split: if_splits)
  show "chain nds (next_ptr (nds (as ! j))) (remove_at j as)"
    using assms(1,3) by (cases as) (auto simp: remove_at_def)
next
  assume "previous_at None as j = Some b"
  then obtain i where i: "j = Suc i" "b = as ! i" by (cases j) (auto simp: previous_at_def)
  then have as: "as = take i as @ b # as ! j # drop (Suc j) as"
    using assms(3) by (metis Cons_nth_drop_Suc Suc_lessD append_take_drop_id)
  have "remove_at j as = take i as @ b # drop (Suc j) as"
    using assms(3) i by (simp add: remove_at_def take_Suc_conv_app_nth)
  then show "b \<in> set as \<and> chain (nds(b := (nds b)\<lparr>next_ptr := next_ptr (nds (as ! j))\<rparr>)) p (remove_at j as)"
    using chain_skip [OF subst [OF as, of "chain nds p", OF assms(1)] subst [OF as, of distinct, OF assms(2)]]
      assms(3) i by simp
qed

lemma set_remove_at: "set (remove_at j as) \<subseteq> set as"
  unfolding remove_at_def by (auto dest: in_set_takeD in_set_dropD)

lemma distinct_remove_at: "distinct as \<Longrightarrow> distinct (remove_at j as)"
  unfolding remove_at_def by (auto simp: set_take_disj_set_drop_if_distinct)

lemma unlink_entry_ok:
  assumes at: "shard_at H s A B d" and i: "i < 2" and X: "X = int x" "x < length (sel i A B)"
    and j: "j < length (sel i A B ! x)"
  defines "as \<equiv> sel i A B ! x"
  shows "sim (\<lambda>H' d'. moves_to H (cells A B) {tab0 s, tab1 s} H' s d')
    (Some (unlink_entry H (table_ptr i s) X (previous_at None as j) (as ! j)))
    (rbind (go_update (table (hashTable i d)) X (remove_at j (table (hashTable i d) ! x))) (\<lambda>tb.
       Inr (set_hashTable i ((hashTable i d)\<lparr>table := tb, used := used (hashTable i d) - 1\<rparr>) d)))"
proof -
  note t = shard_at_table [OF at, of i]
  let ?t = "tabs H (table_ptr i s)"
  have lt: "\<forall>a \<in> set as. a < nodes_brk H" and dist: "distinct as"
    using at nth_mem [OF X(2)] by (auto simp: as_def shard_at_def sel_def distinct_concat_iff split: if_splits)
  note un = chain_unlink [OF chains_nth [OF t(1) X(2)] dist [unfolded as_def] j, folded as_def]
  obtain p H' where H': "unlink_entry H (table_ptr i s) X (previous_at None as j) (as ! j) = Inr H'"
    "tabs H' = (tabs H)(table_ptr i s := ?t\<lparr>buckets := (buckets ?t)[x := p], slot_used := slot_used ?t - 1\<rparr>)"
    "chain (nodes H') p (remove_at j as)" "nodes_brk H' = nodes_brk H" "tabs_brk H' = tabs_brk H"
    "\<forall>a. a \<notin> set as \<longrightarrow> nodes H' a = nodes H a" "entry_at (nodes H') = entry_at (nodes H)"
  proof (cases "previous_at None as j")
    case None
    let ?p = "next_ptr (nodes H (as ! j))"
    let ?H = "H\<lparr>tabs := (tabs H)(table_ptr i s := ?t\<lparr>buckets := (buckets ?t)[x := ?p], slot_used := slot_used ?t - 1\<rparr>)\<rparr>"
    have "unlink_entry H (table_ptr i s) X (previous_at None as j) (as ! j) = Inr ?H"
      using None X t(3) by (simp add: unlink_entry_def put_table_def)
    then show ?thesis by (rule that [of ?H ?p]) (use un(1) [OF None] in simp_all)
  next
    case (Some b)
    let ?n = "(nodes H)(b := (nodes H b)\<lparr>next_ptr := next_ptr (nodes H (as ! j))\<rparr>)"
    let ?H = "H\<lparr>nodes := ?n, tabs := (tabs H)(table_ptr i s := ?t\<lparr>slot_used := slot_used ?t - 1\<rparr>)\<rparr>"
    have "unlink_entry H (table_ptr i s) X (previous_at None as j) (as ! j) = Inr ?H"
      using Some by (simp add: unlink_entry_def put_table_def put_next_def)
    then show ?thesis
      by (rule that [of ?H "buckets ?t ! x"]) (use un(2) [OF Some] in \<open>auto simp: entry_at_def fun_eq_iff\<close>)
  qed
  have "moves_to H (cells A B) {tab0 s, tab1 s} H' s
      (set_hashTable i ((hashTable i d)\<lparr>table := (table (hashTable i d))[x :=
         map (entry_at (nodes H')) (remove_at j as)], used := slot_used ?t - 1\<rparr>) d)"
    using H' lt dist set_remove_at [of j as]
    by (intro bucket_change [OF at i X(2)]) (auto simp: distinct_remove_at as_def)
  moreover have "map (entry_at (nodes H')) (remove_at j as) = remove_at j (table (hashTable i d) ! x)"
    using t(2) X(2) by (simp add: H'(7) as_def remove_at_def take_map drop_map)
  ultimately show ?thesis using t X H'(1) by simp
qed

lemma ptr_del_loop_ok:
  assumes at: "shard_at H s A B d" and "\<forall>i \<in> set inds. i < 2"
  shows "sim (\<lambda>(H', e') (d', e). (e' = None \<longleftrightarrow> e = None) \<and> moves_to H (cells A B) {tab0 s, tab1 s} H' s d')
    (ptr_del_loop H s k h inds) (del_loop d k h inds)" (is "sim ?R _ _")
  using assms(2)
proof (induction inds)
  case Nil
  have "moves_to H (cells A B) {tab0 s, tab1 s} H s d"
    by (rule moves_to_refl) (use at in \<open>auto simp: owns_def\<close>)
  then show ?case by simp
next
  case (Cons i inds)
  note t = shard_at_table [OF at, of i]
  let ?t = "tabs H (table_ptr i s)" and ?C = "sel i A B"
  have i: "i < 2" and IH: "sim ?R (ptr_del_loop H s k h inds) (del_loop d k h inds)"
    using Cons by simp_all
  have mask: "sizemask (hashTable i d) = slot_mask ?t" using t(2) by simp
  show ?case
    unfolding ptr_del_loop.simps del_loop.simps Let_def mask
  proof (rule sim_if, goal_cases)
    case 3
    show ?case
    proof (rule sim_go_index, goal_cases)
      case (2 j)
      then have X: "uint (h AND slot_mask ?t) = int j" and j: "j < length ?C" using t(2) by simp_all
      have c: "table (hashTable i d) ! j = map (entry_at (nodes H)) (?C ! j)" using j by (simp add: t(2))
      note prev = find_previous_chain [OF chains_nth [OF t(1) j], of k None]
      show ?case
      proof (cases "find_pos k (map (entry_at (nodes H)) (?C ! j))")
        case None
        then show ?thesis using IH unfolding prev c by simp
      next
        case (Some q)
        then have q: "q < length (?C ! j)" using find_pos_Some by fastforce
        have "sim ?R
          (gbind (Some (unlink_entry H (table_ptr i s) (uint (h AND slot_mask ?t))
             (previous_at None (?C ! j) q) (?C ! j ! q))) (\<lambda>H1. Some (Inr (H1, Some a))))
          (rbind (rbind (go_update (table (hashTable i d)) (uint (h AND slot_mask ?t))
             (remove_at q (table (hashTable i d) ! j))) (\<lambda>tb.
               Inr (set_hashTable i ((hashTable i d)\<lparr>table := tb, used := used (hashTable i d) - 1\<rparr>) d)))
             (\<lambda>d1. Inr (d1, Some e)))" for a and e :: "'a DickEntry"
          by (rule sim_bind [OF unlink_entry_ok [OF at i X j q]]) simp
        then show ?thesis unfolding prev c using Some by (simp add: rbind_assoc)
      qed
    qed (use t in simp)
  qed (use IH shard_atD(8) [OF at] in simp_all)
qed

lemma ptr_del_ok:
  assumes "owns H s N T d"
  shows "sim (\<lambda>(H', s', e') (d', e). (e' = None \<longleftrightarrow> e = None) \<and> moves_to H N T H' s' d')
    (ptr_del E H s k) (del E d k)"
  unfolding ptr_del_def del_def
proof (rule sim_if, goal_cases)
  case 1
  show ?case using owns_tables [OF assms] by simp
next
  case 2
  show ?case using moves_to_refl [OF assms] by simp
next
  case 3
  have "sim (\<lambda>(H', s') d'. moves_to H N T H' s' d')
      (if ptr_isRehashing s then ptr_rehashStep E H s else Some (Inr (H, s)))
      (if isRehashing d then rehashStep E d else Inr d)"
    using owns_tables(3) [OF assms] ptr_rehashStep_ok [OF assms, of E] moves_to_refl [OF assms] by simp
  then show ?case
  proof (rule sim_bind, unfold split_paired_all prod.case, goal_cases)
    case (1 H1 s1 d1)
    then obtain A B where f: "frame H N T H1 (cells A B) {tab0 s1, tab1 s1}" and at: "shard_at H1 s1 A B d1"
      unfolding moves_to_def owns_def by blast
    have loop: "sim (\<lambda>(H', s', e') (d', e). (e' = None \<longleftrightarrow> e = None) \<and> moves_to H N T H' s' d')
        (gbind (ptr_del_loop H1 s1 k h [0, 1]) (\<lambda>(H2, e). Some (Inr (H2, s1, e))))
        (rbind (del_loop d1 k h [0, 1]) Inr)" for h
      by (rule sim_bind [OF ptr_del_loop_ok [OF at]]) (auto intro: moves_to_trans [OF f])
    show ?case by (rule sim_same_bind, rule loop [unfolded rbind_Inr])
  qed
qed

subsection \<open>The operations on a shard\<close>

lemma ptr_Set_ok:
  assumes "owns H s N T d"
  shows "sim (same_answer H N T) (ptr_Set E H s k v) (shard_Set E d k v)"
proof -
  obtain A B where at: "shard_at H s A B d" and c: "N = cells A B" "T = {tab0 s, tab1 s}"
    using assms by (auto simp: owns_def)
  show ?thesis
    unfolding ptr_Set_def shard_Set_def
    by (rule sim_bind [OF ptr_get_ok [OF at]])
      (auto simp: c rel_option_iff split: option.splits
        intro: put_value_ok [OF at] ptr_add_ok [OF assms, unfolded c])
qed

lemma ptr_Del_ok:
  assumes "owns H s N T d"
  shows "sim (same_answer H N T) (ptr_Del E H s k) (shard_Del E d k)"
  unfolding ptr_Del_def shard_Del_def
  by (rule sim_bind [OF ptr_del_ok [OF assms]]) (auto split: option.splits)

end
