(* ===== verification/HeapDatabase.thy ===== *)
theory HeapDatabase
  imports HeapRefinement
begin

text \<open>
  The sharded database on one heap: its shards own disjoint cells, so that an operation on one
  leaves the others as they are, and runs of requests on the heap simulate runs on the list
  program, for which XDick has proved the refinement of a finite map. The locale
  \<open>store_simulation\<close> states what a store on a heap has to do for that, and the sharded database
  is its instance.
\<close>

subsection \<open>Simulating a store\<close>

fun heap_step :: "('c \<Rightarrow> string \<Rightarrow> 'r go option) \<Rightarrow> ('c \<Rightarrow> string \<Rightarrow> 'v \<Rightarrow> ('c \<times> 'e option) go option) \<Rightarrow>
    ('c \<Rightarrow> string \<Rightarrow> ('c \<times> 'e option) go option) \<Rightarrow> 'v request \<Rightarrow> 'c \<Rightarrow> ('c \<times> ('r, 'e) answer) go option" where
  "heap_step gets puts dels (GetReq k) c = gbind (gets c k) (\<lambda>r. Some (Inr (c, Value r)))"
| "heap_step gets puts dels (SetReq k v) c = gbind (puts c k v) (\<lambda>(c', e). Some (Inr (c', Done e)))"
| "heap_step gets puts dels (DelReq k) c = gbind (dels c k) (\<lambda>(c', e). Some (Inr (c', Done e)))"

fun heap_run :: "('c \<Rightarrow> string \<Rightarrow> 'r go option) \<Rightarrow> ('c \<Rightarrow> string \<Rightarrow> 'v \<Rightarrow> ('c \<times> 'e option) go option) \<Rightarrow>
    ('c \<Rightarrow> string \<Rightarrow> ('c \<times> 'e option) go option) \<Rightarrow> 'v request list \<Rightarrow> 'c \<Rightarrow>
    ('c \<times> ('r, 'e) answer list) go option" where
  "heap_run gets puts dels [] c = Some (Inr (c, []))"
| "heap_run gets puts dels (q # qs) c =
     gbind (heap_step gets puts dels q c) (\<lambda>(c1, a).
     gbind (heap_run gets puts dels qs c1) (\<lambda>(c2, as). Some (Inr (c2, a # as))))"

locale store_simulation =
  fixes rel :: "'c \<Rightarrow> 's \<Rightarrow> bool"
    and hgets :: "'c \<Rightarrow> string \<Rightarrow> 'r go option"
    and hputs :: "'c \<Rightarrow> string \<Rightarrow> 'v \<Rightarrow> ('c \<times> 'e option) go option"
    and hdels :: "'c \<Rightarrow> string \<Rightarrow> ('c \<times> 'e option) go option"
    and gets :: "'s \<Rightarrow> string \<Rightarrow> 'r go"
    and puts :: "'s \<Rightarrow> string \<Rightarrow> 'v \<Rightarrow> ('s \<times> 'e option) go"
    and dels :: "'s \<Rightarrow> string \<Rightarrow> ('s \<times> 'e option) go"
  assumes get_sim: "rel c s \<Longrightarrow> sim (=) (hgets c k) (gets s k)"
    and set_sim: "rel c s \<Longrightarrow> sim (rel_prod rel (=)) (hputs c k v) (puts s k v)"
    and del_sim: "rel c s \<Longrightarrow> sim (rel_prod rel (=)) (hdels c k) (dels s k)"
begin

lemma step_sim:
  assumes "rel c s"
  shows "sim (rel_prod rel (=)) (heap_step hgets hputs hdels q c) (store_step gets puts dels q s)"
proof (cases q)
  case (GetReq k)
  then show ?thesis using assms by (auto intro!: sim_bind [OF get_sim [OF assms]])
next
  case (SetReq k v)
  then show ?thesis by (auto intro!: sim_bind [OF set_sim [OF assms]])
next
  case (DelReq k)
  then show ?thesis by (auto intro!: sim_bind [OF del_sim [OF assms]])
qed

lemma run_sim:
  assumes "rel c s"
  shows "sim (rel_prod rel (=)) (heap_run hgets hputs hdels qs c) (store_run gets puts dels qs s)"
  using assms
proof (induction qs arbitrary: c s)
  case (Cons q qs)
  show ?case unfolding heap_run.simps store_run.simps
  proof (rule sim_bind [OF step_sim [OF Cons.prems]], unfold split_paired_all prod.case, goal_cases)
    case (1 c1 a s1 a')
    then have "rel c1 s1" "a = a'" by simp_all
    then show ?case by (auto intro!: sim_bind [OF Cons.IH])
  qed
qed simp

lemma run_returns:
  assumes "rel c s" and "store_run gets puts dels qs s = Inr (s', as)"
  obtains c' where "heap_run hgets hputs hdels qs c = Some (Inr (c', as))" and "rel c' s'"
  using run_sim [OF assms(1), of qs] assms(2) by (auto simp: sim_Inr)

end

subsection \<open>The shards of a database\<close>

definition db_at :: "go_value heap \<times> ptr_XDICK \<Rightarrow> XDICK \<Rightarrow> bool" where
  "db_at w d \<longleftrightarrow> (case w of (H, D) \<Rightarrow>
     ptr_SubCount D = SubCount d \<and> length (ptr_SubDICKs D) = length (SubDICKs d) \<and>
     (\<exists>N T. (\<forall>i < length (SubDICKs d). owns H (ptr_SubDICKs D ! i) (N i) (T i) (SubDICKs d ! i)) \<and>
        (\<forall>i < length (SubDICKs d). \<forall>j < length (SubDICKs d). i \<noteq> j \<longrightarrow> N i \<inter> N j = {} \<and> T i \<inter> T j = {})))"

lemma db_atI:
  assumes "ptr_SubCount D = SubCount d" and "length (ptr_SubDICKs D) = length (SubDICKs d)"
    and "\<And>i. i < length (SubDICKs d) \<Longrightarrow> owns H (ptr_SubDICKs D ! i) (N i) (T i) (SubDICKs d ! i)"
    and "\<And>i j. i < length (SubDICKs d) \<Longrightarrow> j < length (SubDICKs d) \<Longrightarrow> i \<noteq> j \<Longrightarrow>
      N i \<inter> N j = {} \<and> T i \<inter> T j = {}"
  shows "db_at (H, D) d"
  using assms unfolding db_at_def prod.case by blast

lemma owns_allocated:
  assumes "owns H s N T d"
  shows "a \<in> N \<Longrightarrow> a < nodes_brk H" and "p \<in> T \<Longrightarrow> p < tabs_brk H"
  using assms by (auto simp: owns_def shard_at_def cells_def)

lemma owns_frame:
  assumes "owns H s N T d" and "nodes_brk H \<le> nodes_brk H'" and "tabs_brk H \<le> tabs_brk H'"
    and "\<forall>a \<in> N. nodes H' a = nodes H a" and "\<forall>p \<in> T. tabs H' p = tabs H p"
  shows "owns H' s N T d"
proof -
  obtain A B where at: "shard_at H s A B d" and c: "N = cells A B" "T = {tab0 s, tab1 s}"
    using assms(1) by (auto simp: owns_def)
  have t: "mainDICK H' s = mainDICK H s" "rehashingTable H' s = rehashingTable H s"
    using assms(5) by (simp_all add: c mainDICK_def rehashingTable_def)
  have n: "nodes H' a = nodes H a" if "a \<in> set (concat A @ concat B)" for a
    using assms(4) that by (simp add: c cells_def)
  have e: "chains (nodes H') t A = chains (nodes H) t A" "chains (nodes H') t B = chains (nodes H) t B"
    "table_of (nodes H') t A = table_of (nodes H) t A" "table_of (nodes H') t B = table_of (nodes H) t B" for t
    using n by (auto intro!: chains_cong table_of_cong simp: entry_at_def)
  have "\<forall>a \<in> cells A B. a < nodes_brk H'" "tab0 s < tabs_brk H'" "tab1 s < tabs_brk H'"
    using at assms(2,3) unfolding shard_at_def cells_def by (meson less_le_trans)+
  then have "shard_at H' s A B d"
    by (intro shard_atI) (use shard_atD [OF at] e t in simp_all)
  then show ?thesis unfolding owns_def c by blast
qed

lemma db_at_update:
  assumes "db_at (H, D) d" and i: "i < length (SubDICKs d)"
    and "\<And>N T. owns H (ptr_SubDICKs D ! i) N T (SubDICKs d ! i) \<Longrightarrow> moves_to H N T H' s' sd'"
  shows "db_at (H', D\<lparr>ptr_SubDICKs := (ptr_SubDICKs D)[i := s']\<rparr>) (d\<lparr>SubDICKs := (SubDICKs d)[i := sd']\<rparr>)"
proof -
  let ?n = "length (SubDICKs d)"
  obtain N T where D: "ptr_SubCount D = SubCount d" "length (ptr_SubDICKs D) = ?n"
    and o: "\<And>j. j < ?n \<Longrightarrow> owns H (ptr_SubDICKs D ! j) (N j) (T j) (SubDICKs d ! j)"
    and dis: "\<And>j j'. j < ?n \<Longrightarrow> j' < ?n \<Longrightarrow> j \<noteq> j' \<Longrightarrow> N j \<inter> N j' = {} \<and> T j \<inter> T j' = {}"
    using assms(1) unfolding db_at_def prod.case by blast
  obtain N' T' where o': "owns H' s' N' T' sd'" and f: "frame H (N i) (T i) H' N' T'"
    using assms(3) [OF o [OF i]] by (auto simp: moves_to_def)
  have others: "owns H' (ptr_SubDICKs D ! j) (N j) (T j) (SubDICKs d ! j)"
    and apart: "N' \<inter> N j = {}" "T' \<inter> T j = {}" if "j < ?n" "j \<noteq> i" for j
  proof -
    note al = owns_allocated [OF o [OF that(1)]] and ij = dis [OF i that(1) that(2) [symmetric]]
    have "nodes H' a = nodes H a" if "a \<in> N j" for a
      using f al(1) [OF that] ij that by (auto simp: frame_def)
    moreover have "tabs H' p = tabs H p" if "p \<in> T j" for p
      using f al(2) [OF that] ij that by (auto simp: frame_def)
    ultimately show "owns H' (ptr_SubDICKs D ! j) (N j) (T j) (SubDICKs d ! j)"
      by (intro owns_frame [OF o [OF that(1)]]) (use f in \<open>simp_all add: frame_def\<close>)
    show "N' \<inter> N j = {}" "T' \<inter> T j = {}"
      using f al ij unfolding frame_def by (fastforce simp: not_le [symmetric])+
  qed
  show ?thesis
  proof (rule db_atI [where N = "N(i := N')" and T = "T(i := T')"])
    fix j j'
    assume "j < length (SubDICKs (d\<lparr>SubDICKs := (SubDICKs d)[i := sd']\<rparr>))"
      and "j' < length (SubDICKs (d\<lparr>SubDICKs := (SubDICKs d)[i := sd']\<rparr>))" and "j \<noteq> j'"
    then show "(N(i := N')) j \<inter> (N(i := N')) j' = {} \<and> (T(i := T')) j \<inter> (T(i := T')) j' = {}"
      using apart [of j] apart [of j'] dis [of j j'] by (auto simp: Int_commute)
  qed (use others o' D in \<open>auto simp: nth_list_update\<close>)
qed

lemma ptr_NewSubDICK_ok:
  assumes "ptr_NewSubDICK H = (s, H')"
  shows "owns H' s {} {tabs_brk H, tabs_brk H + 1} NewSubDICK" and "nodes H' = nodes H"
    and "nodes_brk H' = nodes_brk H" and "tabs_brk H' = tabs_brk H + 2"
    and "p < tabs_brk H \<Longrightarrow> tabs H' p = tabs H p"
proof -
  have s: "s = \<lparr>tab0 = tabs_brk H, tab1 = tabs_brk H + 1, ptr_rehashidx = -1\<rparr>"
    and t: "tabs H' = (tabs H)(tabs_brk H := ptr_NewDickTable 0, tabs_brk H + 1 := ptr_NewDickTable 0)"
    and b: "tabs_brk H' = tabs_brk H + 2" "nodes H' = nodes H" "nodes_brk H' = nodes_brk H"
    using assms by (auto simp: ptr_NewSubDICK_def alloc_table_def Let_def)
  show "nodes H' = nodes H" "nodes_brk H' = nodes_brk H" "tabs_brk H' = tabs_brk H + 2" using b by simp_all
  show "p < tabs_brk H \<Longrightarrow> tabs H' p = tabs H p" using t by simp
  have "shard_at H' s [] [] NewSubDICK"
    by (rule shard_atI) (simp_all add: s t b NewSubDICK_def mainDICK_def rehashingTable_def chains_def
        table_of_def ptr_NewDickTable_def NewDickTable_def cells_def)
  then show "owns H' s {} {tabs_brk H, tabs_brk H + 1} NewSubDICK"
    unfolding owns_def by (intro exI [of _ "[]"]) (simp add: s cells_def)
qed

lemma ptr_NewSubDICKs_ok:
  assumes "ptr_NewSubDICKs n H = (ss, H')"
  shows "length ss = n" and "tabs_brk H' = tabs_brk H + 2 * n" and "nodes H' = nodes H"
    and "nodes_brk H' = nodes_brk H" and "p < tabs_brk H \<Longrightarrow> tabs H' p = tabs H p"
    and "i < n \<Longrightarrow> owns H' (ss ! i) {} {tabs_brk H + 2 * i, tabs_brk H + 2 * i + 1} NewSubDICK"
proof -
  have "length ss = n \<and> tabs_brk H' = tabs_brk H + 2 * n \<and> nodes H' = nodes H \<and>
    nodes_brk H' = nodes_brk H \<and> (\<forall>p < tabs_brk H. tabs H' p = tabs H p) \<and>
    (\<forall>i < n. owns H' (ss ! i) {} {tabs_brk H + 2 * i, tabs_brk H + 2 * i + 1} NewSubDICK)"
    using assms
  proof (induction n arbitrary: H H' ss)
    case (Suc n)
    obtain s H1 where 1: "ptr_NewSubDICK H = (s, H1)" by fastforce
    obtain ss1 H2 where 2: "ptr_NewSubDICKs n H1 = (ss1, H2)" by fastforce
    have r: "ss = s # ss1" "H' = H2" using Suc.prems 1 2 by simp_all
    note n1 = ptr_NewSubDICK_ok [OF 1] and n2 = Suc.IH [OF 2]
    have "owns H2 s {} {tabs_brk H, tabs_brk H + 1} NewSubDICK"
      by (rule owns_frame [OF n1(1)]) (use n1(2-4) n2 in auto)
    moreover have "owns H2 (ss1 ! i) {} {tabs_brk H + 2 * Suc i, tabs_brk H + 2 * Suc i + 1} NewSubDICK"
      if "i < n" for i
      using n2 n1(4) that by (simp add: algebra_simps)
    moreover have "tabs H2 p = tabs H p" if "p < tabs_brk H" for p
      using n1(4,5) n2 that by simp
    ultimately show ?case using n1(2-4) n2 by (auto simp: r All_less_Suc2 simp del: One_nat_def add_2_eq_Suc')
  qed simp
  then show "length ss = n" "tabs_brk H' = tabs_brk H + 2 * n" "nodes H' = nodes H"
    "nodes_brk H' = nodes_brk H" "p < tabs_brk H \<Longrightarrow> tabs H' p = tabs H p"
    "i < n \<Longrightarrow> owns H' (ss ! i) {} {tabs_brk H + 2 * i, tabs_brk H + 2 * i + 1} NewSubDICK"
    by simp_all
qed

lemma ptr_NewXDICK_ok: "db_at (ptr_NewXDICK n H) (NewXDICK n)"
proof -
  obtain ss H' where s: "ptr_NewSubDICKs (unat n) H = (ss, H')" by fastforce
  note ok = ptr_NewSubDICKs_ok [OF s]
  let ?T = "\<lambda>i. {tabs_brk H + 2 * i, tabs_brk H + 2 * i + 1}"
  have "?T i \<inter> ?T j = {}" if "i \<noteq> j" for i j :: nat using that by auto
  then have "db_at (H', \<lparr>ptr_SubDICKs = ss, ptr_SubCount = n\<rparr>) (NewXDICK n)"
    by (intro db_atI [where N = "\<lambda>_. {}" and T = ?T])
      (use ok(1,6) in \<open>simp_all add: NewXDICK_def del: One_nat_def\<close>)
  then show ?thesis by (simp add: ptr_NewXDICK_def s)
qed

subsection \<open>The operations simulate those of the list program\<close>

lemma db_at_shards:
  assumes "db_at (H, D) d"
  shows "ptr_shard_index E D k = shard_index E d k" and "length (ptr_SubDICKs D) = length (SubDICKs d)"
    and "i < length (SubDICKs d) \<Longrightarrow> \<exists>N T. owns H (ptr_SubDICKs D ! i) N T (SubDICKs d ! i)"
  using assms by (auto simp: db_at_def ptr_shard_index_def shard_index_def)

lemma ptr_XDICK_Get_ok:
  assumes "db_at w d"
  shows "sim (=) (ptr_XDICK_Get E w k) (XDICK_Get E d k)"
proof -
  obtain H D where w: "w = (H, D)" by fastforce
  note D = db_at_shards [OF assms [unfolded w]]
  show ?thesis unfolding w ptr_XDICK_Get_def XDICK_Get_def prod.case D(1)
  proof (rule sim_same_bind, rule sim_go_index [OF D(2)], goal_cases)
    case (1 i j)
    then obtain A B where "shard_at H (ptr_SubDICKs D ! j) A B (SubDICKs d ! j)"
      using D(3) [of j] unfolding owns_def by blast
    then show ?case by (rule sim_bind [OF ptr_Get_ok]) simp
  qed
qed

lemma ptr_update_shard_ok:
  assumes at: "db_at (H, D) d" and i: "uint i = int j" "j < length (SubDICKs d)"
    and "\<And>N T. owns H (ptr_SubDICKs D ! j) N T (SubDICKs d ! j) \<Longrightarrow> sim (same_answer H N T) c a"
  shows "sim (rel_prod db_at (=)) (ptr_update_shard D i c)
    (rbind a (\<lambda>(sd', err).
       rbind (go_update (SubDICKs d) (uint i) sd') (\<lambda>sds. Inr (d\<lparr>SubDICKs := sds\<rparr>, err))))"
proof -
  let ?R = "\<lambda>(H', s', e') (sd', e). e' = e \<and>
    (\<forall>N T. owns H (ptr_SubDICKs D ! j) N T (SubDICKs d ! j) \<longrightarrow> moves_to H N T H' s' sd')"
  obtain N T where "owns H (ptr_SubDICKs D ! j) N T (SubDICKs d ! j)"
    using db_at_shards(3) [OF at i(2)] by blast
  then have "sim (same_answer H N T) c a" by (rule assms(4))
  then have "sim ?R c a"
    using assms(4) unfolding sim_def rel_sum.simps by fastforce
  then show ?thesis unfolding ptr_update_shard_def
  proof (rule sim_bind, unfold split_paired_all prod.case, goal_cases)
    case (1 H1 s1 e1 sd1 e2)
    then have "db_at (H1, D\<lparr>ptr_SubDICKs := (ptr_SubDICKs D)[j := s1]\<rparr>) (d\<lparr>SubDICKs := (SubDICKs d)[j := sd1]\<rparr>)"
      using db_at_update [OF at i(2)] by simp
    then show ?case using i 1 db_at_shards(2) [OF at] by simp
  qed
qed

lemma ptr_XDICK_Set_ok:
  assumes "db_at w d"
  shows "sim (rel_prod db_at (=)) (ptr_XDICK_Set E w k v) (XDICK_Set E d k v)"
proof -
  obtain H D where w: "w = (H, D)" by fastforce
  note at = assms [unfolded w]
  note D = db_at_shards [OF at]
  show ?thesis unfolding w ptr_XDICK_Set_def XDICK_Set_def prod.case D(1)
    by (rule sim_same_bind, rule sim_go_index [OF D(2)], rule ptr_update_shard_ok [OF at])
      (auto intro: ptr_Set_ok)
qed

lemma ptr_XDICK_Del_ok:
  assumes "db_at w d"
  shows "sim (rel_prod db_at (=)) (ptr_XDICK_Del E w k) (XDICK_Del E d k)"
proof -
  obtain H D where w: "w = (H, D)" by fastforce
  note at = assms [unfolded w]
  note D = db_at_shards [OF at]
  show ?thesis unfolding w ptr_XDICK_Del_def XDICK_Del_def prod.case D(1)
    by (rule sim_same_bind, rule sim_go_index [OF D(2)], rule ptr_update_shard_ok [OF at])
      (auto intro: ptr_Del_ok)
qed

interpretation heapdb: store_simulation db_at "ptr_XDICK_Get E" "ptr_XDICK_Set E" "ptr_XDICK_Del E"
  "XDICK_Get E" "XDICK_Set E" "XDICK_Del E"
  for E :: "'a db_env_scheme"
  by unfold_locales (rule ptr_XDICK_Get_ok ptr_XDICK_Set_ok ptr_XDICK_Del_ok, assumption)+

subsection \<open>Chains end\<close>

lemma db_at_walks:
  assumes "db_at (H, D) d" and "s \<in> set (ptr_SubDICKs D)" and "p \<in> set (buckets (tabs H (table_ptr i s)))"
  shows "\<exists>e. find_entry H k p = Some e"
proof -
  obtain j where j: "j < length (SubDICKs d)" "s = ptr_SubDICKs D ! j"
    using assms(2) db_at_shards(2) [OF assms(1)] by (auto simp: in_set_conv_nth)
  then obtain A B where at: "shard_at H s A B (SubDICKs d ! j)"
    using db_at_shards(3) [OF assms(1)] unfolding owns_def by blast
  note t = shard_at_table [OF at, of i]
  obtain x where "x < length (sel i A B)" "p = buckets (tabs H (table_ptr i s)) ! x"
    using assms(3) t(3) by (auto simp: in_set_conv_nth)
  then show ?thesis using find_entry_chain [OF chains_nth [OF t(1)], of x k] by simp
qed

text \<open>A key that is present is in a chain that starts at some bucket.\<close>

lemma db_at_has_bucket:
  assumes "db_at (H, D) d" and "xinv E d" and "xview d k \<noteq> None"
  shows "\<exists>s \<in> set (ptr_SubDICKs D). \<exists>i < 2. buckets (tabs H (table_ptr i s)) \<noteq> []"
proof -
  let ?j = "route d k"
  have j: "?j < length (SubDICKs d)" by (rule xinv_route(1) [OF assms(2)])
  then obtain A B where at: "shard_at H (ptr_SubDICKs D ! ?j) A B (SubDICKs d ! ?j)"
    using db_at_shards(3) [OF assms(1)] unfolding owns_def by blast
  have "all_entries (SubDICKs d ! ?j) \<noteq> []" using assms(3) unfolding xview_def sub_abs_None by auto
  then have "A \<noteq> [] \<or> B \<noteq> []" using shard_atD(5,6) [OF at] by (auto simp: all_entries_def entries_def)
  then have "\<exists>i < 2. sel i A B \<noteq> []" by (auto simp: sel_def less_2_cases_iff)
  then obtain i where "i < 2" "buckets (tabs H (table_ptr i (ptr_SubDICKs D ! ?j))) \<noteq> []"
    using shard_at_table(3) [OF at] by (metis length_0_conv)
  then show ?thesis using j db_at_shards(2) [OF assms(1)] nth_mem by metis
qed

lemma heap_run_reaches:
  assumes "env_ok E" and "n \<noteq> 0" and "length qs \<le> 2 ^ 61"
  obtains w d where "heap_run (ptr_XDICK_Get E) (ptr_XDICK_Set E) (ptr_XDICK_Del E) qs (ptr_NewXDICK n H) =
      Some (Inr (w, snd (map_run get_result EntryNotFound qs Map.empty)))"
    and "db_at w d" and "xinv E d" and "xview d = fst (map_run get_result EntryNotFound qs Map.empty)"
proof -
  note new = NewXDICK_ok [OF assms(1,2)]
  obtain d where d: "store_run (XDICK_Get E) (XDICK_Set E) (XDICK_Del E) qs (NewXDICK n) =
      Inr (d, snd (map_run get_result EntryNotFound qs Map.empty))"
    "xinv E d" "xview d = fst (map_run get_result EntryNotFound qs Map.empty)"
    using xdick.run_refines [OF new(1), of qs] assms(3) unfolding new(2,3) by auto
  from heapdb.run_returns [OF ptr_NewXDICK_ok d(1)] d(2,3) that show thesis by blast
qed

end
