(* ===== verification/StoreProperties.thy ===== *)
theory StoreProperties
  imports EndToEnd HeapDatabase
begin

text \<open>
  The properties of the storage: one shard with its incremental rehash, the table sizes, the
  hash functions, and the routing of keys to shards. Each property is followed by an instance
  on a concrete shard or database where it has hypotheses.
\<close>

subsection \<open>A shard in the middle of a rehash\<close>

definition demo_table :: "go_value DickTable" where
  "demo_table = NewDickTable 128"

definition demo_slot :: nat where
  "demo_slot = slot (hash_of demo_env) demo_table ''k''"

definition demo_shard :: "go_value SubDICK" where
  "demo_shard =
     \<lparr>ht0 = demo_table\<lparr>table := (table demo_table)[demo_slot :=
              NewDickEntry ''k'' (GoString ''v'') # table demo_table ! demo_slot],
            used := used demo_table + 1\<rparr>,
      ht1 = NewDickTable 256, rehashidx = 0\<rparr>"

lemma demo_tables:
  "table_ok H demo_table" "length (table demo_table) = 128" "entries demo_table = []"
  "table_ok H (NewDickTable 256 :: go_value DickTable)"
  "length (table (NewDickTable 256 :: go_value DickTable)) = 256"
  "entries (NewDickTable 256 :: go_value DickTable) = []"
  using NewDickTable_ok [where k = 7] NewDickTable_ok [where k = 8]
  by (simp_all add: demo_table_def)

lemma demo_shard_ok: "sub_inv demo_env demo_shard" "isRehashing demo_shard"
    "sub_abs demo_shard = [''k'' \<mapsto> GoString ''v'']" "length (all_entries demo_shard) = 1"
    "length (table (ht0 demo_shard)) = 128"
proof -
  have key: "ekey (NewDickEntry ''k'' (GoString ''v'')) = ''k''"
    "evalue (NewDickEntry ''k'' (GoString ''v'')) = GoString ''v''"
    by (simp_all add: NewDickEntry_def)
  note push = push_entry_ok [OF demo_tables(1) [of "hash_of demo_env"], of demo_slot
      "NewDickEntry ''k'' (GoString ''v'')" "ht0 demo_shard"]
  have t: "table_ok (hash_of demo_env) (ht0 demo_shard)"
    "mset (entries (ht0 demo_shard)) = {# NewDickEntry ''k'' (GoString ''v'') #}"
    "length (table (ht0 demo_shard)) = 128"
    using push demo_tables(2,3) by (simp_all add: demo_slot_def key demo_shard_def)
  have e: "entries (ht0 demo_shard) = [NewDickEntry ''k'' (GoString ''v'')]"
    using t(2) by (metis mset.simps mset_single_iff_right)
  have all: "all_entries demo_shard = [NewDickEntry ''k'' (GoString ''v'')]"
    using e demo_tables(6) by (simp add: all_entries_def demo_shard_def)
  show "isRehashing demo_shard" by (simp add: demo_shard_def isRehashing_def)
  then show "sub_inv demo_env demo_shard"
    using t all demo_tables(4,5) demo_env_ok(2)
    by (simp add: sub_inv_def mid_rehash_def keys_distinct_def demo_shard_def)
  show "sub_abs demo_shard = [''k'' \<mapsto> GoString ''v'']"
    using all key by (simp add: sub_abs_def amap_def)
  show "length (all_entries demo_shard) = 1" using all by simp
  show "length (table (ht0 demo_shard)) = 128" by (rule t(3))
qed

subsection \<open>One shard\<close>

text \<open>C7: A lookup returns exactly what the shard stores for the key, also while a rehash has
  spread the entries over the two tables, and it never panics.\<close>

theorem shard_get_exact:
  "sub_inv E d \<Longrightarrow> shard_Get E d k = Inr (sub_abs d k)"
  by (rule shard_Get_spec)

theorem shard_get_exact_witness:
  "isRehashing demo_shard \<and> shard_Get demo_env demo_shard ''k'' = Inr (Some (GoString ''v''))"
  using shard_get_exact [OF demo_shard_ok(1), of "''k''"] demo_shard_ok(2,3) by simp

text \<open>C8: Storing a pair in a shard always succeeds, changes the shard's map at that key only,
  keeps the invariant (no key twice, every entry in the bucket of its hash, counters exact,
  room for all entries) and keeps at most one entry per bucket on average.\<close>

theorem shard_set_exact:
  assumes "sub_inv E d" and "length (all_entries d) < 2 ^ 61"
  shows "\<exists>d'. shard_Set E d k v = Inr (d', None) \<and> sub_inv E d' \<and>
     sub_abs d' = (sub_abs d)(k \<mapsto> v) \<and>
     length (all_entries d') \<le> length (table (if isRehashing d' then ht1 d' else ht0 d'))"
proof -
  obtain d' where d': "shard_Set E d k v = Inr (d', None)" "sub_inv E d'"
    "sub_abs d' = (sub_abs d)(k \<mapsto> v)"
    using shard_Set_spec [OF assms, of k v] by blast
  have "length (all_entries d') \<le> length (table (if isRehashing d' then ht1 d' else ht0 d'))"
    using d'(2) by (cases rule: sub_inv_cases) (simp_all add: all_entries_def)
  with d' show ?thesis by blast
qed

theorem shard_set_exact_witness:
  "\<exists>d'. shard_Set demo_env demo_shard ''a'' GoNil = Inr (d', None) \<and>
     sub_abs d' = [''k'' \<mapsto> GoString ''v'', ''a'' \<mapsto> GoNil]"
  using shard_set_exact [OF demo_shard_ok(1), of "''a''" GoNil] demo_shard_ok(3,4) by auto

text \<open>C9: Deleting a key from a shard removes that key and nothing else, keeps the invariant,
  and reports an error exactly when the key was absent.\<close>

theorem shard_del_exact:
  assumes "sub_inv E d"
  shows "\<exists>d'. shard_Del E d k = Inr (d', if sub_abs d k = None then Some EntryNotFound else None) \<and>
     sub_inv E d' \<and> sub_abs d' = (sub_abs d)(k := None)"
  using shard_Del_spec [OF assms, of k] by blast

theorem shard_del_exact_witness:
  "\<exists>d'. shard_Del demo_env demo_shard ''k'' = Inr (d', None) \<and> sub_abs d' = Map.empty"
  using shard_del_exact [OF demo_shard_ok(1), of "''k''"] demo_shard_ok(3) by auto

text \<open>C11: A rehash ends: as many rehash steps as the first table has buckets leave a shard that
  is no longer rehashing, and its map is unchanged.\<close>

theorem rehash_finishes:
  assumes "sub_inv E d" and "length (table (ht0 d)) \<le> m"
  shows "\<exists>d'. rehash_steps E m d = Inr d' \<and> \<not> isRehashing d' \<and> sub_inv E d' \<and>
     sub_abs d' = sub_abs d"
proof -
  have "int (length (table (ht0 d))) - rehashidx d \<le> int m" if "isRehashing d"
    using that assms by (auto simp: sub_inv_def mid_rehash_def)
  from rehash_steps_spec [OF assms(1) this] show ?thesis by blast
qed

theorem rehash_finishes_witness:
  "\<exists>d'. rehash_steps demo_env 128 demo_shard = Inr d' \<and> \<not> isRehashing d' \<and>
     sub_abs d' = [''k'' \<mapsto> GoString ''v'']"
  using rehash_finishes [OF demo_shard_ok(1), of 128] demo_shard_ok(3,5) by auto

text \<open>C12: One rehash step moves entries between the tables without losing, duplicating or
  changing any, and either ends the rehash or advances the rehash index.\<close>

theorem rehash_step_progress:
  assumes "sub_inv E d" and "isRehashing d"
  shows "\<exists>d'. rehashStep E d = Inr d' \<and> sub_inv E d' \<and>
     mset (all_entries d') = mset (all_entries d) \<and>
     (isRehashing d' \<longrightarrow> rehashidx d < rehashidx d')"
  using rehashStep_spec [OF assms] by (auto split: if_splits)

theorem rehash_step_progress_witness:
  "\<exists>d'. rehashStep demo_env demo_shard = Inr d' \<and> length (all_entries d') = 1"
  using rehash_step_progress [OF demo_shard_ok(1,2)] demo_shard_ok(4)
  by (auto dest: mset_eq_length)

text \<open>With a hash mode that is none of the three, storing ends the process, whatever the
  shard holds.\<close>

theorem bad_hash_mode_exits:
  assumes "\<not> hasher_ok E"
  shows "shard_Set E d k v = Inl ProcessExit"
  using hasher_fault [OF assms, of k]
  by (simp add: shard_Set_def sub_get_def add_def keyIndex_def Let_def)

theorem bad_hash_mode_exits_witness:
  "shard_Set (demo_env\<lparr>HASHER := 4\<rparr>) demo_shard ''k'' GoNil = Inl ProcessExit"
  by (rule bad_hash_mode_exits)
    (simp add: hasher_ok_def HASH_siphash_def HASH_FNV32A_def HASH_FNV64A_def)

subsection \<open>Table sizes\<close>

text \<open>C30: For every size up to \<open>2 ^ 62\<close>, \<open>nextPower\<close> is the least power of two that is at
  least the size and at least 128; a size that is a power of two is returned as it is.\<close>

theorem nextPower_least:
  assumes "n \<le> 2 ^ 62"
  shows "\<exists>k. nextPower (of_nat n) = of_nat (2 ^ k) \<and> 7 \<le> k \<and> k \<le> 62 \<and> n \<le> 2 ^ k \<and>
     (\<forall>j. 7 \<le> j \<and> n \<le> 2 ^ j \<longrightarrow> k \<le> j)"
proof -
  obtain k where k: "nextPower (of_nat n) = of_nat (2 ^ k)" "7 \<le> k" "k \<le> 62" "n \<le> 2 ^ k"
    "k = 7 \<or> 2 ^ k < 2 * n" using nextPower_nat [OF assms] by blast
  have "k \<le> j" if "7 \<le> j" "n \<le> 2 ^ j" for j
  proof (rule ccontr)
    assume "\<not> k \<le> j"
    then have "(2::nat) ^ Suc j \<le> 2 ^ k" by (intro power_increasing) simp_all
    then show False using that k(5) \<open>\<not> k \<le> j\<close> by auto
  qed
  with k show ?thesis by blast
qed

theorem nextPower_least_witness:
  "\<exists>k. nextPower (of_nat 256) = of_nat (2 ^ k) \<and> k \<le> 8 \<and> 256 \<le> (2::nat) ^ k"
proof -
  obtain k where k: "nextPower (of_nat 256) = of_nat (2 ^ k)" "256 \<le> (2::nat) ^ k"
    "\<forall>j. 7 \<le> j \<and> 256 \<le> (2::nat) ^ j \<longrightarrow> k \<le> j" using nextPower_least [of 256] by auto
  have "k \<le> 8" using k(3) [rule_format, of 8] by simp
  with k show ?thesis by blast
qed

text \<open>C31: Beyond \<open>2 ^ 62\<close> the result of \<open>nextPower\<close> wraps around to the least 64-bit
  integer.\<close>

theorem nextPower_wraps:
  assumes "2 ^ 62 < n" and "n < 2 ^ 63"
  shows "sint (nextPower (of_nat n)) = - (2 ^ 63)"
proof -
  have "nextPower (of_nat n) = 2 ^ Suc 62"
    using assms by (intro nextPower_word) simp_all
  then show ?thesis by (simp add: sint_uint)
qed

theorem nextPower_wraps_witness:
  "sint (nextPower (of_nat (2 ^ 62 + 1))) = - (2 ^ 63)"
  by (rule nextPower_wraps) simp_all

subsection \<open>Hash functions\<close>

text \<open>C32: The string hash of pcas_hash is a function of the string alone: it does not depend
  on what an earlier use left in the pooled hasher, and it folds the words of the string,
  least significant byte first, with \<open>Combine\<close>.\<close>

theorem pcas_string_closed_form:
  assumes "length (buf g) = 4"
  shows "StringHash g s =
     (case pcas_words s of [] \<Rightarrow> 0 | w # ws \<Rightarrow> foldl Combine w ws)"
proof (cases "pcas_words s")
  case Nil
  then show ?thesis using StringHash_words [OF assms, of s] by simp
next
  case (Cons w ws)
  then show ?thesis using StringHash_words [OF assms, of s] by (simp add: combine_words_Some)
qed

theorem pcas_string_closed_form_witness:
  "StringHash zero_Hash ''abcdefg'' = Combine (byte4 ''abcd'') (byte2 ''fg'')"
  using pcas_string_closed_form [of zero_Hash "''abcdefg''"] by (simp add: zero_Hash_def)

text \<open>The fifth byte of every group of five does not enter the hash: strings that differ
  only there collide, for every tail.\<close>

theorem pcas_ignores_fifth_byte:
  assumes "length (buf g) = 4" and "length p mod 5 = 4"
  shows "StringHash g (p @ c # s) = StringHash g (p @ c' # s)"
  using StringHash_words [OF assms(1)] pcas_words_append5 [OF assms(2), of c s c'] by simp

theorem pcas_ignores_fifth_byte_witness:
  "StringHash zero_Hash ''user1'' = StringHash zero_Hash ''user2''"
  using pcas_ignores_fifth_byte [of zero_Hash "''user''" "CHR ''1''" "[]" "CHR ''2''"]
  by (simp add: zero_Hash_def)

text \<open>Hashing a slice of strings is hashing their concatenation.\<close>

theorem pcas_slice_is_concat:
  assumes "length (buf g) = 4"
  shows "StringSlice g S = StringHash g (concat S)"
proof (cases "S = []")
  case True
  then show ?thesis using StringHash_words [OF assms, of "[]"] by (simp add: StringSlice_def)
next
  case False
  have "at_boundary (New g) None"
    using at_boundary_Reset [OF assms] by (simp add: New_def)
  from write_words [OF this, of "concat S"] False show ?thesis
    by (simp add: StringSlice_def foldl_Write StringHash_words [OF assms])
qed

theorem pcas_slice_is_concat_witness:
  "StringSlice zero_Hash [''ab'', ''cd'', ''e''] = StringHash zero_Hash ''abcde''"
  using pcas_slice_is_concat [of zero_Hash "[''ab'', ''cd'', ''e'']"] by (simp add: zero_Hash_def)

text \<open>C33: Splitting the 16 bytes of the salt into two 64-bit keys loses nothing: their bytes,
  least significant first, are the salt.\<close>

theorem salt_split_roundtrip:
  "length key = 16 \<Longrightarrow>
   le_bytes 8 (fst (split_key key)) @ le_bytes 8 (snd (split_key key)) = key"
  by (rule split_key_bytes)

theorem salt_split_roundtrip_witness:
  "le_bytes 8 (fst (split_key ''0123456789abcdef'')) @
   le_bytes 8 (snd (split_key ''0123456789abcdef'')) = ''0123456789abcdef''"
  by (rule salt_split_roundtrip) simp

text \<open>The salt is drawn once: a second \<open>GenerateSALT\<close> changes neither the salt nor the
  keys derived from it, whatever random numbers it would draw.\<close>

theorem salt_generated_once:
  "generateSALT rs (generateSALT rs' p) = generateSALT rs' p"
  by (rule generateSALT_once)

subsection \<open>Sharding\<close>

text \<open>Storing a key touches only the shard that the key's hash selects: every other shard is
  the same before and after, and the selected shard holds the pair.\<close>

theorem set_stays_in_its_shard:
  assumes "xinv E d" and "xcount d < 2 ^ 61"
  shows "\<exists>d'. XDICK_Set E d k v = Inr (d', None) \<and> route d k < length (SubDICKs d') \<and>
     (\<forall>i. i \<noteq> route d k \<longrightarrow> SubDICKs d' ! i = SubDICKs d ! i) \<and>
     sub_abs (SubDICKs d' ! route d k) k = Some v \<and> xview d' = (xview d)(k \<mapsto> v)"
proof -
  obtain d' where d': "XDICK_Set E d k v = Inr (d', None)" "xinv E d'"
    "xview d' = (xview d)(k \<mapsto> v)" "\<forall>i. i \<noteq> route d k \<longrightarrow> SubDICKs d' ! i = SubDICKs d ! i"
    using XDICK_Set_spec [OF assms, of k v] by blast
  have "SubCount d' = SubCount d"
    using d'(1) by (auto simp: XDICK_Set_def rbind_eq_Inr split: prod.splits)
  then have r: "route d' k = route d k" by (simp add: route_def)
  have "xview d' k = Some v" using d'(3) by simp
  then have "sub_abs (SubDICKs d' ! route d k) k = Some v" by (simp add: xview_def r)
  moreover have "route d k < length (SubDICKs d')"
    using xinv_route(1) [OF d'(2), of k] by (simp add: r)
  ultimately show ?thesis using d'(1,3,4) by blast
qed

theorem set_stays_in_its_shard_witness:
  "\<exists>d'. XDICK_Set demo_env (db_XDICK demo_db) ''k'' GoNil = Inr (d', None) \<and>
     xview d' = [''k'' \<mapsto> GoNil]"
  using set_stays_in_its_shard [of demo_env "db_XDICK demo_db" "''k''" GoNil] demo_db_ok(1-3)
  by (auto simp: db_inv_def db_view_def db_count_def)

text \<open>A database without shards panics with a division by zero at every operation.\<close>

theorem no_shards_divide_by_zero:
  "XDatabase_Get E (NewDICK now 0) k = Inl DivideByZero \<and>
   XDatabase_Set E (NewDICK now 0) k v = Inl DivideByZero \<and>
   XDatabase_Del E (NewDICK now 0) k = Inl DivideByZero"
  by (simp add: XDatabase_Get_def XDatabase_Set_def XDatabase_Del_def XDICK_Get_def XDICK_Set_def
      XDICK_Del_def shard_index_def NewDICK_def NewXDICK_def)

section \<open>The database with its pointers\<close>

text \<open>C3: The database on a heap of linked entries returns from any sequence of at most \<open>2 ^ 61\<close>
  requests, whatever the heap held when it was created, with the answers of a finite map that
  starts empty; the heap then stands for a list database with the contents of that map.\<close>

theorem pointers_refine_map:
  assumes "env_ok E" and "n \<noteq> 0" and "length qs \<le> 2 ^ 61"
  shows "\<exists>w d. heap_run (ptr_XDICK_Get E) (ptr_XDICK_Set E) (ptr_XDICK_Del E) qs (ptr_NewXDICK n H) =
       Some (Inr (w, snd (map_run get_result EntryNotFound qs Map.empty))) \<and>
     db_at w d \<and> xview d = fst (map_run get_result EntryNotFound qs Map.empty)"
  using heap_run_reaches [OF assms] by metis

definition demo_heap :: "go_value heap" where
  "demo_heap = \<lparr>nodes = (\<lambda>_. ptr_NewDickEntry [] GoNil), nodes_brk = 0,
     tabs = (\<lambda>_. ptr_NewDickTable 0), tabs_brk = 0\<rparr>"

theorem pointers_refine_map_witness:
  "\<exists>w. heap_run (ptr_XDICK_Get demo_env) (ptr_XDICK_Set demo_env) (ptr_XDICK_Del demo_env)
       [SetReq ''a'' (GoString ''1''), GetReq ''a'', DelReq ''a'', GetReq ''a''] (ptr_NewXDICK 10 demo_heap) =
     Some (Inr (w, [Done None, Value (GoString ''1''), Done None, Value GoNil]))"
  using pointers_refine_map [OF demo_env_ok(1), of 10
      "[SetReq ''a'' (GoString ''1''), GetReq ''a'', DelReq ''a'', GetReq ''a'']" demo_heap]
  by (auto simp: get_result_def)

text \<open>C10: No sequence of requests makes a chain cyclic: afterwards the loop along the \<open>next\<close> pointers
  returns from every bucket of both tables of every shard, whatever key it looks for.\<close>

theorem chains_always_end:
  assumes "env_ok E" and "n \<noteq> 0" and "length qs \<le> 2 ^ 61"
    and "heap_run (ptr_XDICK_Get E) (ptr_XDICK_Set E) (ptr_XDICK_Del E) qs (ptr_NewXDICK n H) =
      Some (Inr ((H', D), as))"
    and "s \<in> set (ptr_SubDICKs D)" and "p \<in> set (buckets (mainDICK H' s)) \<union> set (buckets (rehashingTable H' s))"
  shows "\<exists>e. find_entry H' k p = Some e"
proof -
  obtain i where "p \<in> set (buckets (tabs H' (table_ptr i s)))"
    using assms(6) that [of 0] that [of 1] by (auto simp: table_ptr_def mainDICK_def rehashingTable_def)
  moreover obtain d where "db_at (H', D) d" using heap_run_reaches [OF assms(1-3), of H] assms(4) by auto
  ultimately show ?thesis using db_at_walks assms(5) by blast
qed

theorem chains_always_end_witness:
  "\<exists>H' D s p e. heap_run (ptr_XDICK_Get demo_env) (ptr_XDICK_Set demo_env) (ptr_XDICK_Del demo_env)
       [SetReq ''a'' (GoString ''1'')] (ptr_NewXDICK 10 demo_heap) = Some (Inr ((H', D), [Done None])) \<and>
     s \<in> set (ptr_SubDICKs D) \<and> p \<in> set (buckets (mainDICK H' s)) \<union> set (buckets (rehashingTable H' s)) \<and>
     find_entry H' ''b'' p = Some e"
proof -
  let ?qs = "[SetReq ''a'' (GoString ''1'')] :: go_value request list"
  have ok: "env_ok demo_env" "(10 :: uint32) \<noteq> 0" "length ?qs \<le> 2 ^ 61" by (simp_all add: demo_env_ok)
  obtain w d where r: "heap_run (ptr_XDICK_Get demo_env) (ptr_XDICK_Set demo_env) (ptr_XDICK_Del demo_env) ?qs
      (ptr_NewXDICK 10 demo_heap) = Some (Inr (w, snd (map_run get_result EntryNotFound ?qs Map.empty)))"
    "db_at w d" "xinv demo_env d" "xview d = fst (map_run get_result EntryNotFound ?qs Map.empty)"
    by (rule heap_run_reaches [OF ok])
  obtain H' D where w: "w = (H', D)" by fastforce
  have "xview d ''a'' \<noteq> None" using r(4) by simp
  from db_at_has_bucket [OF r(2) [unfolded w] r(3) this] obtain s i where s: "s \<in> set (ptr_SubDICKs D)"
    "buckets (tabs H' (table_ptr i s)) \<noteq> []" by blast
  define p where "p = hd (buckets (tabs H' (table_ptr i s)))"
  have p: "p \<in> set (buckets (mainDICK H' s)) \<union> set (buckets (rehashingTable H' s))"
    using hd_in_set [OF s(2)] by (auto simp: p_def table_ptr_def mainDICK_def rehashingTable_def split: if_splits)
  from chains_always_end [OF ok r(1) [unfolded w] s(1) p, of "''b''"] show ?thesis
    using r(1) s(1) p unfolding w by auto
qed

end
