(* ===== verification/SharedServer.thy ===== *)
theory SharedServer
  imports SessionInv WebServer
begin

text \<open>
  The socket server and the HTTP handlers at work on the one database they share: any number of
  sessions of \<open>handleSocketConn\<close> (server/socket.go) and of requests to the handlers of
  server/ndb-server.go, whose steps interleave in any order. A session's step is one line, and
  for the lines that make it work through its keys one key; a request's step is one database
  operation. What an operation does is then not disturbed by others, as Concurrent shows.

  A panic in a session ends the process, as nothing recovers it; net/http recovers a panic of a
  handler, and only the request is lost. \<open>peers i\<close> says which writes of connection \<open>i\<close> succeed.
\<close>

subsection \<open>State\<close>

text \<open>Where a connection's handler stands: at \<open>ReadLine\<close>, in the loops \<open>getloopkeys\<close> and
  \<open>delloopkeys\<close> with the keys still to serve, or past the end of \<open>readlines\<close>.\<close>

datatype handler_phase = Reading | Getting "string list" | Deleting "string list" | Gone

record connection =
  unix_socket :: bool
  stage :: handler_phase
  variables :: sock_state

record shared_server =
  store :: XDatabase
  profile :: bool
  profiles :: nat
  links :: "nat \<rightharpoonup> connection"
  posts :: "nat \<rightharpoonup> (string \<times> go_value) list"
  answers :: "(nat \<times> response) list"

definition idle_server :: "XDatabase \<Rightarrow> shared_server" where
  "idle_server db = \<lparr>store = db, profile = False, profiles = 0, links = Map.empty,
     posts = Map.empty, answers = []\<rparr>"

text \<open>A session reads and writes what it shares through its pointer to the \<open>SOCKET\<close>.\<close>

definition load :: "shared_server \<Rightarrow> sock_state \<Rightarrow> sock_state" where
  "load s st = st\<lparr>sdb := store s, CPUfile := profile s, cpu_calls := profiles s\<rparr>"

definition keep :: "nat \<Rightarrow> connection \<Rightarrow> handler_phase \<Rightarrow> sock_state \<Rightarrow> shared_server \<Rightarrow> shared_server" where
  "keep i c ph st s = s\<lparr>store := sdb st, profile := CPUfile st, profiles := cpu_calls st,
     links := (links s)(i \<mapsto> c\<lparr>stage := ph, variables := st\<rparr>)\<rparr>"

subsection \<open>Steps of a session\<close>

definition env_of :: "'a sock_env_scheme \<Rightarrow> (nat \<Rightarrow> nat \<Rightarrow> bool) \<Rightarrow> nat \<Rightarrow> 'a sock_env_scheme" where
  "env_of E peers i = E\<lparr>peer := peers i\<rparr>"

definition open_conn :: "'a sock_env_scheme \<Rightarrow> nat \<Rightarrow> bool \<Rightarrow> shared_server \<Rightarrow> shared_server" where
  "open_conn E i socket s =
     (let st = new_session (store s) (profile s) (profiles s);
          (ok, st1) = (if socket then (True, st) else write_conn E (''200 X'' @ CRLF) st)
      in s\<lparr>links := (links s)(i \<mapsto> \<lparr>unix_socket = socket,
                     stage = (if ok then Reading else Gone), variables = st1\<rparr>)\<rparr>)"

text \<open>The lines that start a loop over the keys.\<close>

definition starts_loop :: "string \<Rightarrow> sock_state \<Rightarrow> bool" where
  "starts_loop line st \<longleftrightarrow> mode st \<in> {modeGET, modeDEL} \<and> state st = 1 \<and> line = ETB"

definition count_line :: "string \<Rightarrow> sock_state \<Rightarrow> sock_state" where
  "count_line line st = st\<lparr>recvbytes := recvbytes st + of_nat (length line) + 2\<rparr>"

definition read_line ::
    "'a sock_env_scheme \<Rightarrow> nat \<Rightarrow> connection \<Rightarrow> string \<Rightarrow> shared_server \<Rightarrow> shared_server go" where
  "read_line E i c line s =
     (let st = load s (variables c) in
      if starts_loop line st then
        let st1 = count_line line st in
        Inr (keep i c (if mode st1 = modeGET then Getting (keys st1) else Deleting (keys st1)) st1 s)
      else
        rbind (readline_body E (unix_socket c) line st) (\<lambda>(fl, st1).
          Inr (keep i c (case fl of BreakRead \<Rightarrow> Gone | ContinueRead \<Rightarrow> Reading) st1 s)))"

definition serve_key :: "'a sock_env_scheme \<Rightarrow> nat \<Rightarrow> connection \<Rightarrow> shared_server \<Rightarrow> shared_server go" where
  "serve_key E i c s =
     (let st = load s (variables c) in
      case stage c of
        Getting [] \<Rightarrow> Inr (keep i c Reading (st\<lparr>mode := no_mode, keys := []\<rparr>) s)
      | Getting (k # ks) \<Rightarrow>
          rbind (get_loop_keys E (length (keys st)) [k] st) (\<lambda>(broken, st1).
            Inr (keep i c (if broken then Gone else Getting ks) st1 s))
      | Deleting [] \<Rightarrow> Inr (keep i c Reading st s)
      | Deleting (k # ks) \<Rightarrow>
          rbind (del_loop_keys E [k] st) (\<lambda>(broken, st1).
            Inr (keep i c (if broken then Gone else Deleting ks) st1 s))
      | _ \<Rightarrow> Inr s)"

subsection \<open>Steps of a request\<close>

text \<open>A POST of a decoded object inserts its pairs one by one; the other requests use the
  database once at most.\<close>

definition answer :: "nat \<Rightarrow> response \<Rightarrow> shared_server \<Rightarrow> shared_server" where
  "answer j w s = s\<lparr>posts := (posts s)(j := None), answers := answers s @ [(j, w)]\<rparr>"

definition take_request ::
    "'a sock_env_scheme \<Rightarrow> nat \<Rightarrow> handler \<Rightarrow> string \<Rightarrow> string \<Rightarrow> (string \<times> go_value) list option \<Rightarrow>
     shared_server \<Rightarrow> shared_server" where
  "take_request E j h meth key decoded s =
     (if h = RouteSet \<and> meth = ''POST'' \<and> decoded \<noteq> None
      then s\<lparr>posts := (posts s)(j := decoded)\<rparr>
      else case dispatch E (store s) h meth key decoded of
             Inl _ \<Rightarrow> s
           | Inr (db, w) \<Rightarrow> answer j w (s\<lparr>store := db\<rparr>))"

definition insert_pair ::
    "'a sock_env_scheme \<Rightarrow> nat \<Rightarrow> (string \<times> go_value) list \<Rightarrow> shared_server \<Rightarrow> shared_server" where
  "insert_pair E j kvs s =
     (case kvs of
        [] \<Rightarrow> answer j (WriteHeader StatusCreated (nilheader fresh_response)) s
      | (k, v) # rest \<Rightarrow>
          (case XDatabase_Set E (store s) k v of
             Inl _ \<Rightarrow> s\<lparr>posts := (posts s)(j := None)\<rparr>
           | Inr (db, err) \<Rightarrow>
               if err \<noteq> None
               then answer j (WriteHeader StatusInternalServerError (nilheader fresh_response))
                      (s\<lparr>store := db\<rparr>)
               else s\<lparr>store := db, posts := (posts s)(j \<mapsto> rest)\<rparr>))"

subsection \<open>Runs\<close>

text \<open>What happens next: a connection is accepted, delivers a line or ends; a session serves a
  key; a request arrives, a request inserts a pair. What is not possible changes nothing.\<close>

datatype happening =
    Connect nat bool
  | Line nat string
  | ServeKey nat
  | Hangup nat
  | Request nat handler string string "(string \<times> go_value) list option"
  | Insert nat

fun happen ::
    "'a sock_env_scheme \<Rightarrow> (nat \<Rightarrow> nat \<Rightarrow> bool) \<Rightarrow> happening \<Rightarrow> shared_server \<Rightarrow> shared_server go" where
  "happen E peers (Connect i socket) s =
     Inr (if links s i = None then open_conn (env_of E peers i) i socket s else s)"
| "happen E peers (Line i line) s =
     (case links s i of
        None \<Rightarrow> Inr s
      | Some c \<Rightarrow> if stage c = Reading then read_line (env_of E peers i) i c line s else Inr s)"
| "happen E peers (ServeKey i) s =
     (case links s i of None \<Rightarrow> Inr s | Some c \<Rightarrow> serve_key (env_of E peers i) i c s)"
| "happen E peers (Hangup i) s =
     (case links s i of
        None \<Rightarrow> Inr s
      | Some c \<Rightarrow>
          Inr (if stage c = Reading then s\<lparr>links := (links s)(i \<mapsto> c\<lparr>stage := Gone\<rparr>)\<rparr> else s))"
| "happen E peers (Request j h meth key decoded) s =
     Inr (if posts s j = None then take_request E j h meth key decoded s else s)"
| "happen E peers (Insert j) s =
     (case posts s j of None \<Rightarrow> Inr s | Some kvs \<Rightarrow> Inr (insert_pair E j kvs s))"

fun run_server ::
    "'a sock_env_scheme \<Rightarrow> (nat \<Rightarrow> nat \<Rightarrow> bool) \<Rightarrow> happening list \<Rightarrow> shared_server \<Rightarrow>
     shared_server go" where
  "run_server E peers [] s = Inr s"
| "run_server E peers (h # hs) s = rbind (happen E peers h s) (run_server E peers hs)"

subsection \<open>The steps together do what the handlers do\<close>

lemma get_loop_keys_Cons:
  "get_loop_keys E n (k # ks) st =
     rbind (get_loop_keys E n [k] st) (\<lambda>(broken, st1).
       if broken then Inr (True, st1) else get_loop_keys E n ks st1)"
  by (cases "XDatabase_Get E (sdb st) k")
    (auto split: go_value.splits prod.splits if_splits)

lemma del_loop_keys_Cons:
  "del_loop_keys E (k # ks) st =
     rbind (del_loop_keys E [k] st) (\<lambda>(broken, st1).
       if broken then Inr (True, st1) else del_loop_keys E ks st1)"
  by (cases "XDatabase_Del E (sdb st) k") (auto simp: Let_def split: prod.splits if_splits)

lemma links_keep [simp]: "links (keep i c ph st s) = (links s)(i \<mapsto> c\<lparr>stage := ph, variables := st\<rparr>)"
  by (simp add: keep_def)

lemma load_keep [simp]: "load (keep i c ph st s) st = st"
  by (simp add: keep_def load_def)

lemma keep_keep [simp]:
  "keep i (c\<lparr>stage := ph, variables := st\<rparr>) ph' st' (keep i c ph st s) = keep i c ph' st' s"
  by (simp add: keep_def)

lemma WriteString_keys: "WriteString E t st = (ok, st') \<Longrightarrow> keys st' = keys st"
  using WriteString_frame [of E t st ok st'] by (simp add: same_session_def)

lemma get_loop_keys_keys: "get_loop_keys E n ks st = Inr (b, st') \<Longrightarrow> keys st' = keys st"
proof (induction ks arbitrary: st)
  case (Cons k ks)
  then show ?case
    by (cases "XDatabase_Get E (sdb st) k")
      (auto split: go_value.splits prod.splits if_splits dest: WriteString_keys Cons.IH)
qed simp

lemma serve_key_gone [simp]: "stage c = Gone \<Longrightarrow> serve_key E i c s = Inr s"
  by (simp add: serve_key_def Let_def)

lemma happen_gone [simp]:
  "happen E peers (ServeKey i) (keep i c Gone st s) = Inr (keep i c Gone st s)"
  "happen E peers (Line i line) (keep i c Gone st s) = Inr (keep i c Gone st s)"
  by simp_all

lemma serve_when_gone [simp]:
  "run_server E peers (replicate n (ServeKey i)) (keep i c Gone st s) = Inr (keep i c Gone st s)"
  by (induction n) simp_all

lemma serve_get_run:
  assumes "links s i = Some c" and "stage c = Getting ks"
  shows "run_server E peers (replicate (Suc (length ks)) (ServeKey i)) s =
     rbind (get_loop_keys (env_of E peers i) (length (keys (variables c))) ks (load s (variables c)))
       (\<lambda>(broken, st). Inr (if broken then keep i c Gone st s
                           else keep i c Reading (st\<lparr>mode := no_mode, keys := []\<rparr>) s))"
  using assms
proof (induction ks arbitrary: s c)
  case Nil
  then show ?case by (simp add: serve_key_def Let_def)
next
  case (Cons k ks)
  let ?E = "env_of E peers i" and ?st = "load s (variables c)"
  have keys: "keys ?st = keys (variables c)" by (simp add: load_def)
  show ?case
  proof (cases "get_loop_keys ?E (length (keys (variables c))) [k] ?st")
    case (Inl p)
    then show ?thesis using Cons.prems
      by (simp add: serve_key_def Let_def keys get_loop_keys_Cons [of _ _ k ks] del: get_loop_keys.simps(2))
  next
    case (Inr r)
    obtain b st1 where r: "r = (b, st1)" by fastforce
    let ?s1 = "keep i c (if b then Gone else Getting ks) st1 s"
    have "keys st1 = keys (variables c)" using get_loop_keys_keys [OF Inr [unfolded r]] keys by simp
    moreover have "happen E peers (ServeKey i) s = Inr ?s1"
      using Cons.prems Inr r by (simp add: serve_key_def Let_def keys del: get_loop_keys.simps(2))
    ultimately show ?thesis
      using Inr r Cons.IH [of "keep i c (Getting ks) st1 s" "c\<lparr>stage := Getting ks, variables := st1\<rparr>"]
      by (cases "b = True") (simp_all add: get_loop_keys_Cons [of _ _ k ks] cong: if_cong
          del: get_loop_keys.simps(2) happen.simps)
  qed
qed

lemma serve_del_run:
  assumes "links s i = Some c" and "stage c = Deleting ks"
  shows "run_server E peers (replicate (Suc (length ks)) (ServeKey i)) s =
     rbind (del_loop_keys (env_of E peers i) ks (load s (variables c)))
       (\<lambda>(broken, st). Inr (keep i c (if broken then Gone else Reading) st s))"
  using assms
proof (induction ks arbitrary: s c)
  case Nil
  then show ?case by (simp add: serve_key_def Let_def)
next
  case (Cons k ks)
  let ?E = "env_of E peers i" and ?st = "load s (variables c)"
  show ?case
  proof (cases "del_loop_keys ?E [k] ?st")
    case (Inl p)
    then show ?thesis using Cons.prems
      by (simp add: serve_key_def Let_def del_loop_keys_Cons [of _ k ks] del: del_loop_keys.simps(2))
  next
    case (Inr r)
    obtain b st1 where r: "r = (b, st1)" by fastforce
    let ?s1 = "keep i c (if b then Gone else Deleting ks) st1 s"
    have "happen E peers (ServeKey i) s = Inr ?s1"
      using Cons.prems Inr r by (simp add: serve_key_def Let_def del: del_loop_keys.simps(2))
    then show ?thesis
      using Inr r Cons.IH [of "keep i c (Deleting ks) st1 s" "c\<lparr>stage := Deleting ks, variables := st1\<rparr>"]
      by (cases "b = True") (simp_all add: del_loop_keys_Cons [of _ k ks] del: del_loop_keys.simps(2) happen.simps)
  qed
qed

text \<open>A line and the keys it makes the session serve: the iteration of \<open>readlines\<close> for the line.\<close>

definition line_events :: "nat \<Rightarrow> string \<Rightarrow> sock_state \<Rightarrow> happening list" where
  "line_events i line st =
     Line i line # (if starts_loop line st then replicate (Suc (length (keys st))) (ServeKey i) else [])"

definition after_line :: "flow \<Rightarrow> handler_phase" where
  "after_line fl = (case fl of BreakRead \<Rightarrow> Gone | ContinueRead \<Rightarrow> Reading)"

lemma readline_body_get:
  assumes "starts_loop line st" and "mode st = modeGET"
  shows "readline_body E socket line st =
     rbind (get_loop_keys E (length (keys st)) (keys st) (count_line line st)) (\<lambda>(broken, st1).
       if broken then Inr (BreakRead, st1)
       else Inr (ContinueRead, st1\<lparr>mode := no_mode, keys := []\<rparr>))"
  using assms
  by (simp add: readline_body_def handle_modeGET_def modeGET_state1_def starts_loop_def count_line_def
      mode_defs ETB_def Let_def)

lemma readline_body_del:
  assumes "starts_loop line st" and "mode st = modeDEL"
  shows "readline_body E socket line st =
     rbind (del_loop_keys E (keys st) (count_line line st)) (\<lambda>(broken, st1).
       if broken then Inr (BreakRead, st1) else Inr (ContinueRead, st1))"
  using assms
  by (simp add: readline_body_def handle_modeDEL_def modeDEL_state1_def starts_loop_def count_line_def
      mode_defs ETB_def Let_def)

lemma run_line:
  assumes c: "links s i = Some c" "stage c = Reading"
  shows "run_server E peers (line_events i line (variables c)) s =
     rbind (readline_body (env_of E peers i) (unix_socket c) line (load s (variables c)))
       (\<lambda>(fl, st). Inr (keep i c (after_line fl) st s))"
proof (cases "starts_loop line (variables c)")
  case False
  moreover have "starts_loop line (load s (variables c)) = starts_loop line (variables c)"
    by (simp add: starts_loop_def load_def)
  ultimately show ?thesis using c
    by (cases "readline_body (env_of E peers i) (unix_socket c) line (load s (variables c))")
      (simp_all add: line_events_def read_line_def Let_def after_line_def split: prod.splits)
next
  case True
  let ?E = "env_of E peers i" and ?l = "load s (variables c)"
  let ?st = "count_line line ?l"
  have l: "mode ?l = mode (variables c)" "state ?l = state (variables c)" "keys ?l = keys (variables c)"
    by (simp_all add: load_def)
  have loop: "starts_loop line ?l" using True by (simp add: starts_loop_def l)
  have ev: "run_server E peers (line_events i line (variables c)) s =
      run_server E peers (replicate (Suc (length (keys (variables c)))) (ServeKey i))
        (keep i c (if mode ?l = modeGET then Getting (keys ?l) else Deleting (keys ?l)) ?st s)"
    using c True loop by (simp add: line_events_def read_line_def count_line_def Let_def)
  note run = serve_get_run [of "keep i c ph ?st s" i "c\<lparr>stage := ph, variables := ?st\<rparr>" for ph]
    serve_del_run [of "keep i c ph ?st s" i "c\<lparr>stage := ph, variables := ?st\<rparr>" for ph]
  consider "mode ?l = modeGET" | "mode ?l = modeDEL" using loop by (auto simp: starts_loop_def)
  then show ?thesis
  proof cases
    case 1
    have "run_server E peers (replicate (Suc (length (keys (variables c)))) (ServeKey i))
        (keep i c (Getting (keys ?l)) ?st s) =
      rbind (get_loop_keys ?E (length (keys ?l)) (keys ?l) ?st) (\<lambda>(broken, st).
        Inr (if broken then keep i c Gone st s
             else keep i c Reading (st\<lparr>mode := no_mode, keys := []\<rparr>) s))"
      using run(1) [of "Getting (keys ?l)" "keys ?l" E peers]
      by (simp add: l count_line_def cong: if_cong del: replicate_Suc)
    then show ?thesis using 1 unfolding ev readline_body_get [OF loop 1]
      by (cases "get_loop_keys ?E (length (keys ?l)) (keys ?l) ?st")
        (auto simp: after_line_def simp del: replicate_Suc split: prod.splits)
  next
    case 2
    then have m: "mode ?l \<noteq> modeGET" by (simp add: mode_defs)
    have "run_server E peers (replicate (Suc (length (keys (variables c)))) (ServeKey i))
        (keep i c (Deleting (keys ?l)) ?st s) =
      rbind (del_loop_keys ?E (keys ?l) ?st) (\<lambda>(broken, st).
        Inr (keep i c (if broken then Gone else Reading) st s))"
      using run(2) [of "Deleting (keys ?l)" "keys ?l" E peers]
      by (simp add: l count_line_def del: replicate_Suc)
    then show ?thesis using m unfolding ev readline_body_del [OF loop 2]
      by (cases "del_loop_keys ?E (keys ?l) ?st")
        (auto simp: after_line_def simp del: replicate_Suc split: prod.splits)
  qed
qed

text \<open>The events of a session that reads the given lines undisturbed.\<close>

fun session_events ::
    "'a sock_env_scheme \<Rightarrow> nat \<Rightarrow> bool \<Rightarrow> string list \<Rightarrow> sock_state \<Rightarrow> happening list" where
  "session_events E i socket [] st = []"
| "session_events E i socket (line # ls) st =
     line_events i line st @
     (case readline_body E socket line st of
        Inr (ContinueRead, st1) \<Rightarrow> session_events E i socket ls st1
      | _ \<Rightarrow> [])"

definition exchange ::
    "'a sock_env_scheme \<Rightarrow> (nat \<Rightarrow> nat \<Rightarrow> bool) \<Rightarrow> nat \<Rightarrow> string list \<Rightarrow> shared_server \<Rightarrow>
     shared_server go" where
  "exchange E peers i ls s =
     (case links s i of
        None \<Rightarrow> Inr s
      | Some c \<Rightarrow>
          run_server E peers
            (session_events (env_of E peers i) i (unix_socket c) ls (load s (variables c))) s)"

lemma run_server_append:
  "run_server E peers (hs @ hs') s = rbind (run_server E peers hs s) (run_server E peers hs')"
  by (induction hs arbitrary: s) (simp_all add: rbind_def split: sum.splits)

lemma exchange_eq:
  assumes "links s i = Some c" and "stage c = Reading" and "ls \<noteq> []"
  shows "exchange E peers i ls s =
     rbind (readlines_loop (env_of E peers i) (unix_socket c) ls (load s (variables c)))
       (\<lambda>(fl, st). Inr (keep i c (after_line fl) st s))"
proof -
  let ?E = "env_of E peers i"
  have "run_server E peers (session_events ?E i (unix_socket c) ls (load s (variables c))) s =
     rbind (readlines_loop ?E (unix_socket c) ls (load s (variables c)))
       (\<lambda>(fl, st). Inr (keep i c (after_line fl) st s))"
    using assms
  proof (induction ls arbitrary: s c)
    case (Cons line ls)
    let ?l = "load s (variables c)"
    have ev: "line_events i line ?l = line_events i line (variables c)"
      by (simp add: line_events_def starts_loop_def load_def)
    show ?case
    proof (cases "readline_body ?E (unix_socket c) line ?l")
      case (Inl p)
      then show ?thesis using Cons.prems by (simp add: ev run_line)
    next
      case (Inr r)
      obtain fl st1 where r: "r = (fl, st1)" by fastforce
      let ?s1 = "keep i c (after_line fl) st1 s"
      have "run_server E peers (line_events i line (variables c)) s = Inr ?s1"
        using Cons.prems Inr r by (simp add: run_line)
      then show ?thesis
        using Inr r Cons.IH [of "keep i c Reading st1 s" "c\<lparr>stage := Reading, variables := st1\<rparr>"]
        by (cases fl; cases "ls = []")
          (simp_all add: ev run_server_append after_line_def)
    qed
  qed simp
  then show ?thesis using assms(1) by (simp add: exchange_def)
qed

text \<open>A POST and its insertions, undisturbed: what \<open>HandlerSet\<close> does.\<close>

lemma happen_answered [simp]: "happen E peers (Insert j) (answer j w s) = Inr (answer j w s)"
  by (simp add: answer_def)

lemma insert_answered [simp]:
  "run_server E peers (replicate n (Insert j)) (answer j w s) = Inr (answer j w s)"
  by (induction n) (simp_all del: happen.simps)

lemma insert_run:
  assumes "posts s j = Some kvs" and "set_pairs E (store s) kvs = Inr (d, ok)"
  shows "run_server E peers (replicate (Suc (length kvs)) (Insert j)) s =
     Inr (answer j (WriteHeader (if ok then StatusCreated else StatusInternalServerError)
       (nilheader fresh_response)) (s\<lparr>store := d\<rparr>))"
  using assms
proof (induction kvs arbitrary: s)
  case Nil
  then show ?case by (auto simp: insert_pair_def)
next
  case (Cons p kvs)
  obtain k v where p: "p = (k, v)" by fastforce
  then obtain d1 err where d1: "XDatabase_Set E (store s) k v = Inr (d1, err)"
    using Cons.prems(2) by (auto simp: rbind_eq_Inr)
  show ?case
  proof (cases err)
    case None
    then have "set_pairs E d1 kvs = Inr (d, ok)" using Cons.prems(2) d1 p by simp
    then show ?thesis
      using Cons.IH [of "s\<lparr>store := d1, posts := (posts s)(j \<mapsto> kvs)\<rparr>"] Cons.prems(1) d1 p None
      by (simp add: insert_pair_def answer_def)
  next
    case (Some x)
    have "happen E peers (Insert j) s =
        Inr (answer j (WriteHeader StatusInternalServerError (nilheader fresh_response)) (s\<lparr>store := d1\<rparr>))"
      using Cons.prems(1) d1 p Some by (simp add: insert_pair_def)
    then show ?thesis using Cons.prems(2) d1 p Some by (auto simp del: happen.simps)
  qed
qed

lemma run_post:
  assumes "posts s j = None" and "HandlerSet E (store s) ''POST'' (Some kvs) fresh_response = Inr (d, w)"
  shows "run_server E peers
       (Request j RouteSet ''POST'' key (Some kvs) # replicate (Suc (length kvs)) (Insert j)) s =
     Inr (answer j w (s\<lparr>store := d\<rparr>))"
proof -
  obtain ok where "set_pairs E (store s) kvs = Inr (d, ok)"
    "w = WriteHeader (if ok then StatusCreated else StatusInternalServerError) (nilheader fresh_response)"
    using assms(2) by (auto simp: HandlerSet_def Let_def rbind_eq_Inr)
  then show ?thesis
    using insert_run [of "s\<lparr>posts := (posts s)(j \<mapsto> kvs)\<rparr>" j kvs E d ok peers] assms(1)
    by (simp add: take_request_def answer_def del: replicate_Suc)
qed

subsection \<open>The invariant\<close>

lemma env_of_db [simp]:
  "hasher (env_of E peers i) = hasher E" "hasher_ok (env_of E peers i) = hasher_ok E"
  "pool (env_of E peers i) = pool E"
proof -
  show h: "hasher (env_of E peers i) = hasher E"
    by (rule ext) (simp add: env_of_def hasher_def)
  show "hasher_ok (env_of E peers i) = hasher_ok E" "pool (env_of E peers i) = pool E"
    by (simp_all add: env_of_def hasher_ok_def)
qed

lemma safe_line_env [simp]: "safe_line (env_of E peers i) socket line = safe_line E socket line"
  by (simp add: safe_line_def env_of_def)

lemma hash_of_env [simp]: "hash_of (env_of E peers i) = hash_of E"
  by (rule ext) (simp add: hash_of_def)

lemma db_inv_env [simp]: "db_inv (env_of E peers i) d = db_inv E d"
  by (simp add: db_inv_def xinv_def env_ok_def sub_inv_def mid_rehash_def)

lemma db_fine_env [simp]: "db_fine (env_of E peers i) d = db_fine E d"
  by (simp add: db_fine_def)

text \<open>A session at work on its keys is in the mode and the state of that loop.\<close>

fun phase_ok :: "handler_phase \<Rightarrow> sock_state \<Rightarrow> bool" where
  "phase_ok Reading st = sess_ok st"
| "phase_ok (Getting ks) st = (sess_ok st \<and> mode st = modeGET \<and> state st = 1)"
| "phase_ok (Deleting ks) st = (sess_ok st \<and> mode st = modeDEL \<and> state st = 1)"
| "phase_ok Gone st = True"

definition string_pairs :: "(string \<times> go_value) list \<Rightarrow> bool" where
  "string_pairs kvs \<longleftrightarrow> (\<forall>(k, v) \<in> set kvs. \<exists>t. v = GoString t)"

definition server_ok :: "'a sock_env_scheme \<Rightarrow> shared_server \<Rightarrow> bool" where
  "server_ok E s \<longleftrightarrow>
     db_fine E (store s) \<and>
     (\<forall>c \<in> ran (links s). phase_ok (stage c) (variables c)) \<and>
     (\<forall>kvs \<in> ran (posts s). string_pairs kvs)"

text \<open>What leaves the server alive: requests that post strings, and no command for a profile on a
  unix connection while the profiler is nil. \<open>unix i\<close> says which connections may be such.\<close>

fun harmless :: "'a sock_env_scheme \<Rightarrow> (nat \<Rightarrow> bool) \<Rightarrow> happening \<Rightarrow> bool" where
  "harmless E unix (Request j h meth key decoded) = (\<forall>kvs. decoded = Some kvs \<longrightarrow> string_pairs kvs)"
| "harmless E unix (Connect i socket) = (socket \<longrightarrow> unix i)"
| "harmless E unix (Line i line) = safe_line E (unix i) line"
| "harmless E unix _ = True"

definition unix_links :: "(nat \<Rightarrow> bool) \<Rightarrow> shared_server \<Rightarrow> bool" where
  "unix_links unix s \<longleftrightarrow> (\<forall>i c. links s i = Some c \<longrightarrow> unix_socket c \<longrightarrow> unix i)"

lemma unix_links_upd:
  "unix_links unix s \<Longrightarrow> (unix_socket c \<Longrightarrow> unix i) \<Longrightarrow> links s' = (links s)(i \<mapsto> c) \<Longrightarrow> unix_links unix s'"
  by (simp add: unix_links_def)

lemma unix_links_same: "unix_links unix s \<Longrightarrow> links s' = links s \<Longrightarrow> unix_links unix s'"
  by (simp add: unix_links_def)

lemma links_requests [simp]:
  "links (take_request E j h meth key decoded s) = links s" "links (insert_pair E j kvs s) = links s"
  by (simp_all add: take_request_def insert_pair_def answer_def split: sum.split prod.split list.split)

lemma sess_ok_load [simp]: "sess_ok (load s st) = sess_ok st"
  by (simp add: load_def sess_ok_def set_phase_def)

lemma load_simps [simp]:
  "mode (load s st) = mode st" "state (load s st) = state st" "keys (load s st) = keys st"
  "sdb (load s st) = store s" "sent (load s st) = sent st" "nwrites (load s st) = nwrites st"
  by (simp_all add: load_def)

lemma server_ok_keep:
  assumes "server_ok E s" and "db_fine E (sdb st)" and "phase_ok ph st"
  shows "server_ok E (keep i c ph st s)"
  using assms by (auto simp: server_ok_def keep_def ran_def)

lemma server_ok_conn: "server_ok E s \<Longrightarrow> links s i = Some c \<Longrightarrow> phase_ok (stage c) (variables c)"
  by (auto simp: server_ok_def ran_def)

text \<open>One step: no panic, the invariant holds again and the database has at most one more entry.\<close>

definition fine_step :: "'a sock_env_scheme \<Rightarrow> shared_server \<Rightarrow> shared_server go \<Rightarrow> bool" where
  "fine_step E s r \<longleftrightarrow>
     (\<exists>s'. r = Inr s' \<and> server_ok E s' \<and> db_count (store s') \<le> Suc (db_count (store s)))"

lemma store_keep [simp]: "store (keep i c ph st s) = sdb st"
  by (simp add: keep_def)

lemma fine_stepI:
  "server_ok E s' \<Longrightarrow> db_count (store s') \<le> Suc (db_count (store s)) \<Longrightarrow> fine_step E s (Inr s')"
  by (simp add: fine_step_def)

lemma read_line_fine:
  assumes ok: "server_ok E s" and cap: "db_count (store s) < 2 ^ 61"
    and c: "links s i = Some c" "stage c = Reading"
    and safe: "safe_line E (unix_socket c) line"
  shows "fine_step E s (read_line (env_of E peers i) i c line s)"
proof -
  let ?st = "load s (variables c)"
  have st: "sess_ok ?st" "db_fine E (sdb ?st)"
    using server_ok_conn [OF ok c(1)] c(2) ok by (simp_all add: server_ok_def)
  show ?thesis
  proof (cases "starts_loop line ?st")
    case True
    have "sess_ok (count_line line ?st)"
      using st(1) sess_ok_same [of ?st "count_line line ?st"]
      by (simp add: count_line_def same_session_def)
    moreover have "mode ?st = modeDEL" if "mode ?st \<noteq> modeGET"
      using True that by (simp add: starts_loop_def)
    ultimately have "phase_ok (if mode ?st = modeGET then Getting ks else Deleting ks) (count_line line ?st)"
      for ks using True by (simp add: starts_loop_def count_line_def)
    then show ?thesis using True st(2)
      by (auto simp: read_line_def Let_def count_line_def intro!: fine_stepI server_ok_keep ok)
  next
    case False
    have "step_fine (env_of E peers i) ?st (readline_body (env_of E peers i) (unix_socket c) line ?st)"
      using st cap safe by (intro readline_body_fine) simp_all
    then obtain fl st' where b: "readline_body (env_of E peers i) (unix_socket c) line ?st = Inr (fl, st')"
      "db_fine E (sdb st')" "db_count (sdb st') \<le> Suc (db_count (store s))"
      "fl = ContinueRead \<longrightarrow> sess_ok st'"
      by (auto simp: step_fine_def)
    then have "phase_ok (case fl of BreakRead \<Rightarrow> Gone | ContinueRead \<Rightarrow> Reading) st'"
      by (cases fl) simp_all
    with b(2,3) have "fine_step E s
        (Inr (keep i c (case fl of BreakRead \<Rightarrow> Gone | ContinueRead \<Rightarrow> Reading) st' s))"
      by (intro fine_stepI server_ok_keep ok) simp_all
    then show ?thesis using False b(1) by (simp add: read_line_def Let_def)
  qed
qed

lemma serve_key_fine:
  assumes ok: "server_ok E s" and c: "links s i = Some c"
  shows "fine_step E s (serve_key (env_of E peers i) i c s)"
proof -
  let ?E = "env_of E peers i" and ?st = "load s (variables c)"
  have db: "db_fine ?E (sdb ?st)" using ok by (simp add: server_ok_def)
  note ph = server_ok_conn [OF ok c]
  show ?thesis
  proof (cases "stage c")
    case (Getting ks)
    then have st: "sess_ok ?st" "mode ?st = modeGET" "state ?st = 1" using ph by simp_all
    show ?thesis
    proof (cases ks)
      case Nil
      have "sess_ok (?st\<lparr>mode := no_mode, keys := []\<rparr>)" using st by (auto simp: sess_ok_def mode_defs)
      then show ?thesis using Getting Nil db
        by (simp add: serve_key_def Let_def fine_stepI server_ok_keep ok)
    next
      case (Cons k rest)
      obtain b st' where "get_loop_keys ?E (length (keys ?st)) [k] ?st = Inr (b, st')"
        "sdb st' = sdb ?st" "same_session ?st st'" using get_loop_keys_safe [OF db] by blast
      moreover from this have "phase_ok (Getting rest) st'"
        using st sess_ok_same [of ?st st'] by (simp add: same_session_def)
      ultimately show ?thesis using Getting Cons db
        by (cases b) (simp_all add: serve_key_def Let_def fine_stepI server_ok_keep ok del: get_loop_keys.simps)
    qed
  next
    case (Deleting ks)
    then have st: "sess_ok ?st" "mode ?st = modeDEL" "state ?st = 1" using ph by simp_all
    show ?thesis
    proof (cases ks)
      case Nil
      then show ?thesis using Deleting db st(1)
        by (simp add: serve_key_def Let_def fine_stepI server_ok_keep ok)
    next
      case (Cons k rest)
      obtain b st' where "del_loop_keys ?E [k] ?st = Inr (b, st')" "db_fine ?E (sdb st')"
        "db_count (sdb st') \<le> db_count (sdb ?st)" "same_session ?st st'"
        using del_loop_keys_safe [OF db] by blast
      moreover from this have "phase_ok (Deleting rest) st'"
        using st sess_ok_same [of ?st st'] by (simp add: same_session_def)
      ultimately show ?thesis using Deleting Cons
        by (cases b) (simp_all add: serve_key_def Let_def fine_stepI server_ok_keep ok del: del_loop_keys.simps)
    qed
  qed (use ok in \<open>simp_all add: serve_key_def Let_def fine_stepI\<close>)
qed

lemma dispatch_fine:
  assumes fine: "db_fine E db" and no_post: "\<not> (h = RouteSet \<and> meth = ''POST'' \<and> decoded \<noteq> None)"
    and r: "dispatch E db h meth key decoded = Inr (db', w)"
  shows "db_fine E db' \<and> db_count db' \<le> db_count db"
proof (cases "h = RouteDel \<and> meth = ''GET'' \<and> key \<noteq> []")
  case True
  obtain d err where "XDatabase_Del E db key = Inr (d, err)" "db_inv E d"
    "db_view d = (db_view db)(key := None)" "db_count d \<le> db_count db"
    using db.del_ok [of E db key] fine by (auto simp: db_fine_def)
  then show ?thesis using r True fine
    by (auto simp: dispatch_def HandlerDel_def Let_def db_fine_def)
next
  case False
  then have "db' = db" using r no_post
    by (cases h) (auto simp: dispatch_def HandlerDel_def HandlerSet_def Let_def rbind_eq_Inr
        split: if_splits option.splits)
  then show ?thesis using fine by simp
qed

lemma server_ok_answer: "server_ok E s \<Longrightarrow> server_ok E (answer j w s)"
  by (auto simp: server_ok_def answer_def ran_def)

lemma server_ok_store: "server_ok E s \<Longrightarrow> db_fine E d \<Longrightarrow> server_ok E (s\<lparr>store := d\<rparr>)"
  by (simp add: server_ok_def)

lemma server_ok_posts:
  "server_ok E s \<Longrightarrow> (\<And>kvs. p = Some kvs \<Longrightarrow> string_pairs kvs) \<Longrightarrow>
   server_ok E (s\<lparr>posts := (posts s)(j := p)\<rparr>)"
  by (auto simp: server_ok_def ran_def split: if_splits)

lemma store_answer [simp]: "store (answer j w s) = store s"
  by (simp add: answer_def)

lemma take_request_fine:
  assumes ok: "server_ok E s" and strings: "\<And>kvs. decoded = Some kvs \<Longrightarrow> string_pairs kvs"
  shows "fine_step E s (Inr (take_request E j h meth key decoded s))"
proof (cases "h = RouteSet \<and> meth = ''POST'' \<and> decoded \<noteq> None")
  case True
  then show ?thesis using strings
    by (simp add: take_request_def fine_stepI server_ok_posts ok)
next
  case False
  have fine: "db_fine E (store s)" using ok by (simp add: server_ok_def)
  show ?thesis
  proof (cases "dispatch E (store s) h meth key decoded")
    case (Inl p)
    then show ?thesis using False ok by (auto simp: take_request_def fine_stepI)
  next
    case (Inr r)
    obtain d w where r: "r = (d, w)" by fastforce
    with dispatch_fine [OF fine False, of key d w] Inr
    have d: "db_fine E d" "db_count d \<le> db_count (store s)" by simp_all
    have "take_request E j h meth key decoded s = answer j w (s\<lparr>store := d\<rparr>)"
      using False Inr r by (auto simp: take_request_def)
    then show ?thesis using d by (simp add: fine_stepI server_ok_answer server_ok_store ok)
  qed
qed

lemma insert_pair_fine:
  assumes ok: "server_ok E s" and cap: "db_count (store s) < 2 ^ 61" and j: "posts s j = Some kvs"
  shows "fine_step E s (Inr (insert_pair E j kvs s))"
proof -
  have kvs: "string_pairs kvs" using ok j by (auto simp: server_ok_def ran_def)
  show ?thesis
  proof (cases kvs)
    case Nil
    then show ?thesis using ok by (simp add: insert_pair_def fine_stepI server_ok_answer)
  next
    case (Cons p rest)
    obtain k t where p: "p = (k, GoString t)" and rest: "string_pairs rest"
      using kvs Cons by (cases p) (auto simp: string_pairs_def)
    obtain d where d: "XDatabase_Set E (store s) k (GoString t) = Inr (d, None)" "db_inv E d"
      "db_view d = (db_view (store s))(k \<mapsto> GoString t)" "db_count d \<le> Suc (db_count (store s))"
      using db.set_ok [of E, OF _ cap, of k "GoString t"] ok by (auto simp: server_ok_def db_fine_def)
    then have "db_fine E d" using ok by (simp add: server_ok_def db_fine_def)
    then have "server_ok E (s\<lparr>store := d, posts := (posts s)(j \<mapsto> rest)\<rparr>)"
      using server_ok_posts [of E "s\<lparr>store := d\<rparr>" "Some rest" j] rest
      by (simp add: server_ok_store ok)
    then show ?thesis using d(1,4) Cons p by (simp add: insert_pair_def fine_stepI)
  qed
qed

lemma server_ok_links:
  "server_ok E s \<Longrightarrow> phase_ok (stage c) (variables c) \<Longrightarrow>
   server_ok E (s\<lparr>links := (links s)(i \<mapsto> c)\<rparr>)"
  unfolding server_ok_def ran_def by auto

lemma open_conn_fine:
  assumes "server_ok E s"
  shows "fine_step E s (Inr (open_conn E' i socket s))"
proof -
  let ?st = "new_session (store s) (profile s) (profiles s)"
  obtain ok st1 where r: "(if socket then (True, ?st) else write_conn E' (''200 X'' @ CRLF) ?st) = (ok, st1)"
    by fastforce
  have new: "sess_ok ?st" by (simp add: sess_ok_def new_session_def)
  then have "sess_ok (snd (write_conn E' (''200 X'' @ CRLF) ?st))"
    using sess_ok_same [OF write_conn_frame(2)] by blast
  then have "sess_ok st1" using new r by (cases socket) simp_all
  then have "phase_ok (if ok then Reading else Gone) st1" by simp
  moreover have "open_conn E' i socket s = s\<lparr>links := (links s)(i \<mapsto>
      \<lparr>unix_socket = socket, stage = (if ok then Reading else Gone), variables = st1\<rparr>)\<rparr>"
    using r by (simp add: open_conn_def Let_def)
  ultimately show ?thesis using server_ok_links [OF assms] by (simp add: fine_stepI)
qed

lemma keep_unix:
  "unix_links unix s \<Longrightarrow> links s i = Some c \<Longrightarrow> unix_links unix (keep i c ph st s)"
  by (auto simp: unix_links_def)

lemma happen_unix:
  assumes h: "happen E peers h s = Inr s'" "harmless E unix h" and u: "unix_links unix s"
  shows "unix_links unix s'"
proof (cases h)
  case (Connect i socket)
  then show ?thesis using h u
    by (auto simp: open_conn_def Let_def case_prod_beta unix_links_def split: if_splits)
next
  case (Line i line)
  then show ?thesis using h u
    by (auto simp: read_line_def Let_def rbind_eq_Inr keep_unix split: option.splits if_splits)
next
  case (ServeKey i)
  then show ?thesis using h u
    by (auto simp: serve_key_def Let_def rbind_eq_Inr keep_unix
        split: option.splits handler_phase.splits list.splits simp del: get_loop_keys.simps del_loop_keys.simps)
next
  case (Hangup i)
  then show ?thesis using h u by (auto simp: unix_links_def split: option.splits if_splits)
qed (use h u in \<open>auto intro: unix_links_same split: option.splits if_splits\<close>)

lemma happen_fine:
  assumes ok: "server_ok E s" and cap: "db_count (store s) < 2 ^ 61"
    and h: "harmless E unix h" and u: "unix_links unix s"
  shows "fine_step E s (happen E peers h s)"
proof (cases h)
  case (Hangup i)
  show ?thesis
  proof (cases "links s i")
    case (Some c)
    have "server_ok E (s\<lparr>links := (links s)(i \<mapsto> c\<lparr>stage := Gone\<rparr>)\<rparr>)"
      using ok by (intro server_ok_links) simp_all
    then show ?thesis using Some Hangup ok by (simp add: fine_stepI)
  qed (use Hangup ok in \<open>simp add: fine_stepI\<close>)
next
  case (Line i line)
  have "safe_line E (unix_socket c) line" if "links s i = Some c" for c
    using h u that by (auto simp: Line unix_links_def safe_line_def)
  then show ?thesis using Line ok cap by (auto simp: fine_stepI read_line_fine split: option.splits)
qed (use ok cap h in \<open>auto simp: fine_stepI open_conn_fine read_line_fine serve_key_fine
    take_request_fine insert_pair_fine split: option.splits\<close>)

lemma run_server_fine:
  assumes "server_ok E s" and "db_count (store s) + length hs \<le> 2 ^ 61"
    and "unix_links unix s" and "list_all (harmless E unix) hs"
  shows "\<exists>s'. run_server E peers hs s = Inr s' \<and> server_ok E s' \<and>
     db_count (store s') \<le> db_count (store s) + length hs"
  using assms
proof (induction hs arbitrary: s)
  case (Cons h hs)
  then have "fine_step E s (happen E peers h s)" by (intro happen_fine [where unix = unix]) simp_all
  then obtain s1 where s1: "happen E peers h s = Inr s1" "server_ok E s1"
    "db_count (store s1) \<le> Suc (db_count (store s))" by (auto simp: fine_step_def)
  have "unix_links unix s1" using happen_unix [OF s1(1)] Cons.prems by simp
  from Cons.IH [OF s1(2) _ this] Cons.prems s1(3) obtain s' where
    "run_server E peers hs s1 = Inr s'" "server_ok E s'"
    "db_count (store s') \<le> db_count (store s1) + length hs" by fastforce
  then show ?case using s1(1,3) by fastforce
qed simp

lemma server_ok_idle: "db_fine E d \<Longrightarrow> server_ok E (idle_server d)"
  by (simp add: server_ok_def idle_server_def)

end
