(* ===== verification/ServerProperties.thy ===== *)
theory ServerProperties
  imports EndToEnd SharedServer
begin

text \<open>
  The properties of the parts around the storage: the socket sessions, the access list, the
  HTTP handlers, the client library, the configuration, the logger and the string helpers.
\<close>

subsection \<open>Socket sessions\<close>

text \<open>C6: Whatever bytes a client sends, over the unix socket or the network, and whether or not
  it reads the replies, the handler of its session ends without a panic and leaves a well-formed
  database, provided that the database holds strings only and that, on the unix socket, the client
  asks for no profile unless the profiler is running. Without it, which is the default, the
  command for a CPU profile does end the server.\<close>

theorem session_panics_only_for_profiles:
  assumes "db_fine E db" and "db_count db + length (read_lines input) \<le> 2 ^ 61"
  shows "(list_all (safe_line E socket) (read_lines input) \<longrightarrow>
      (\<exists>st. handleSocketConn E socket input (new_session db cpu calls) = Inr st \<and>
        db_fine E (sdb st) \<and> db_count (sdb st) \<le> db_count db + length (read_lines input))) \<and>
    (Prof E = None \<longrightarrow>
      handleSocketConn E True (Magic2 @ ''|x'' @ CRLF @ input) (new_session db cpu calls) =
        Inl NilDereference)"
proof (intro conjI impI)
  assume safe: "list_all (safe_line E socket) (read_lines input)"
  obtain ok st1 where st1: "(if socket then (True, new_session db cpu calls)
      else write_conn E (''200 X'' @ CRLF) (new_session db cpu calls)) = (ok, st1)" by fastforce
  then have f: "sdb st1 = db" "sess_ok st1"
    using idle_new [of db cpu calls] sess_ok_same [of "new_session db cpu calls" st1]
    by (auto simp: idle_def new_session_def write_conn_def Let_def same_session_def split: if_splits)
  obtain fl st2 where "readlines_loop E socket (read_lines input) st1 = Inr (fl, st2)"
    "db_fine E (sdb st2)" "db_count (sdb st2) \<le> db_count db + length (read_lines input)"
    using readlines_loop_fine [of E st1 "read_lines input" socket] assms f safe by auto
  then show "\<exists>st. handleSocketConn E socket input (new_session db cpu calls) = Inr st \<and>
      db_fine E (sdb st) \<and> db_count (sdb st) \<le> db_count db + length (read_lines input)"
    using st1 f(1) assms by (cases ok) (simp_all add: handleSocketConn_def)
next
  assume "Prof E = None"
  moreover have "read_lines (Magic2 @ ''|x'' @ CRLF @ input) = ''2|x'' # read_lines input"
    using read_lines_line [of "''2|x''" input] by (simp add: Magic2_def line_text_def)
  moreover have "readline_body E True ''2|x'' (new_session db cpu calls) = Inl NilDereference"
    if "Prof E = None"
    using that by (simp add: readline_body_def handle_no_mode_def new_session_def slice_0_2_def
        strings_Split_def go_split.simps [of "''|''"] run_command_def cmd_Magic2_def magic_defs Let_def mode_defs)
  ultimately show "handleSocketConn E True (Magic2 @ ''|x'' @ CRLF @ input) (new_session db cpu calls) =
      Inl NilDereference"
    by (simp add: handleSocketConn_def)
qed

theorem session_panics_only_for_profiles_witness:
  "(\<exists>st. handleSocketConn demo_env True (''S|1'' @ CRLF @ ''k'' @ CRLF @ ''v'')
       (new_session demo_db False 0) = Inr st \<and> db_fine demo_env (sdb st)) \<and>
   handleSocketConn demo_env True (''2|x'' @ CRLF) (new_session demo_db False 0) = Inl NilDereference"
proof -
  let ?in = "''S|1'' @ CRLF @ ''k'' @ CRLF @ ''v''"
  have lines: "read_lines ?in = [''S|1'', ''k'', ''v'']"
    by (simp add: read_lines_def crlf_defs trim_cr_def)
  then have "list_all (safe_line demo_env True) (read_lines ?in)"
    by (simp add: safe_line_def profile_command_def magic_defs)
  then show ?thesis
    using session_panics_only_for_profiles [OF demo_db_ok(4), of ?in True False 0] lines
      session_panics_only_for_profiles [OF demo_db_ok(4), of "[]" True False 0]
      demo_db_ok(3) by (auto simp: demo_env_def Magic2_def)
qed

text \<open>C17: A GET of any number of keys answers each key on a line of its own, in the order asked:
  the stored value, or NUL for a key that is absent; the announced number of keys is not
  compared with the keys sent; database unchanged, session ready for the next command.\<close>

theorem socket_get_answers_in_order:
  assumes "session_ready E st" and "good_count n" and "ks \<noteq> []"
    and "\<forall>k \<in> set ks. length k \<le> KEY_LIMIT"
  shows "\<exists>st'. readlines_loop E s ((MagicG @ ''|'' @ n) # key_lines ks @ [ETB]) st =
       Inr (ContinueRead, st') \<and> session_ready E st' \<and> sdb st' = sdb st \<and>
     sent st' = sent st @ concat (map (\<lambda>k. reply_text (db_view (sdb st)) k @ CRLF) ks)"
proof -
  have "get_reply m = (\<lambda>k. reply_text m k @ CRLF)" for m by (rule ext) (rule get_reply_text)
  then show ?thesis using get_exchange [of st E n ks s] assms by (auto simp: session_ready_def)
qed

theorem socket_get_answers_in_order_witness:
  "\<exists>st'. readlines_loop demo_env False [''G|1'', ''a'', BEL, ''b'', ETB] demo_session =
       Inr (ContinueRead, st') \<and> sent st' = NUL @ CRLF @ NUL @ CRLF"
proof -
  have "length ''a'' \<le> KEY_LIMIT" by (simp add: KEY_LIMIT_def)
  moreover have "sent demo_session = []" by (simp add: demo_session_def new_session_def)
  ultimately show ?thesis
    using socket_get_answers_in_order [OF demo_ready(1) good_count_1, of "[''a'', ''b'']" False]
      demo_ready(2) demo_db_ok(2)
    by (auto simp: KEY_LIMIT_def MagicG_def reply_text_def)
qed

text \<open>C18: A SET of one pair stores it under its key, answers a single ACK, leaves all other keys
  alone, and leaves the session ready for the next command.\<close>

theorem socket_set_stores_pair:
  assumes "session_ready E st" and "db_count (sdb st) < 2 ^ 61" and "good_count n"
    and "length k \<le> KEY_LIMIT" and "length v \<le> VAL_LIMIT"
  shows "\<exists>st'. readlines_loop E s [MagicS @ ''|'' @ n, k, v, ETB] st = Inr (ContinueRead, st') \<and>
     session_ready E st' \<and> db_view (sdb st') = (db_view (sdb st))(k \<mapsto> GoString v) \<and>
     sent st' = sent st @ ACK @ CRLF"
  using set_exchange [of st E n k v s] assms by (auto simp: session_ready_def)

theorem socket_set_stores_pair_witness:
  "\<exists>st'. readlines_loop demo_env True [''S|1'', ''k'', ''v'', ETB] demo_session =
       Inr (ContinueRead, st') \<and> db_view (sdb st') = [''k'' \<mapsto> GoString ''v'']"
  using socket_set_stores_pair [OF demo_ready(1) _ good_count_1, of "''k''" "''v''" True]
    demo_ready(2) demo_db_ok(2,3)
  by (auto simp: KEY_LIMIT_def VAL_LIMIT_def MagicS_def)

text \<open>C38: A second pair in one SET is impossible: after the BEL that should announce it, a key
  that is not one byte long is answered with CAN, the session ends, and the first pair is lost
  too.\<close>

theorem socket_set_second_pair_rejected:
  assumes "session_ready E st" and "good_count n" and "length k \<le> KEY_LIMIT"
    and "length v \<le> VAL_LIMIT" and "length k2 \<noteq> 1"
  shows "\<exists>st'. readlines_loop E s [MagicS @ ''|'' @ n, k, v, BEL, k2] st = Inr (BreakRead, st') \<and>
     sdb st' = sdb st \<and> sent st' = sent st @ CAN @ CRLF"
  using set_second_pair [of st n k v k2 E s] assms by (auto simp: session_ready_def)

theorem socket_set_second_pair_rejected_witness:
  "\<exists>st'. readlines_loop demo_env True [''S|1'', ''k'', ''v'', BEL, ''k2''] demo_session =
       Inr (BreakRead, st') \<and> sdb st' = demo_db"
  using socket_set_second_pair_rejected [OF demo_ready(1) good_count_1, of "''k''" "''v''" "''k2''" True]
    demo_ready(2)
  by (auto simp: KEY_LIMIT_def VAL_LIMIT_def MagicS_def)

text \<open>C19: A DEL removes every key it names, and its replies are the wrong way round: for each key
  in order NUL when the key was there and ACK when it was not.\<close>

theorem socket_del_replies_inverted:
  assumes "session_ready E st" and "good_count n" and "ks \<noteq> []"
    and "\<forall>k \<in> set ks. length k \<le> KEY_LIMIT"
  shows "\<exists>st'. readlines_loop E s ((MagicD @ ''|'' @ n) # key_lines ks @ [ETB]) st =
       Inr (ContinueRead, st') \<and> db_fine E (sdb st') \<and>
     db_view (sdb st') = (\<lambda>k. if k \<in> set ks then None else db_view (sdb st) k) \<and>
     sent st' = sent st @ del_replies (db_view (sdb st)) ks"
  using del_exchange [of st E n ks s] assms by (auto simp: session_ready_def without_def)

theorem socket_del_replies_inverted_witness:
  "\<exists>st'. readlines_loop demo_env True [''D|1'', ''k'', ETB] demo_session =
       Inr (ContinueRead, st') \<and> sent st' = ACK @ CRLF"
proof -
  have "sent demo_session = []" by (simp add: demo_session_def new_session_def)
  then show ?thesis
    using socket_del_replies_inverted [OF demo_ready(1) good_count_1, of "[''k'']" True]
      demo_ready(2) demo_db_ok(2)
    by (auto simp: KEY_LIMIT_def MagicD_def)
qed

text \<open>C20: A session that has done a DEL takes no further command: it is still in mode DEL, and
  the next line longer than one byte is answered with CAN and the connection is closed.\<close>

theorem command_after_del_closes:
  assumes "session_ready E st" and "good_count n" and "ks \<noteq> []"
    and "\<forall>k \<in> set ks. length k \<le> KEY_LIMIT" and "length line \<noteq> 1"
  shows "\<exists>st'. readlines_loop E s ((MagicD @ ''|'' @ n) # key_lines ks @ [ETB, line]) st =
       Inr (BreakRead, st') \<and>
     sent st' = sent st @ del_replies (db_view (sdb st)) ks @ CAN @ CRLF"
proof -
  obtain st1 where 1: "readlines_loop E s ((MagicD @ ''|'' @ n) # key_lines ks @ [ETB]) st =
       Inr (ContinueRead, st1)" "after_key modeDEL ks st1"
    "sent st1 = sent st @ del_replies (db_view (sdb st)) ks"
    using del_exchange [of st E n ks s] assms by (auto simp: session_ready_def)
  obtain st2 where 2: "readline_body E s line st1 = Inr (BreakRead, st2)"
    "sent st2 = sent st1 @ CAN @ CRLF"
    using after_del_step [OF 1(2) assms(5), of E s] assms(1) by (auto simp: session_ready_def)
  show ?thesis using readlines_loop_appendI [OF 1(1), of "[line]"] 1(3) 2 by simp
qed

theorem command_after_del_closes_witness:
  "\<exists>st'. readlines_loop demo_env True [''D|1'', ''k'', ETB, ''G|1''] demo_session =
       Inr (BreakRead, st')"
  using command_after_del_closes [OF demo_ready(1) good_count_1, of "[''k'']" "''G|1''" True]
  by (auto simp: KEY_LIMIT_def MagicD_def)

text \<open>A value that is not a string, such as a number stored over HTTP, makes the session that
  asks for it panic, and with it the server.\<close>

theorem socket_get_nonstring_panics:
  assumes "idle st" and "db_inv E (sdb st)" and "good_count n" and "length k \<le> KEY_LIMIT"
    and "db_view (sdb st) k = Some v" and "v \<noteq> GoNil" and "\<forall>s. v \<noteq> GoString s"
  shows "readlines_loop E s [MagicG @ ''|'' @ n, k, ETB] st = Inl TypeAssertionFailed"
  by (rule get_crash [OF assms])

theorem socket_get_nonstring_panics_witness:
  "\<exists>st. db_view (sdb st) = [''k'' \<mapsto> GoFloat 0] \<and>
     readlines_loop demo_env False [''G|1'', ''k'', ETB] st = Inl TypeAssertionFailed"
proof -
  obtain d where d: "db_inv demo_env d" "db_view d = [''k'' \<mapsto> GoFloat 0]"
    using db.set_ok [OF demo_db_ok(1), of "''k''" "GoFloat 0"] demo_db_ok(2,3) by auto
  let ?st = "new_session d False 0"
  have sdb: "sdb ?st = d" by (simp add: new_session_def)
  have "readlines_loop demo_env False [MagicG @ ''|'' @ ''1'', ''k'', ETB] ?st =
      Inl TypeAssertionFailed"
    by (rule socket_get_nonstring_panics [OF idle_new _ good_count_1, where v = "GoFloat 0"])
      (simp_all add: KEY_LIMIT_def sdb d)
  then show ?thesis using d(2) sdb by (intro exI [of _ ?st]) (simp add: MagicG_def)
qed

subsection \<open>Many connections on one database\<close>

lemma idle_load [simp]: "idle (load s st) = idle st"
  by (simp add: idle_def)

lemma reliable_env_of: "(\<And>n. peers i n) \<Longrightarrow> reliable (env_of E peers i)"
  by (simp add: reliable_def env_of_def)

definition waiting_conn :: "shared_server \<Rightarrow> nat \<Rightarrow> connection \<Rightarrow> bool" where
  "waiting_conn s i c \<longleftrightarrow> links s i = Some c \<and> stage c = Reading \<and> idle (variables c)"

text \<open>C5: However the lines, key by key work, ends of any number of connections and the requests of
  any number of HTTP clients interleave on the shared database, no session panics, the database
  stays well formed and every session stays in a proper phase, provided that only strings are
  posted and that no unix connection asks for a profile while the profiler is nil.\<close>

theorem interleavings_never_panic:
  assumes "server_ok E s" and "db_count (store s) + length hs \<le> 2 ^ 61"
    and "unix_links unix s" and "list_all (harmless E unix) hs"
  shows "\<exists>s'. run_server E peers hs s = Inr s' \<and> server_ok E s' \<and>
     db_count (store s') \<le> db_count (store s) + length hs"
  by (rule run_server_fine [OF assms])

definition demo_events :: "happening list" where
  "demo_events = [Connect 0 False, Connect 1 True, Line 1 ''S|1'',
     Request 7 RouteSet ''POST'' [] (Some [(''k'', GoString ''w'')]), Line 1 ''k'', Insert 7,
     Line 0 ''G|1'', Line 1 ''v'', Line 1 ETB, Insert 7, Line 0 ''k'', Line 0 ETB, Hangup 1, ServeKey 0]"

theorem interleavings_never_panic_witness:
  "\<exists>s'. run_server demo_env (\<lambda>_ _. True) demo_events (idle_server demo_db) = Inr s' \<and>
     server_ok demo_env s'"
proof -
  have "list_all (harmless demo_env (\<lambda>i. i = 1)) demo_events" "length demo_events = 14"
    by (simp_all add: demo_events_def string_pairs_def safe_line_def profile_command_def magic_defs
        ETB_def)
  moreover have "store (idle_server demo_db) = demo_db" "unix_links unix (idle_server demo_db)" for unix
    by (simp_all add: idle_server_def unix_links_def)
  ultimately show ?thesis
    using interleavings_never_panic [OF server_ok_idle [OF demo_db_ok(4)], of demo_events] demo_db_ok(3)
    by fastforce
qed

text \<open>C16: What one connection sets another one gets: the value is answered to the second connection
  and the first one is told ACK.\<close>

theorem other_connection_reads:
  assumes "server_ok E s" and "db_count (store s) < 2 ^ 61" and "a \<noteq> b"
    and "waiting_conn s a ca" and "waiting_conn s b cb" and "\<And>i n. i \<in> {a, b} \<Longrightarrow> peers i n"
    and "good_count m" and "good_count n" and "length k \<le> KEY_LIMIT" and "length v \<le> VAL_LIMIT"
  shows "\<exists>s1 s2 ca' cb'. exchange E peers a [MagicS @ ''|'' @ m, k, v, ETB] s = Inr s1 \<and>
     exchange E peers b [MagicG @ ''|'' @ n, k, ETB] s1 = Inr s2 \<and>
     waiting_conn s2 a ca' \<and> sent (variables ca') = sent (variables ca) @ ACK @ CRLF \<and>
     waiting_conn s2 b cb' \<and> sent (variables cb') = sent (variables cb) @ v @ CRLF"
proof -
  let ?E = "env_of E peers"
  have r: "reliable (?E a)" "reliable (?E b)" using assms(6) by (simp_all add: reliable_env_of)
  have fine: "db_fine E (store s)" using assms(1) by (simp add: server_ok_def)
  obtain st1 where st1: "readlines_loop (?E a) (unix_socket ca) [MagicS @ ''|'' @ m, k, v, ETB]
       (load s (variables ca)) = Inr (ContinueRead, st1)" "idle st1" "db_fine E (sdb st1)"
    "db_view (sdb st1) k = Some (GoString v)" "sent st1 = sent (variables ca) @ ACK @ CRLF"
    using set_exchange [of "load s (variables ca)" "?E a" m k v "unix_socket ca"] r fine assms
    by (auto simp: waiting_conn_def)
  let ?s1 = "keep a ca Reading st1 s"
  have cb: "waiting_conn ?s1 b cb" using assms(3,5) by (simp add: waiting_conn_def)
  obtain st2 where st2: "readlines_loop (?E b) (unix_socket cb) ((MagicG @ ''|'' @ n) # key_lines [k] @ [ETB])
       (load ?s1 (variables cb)) = Inr (ContinueRead, st2)" "idle st2"
    "sent st2 = sent (variables cb) @ v @ CRLF"
    using get_exchange [of "load ?s1 (variables cb)" "?E b" n "[k]" "unix_socket cb"] r st1 cb assms(8,9)
    by (auto simp: waiting_conn_def get_reply_text reply_text_def)
  have "exchange E peers a [MagicS @ ''|'' @ m, k, v, ETB] s = Inr ?s1"
    using assms(4) st1(1) by (simp add: exchange_eq waiting_conn_def after_line_def)
  moreover have "exchange E peers b [MagicG @ ''|'' @ n, k, ETB] ?s1 = Inr (keep b cb Reading st2 ?s1)"
    using cb st2(1) by (simp add: exchange_eq waiting_conn_def after_line_def del: links_keep load_keep)
  ultimately show ?thesis using assms(3) st1(2,5) st2(2,3)
    by (intro exI conjI) (auto simp: waiting_conn_def)
qed

lemma demo_waiting:
  "\<exists>s c1 c2. server_ok demo_env s \<and> store s = demo_db \<and> posts s = Map.empty \<and>
     waiting_conn s 1 c1 \<and> waiting_conn s 2 c2 \<and> sent (variables c2) = []"
proof -
  let ?c = "\<lparr>unix_socket = True, stage = Reading, variables = demo_session\<rparr>"
  let ?s = "(idle_server demo_db)\<lparr>links := [1 \<mapsto> ?c, 2 \<mapsto> ?c]\<rparr>"
  have "idle demo_session" "sent demo_session = []"
    using idle_new by (simp_all add: demo_session_def new_session_def)
  then have "server_ok demo_env ?s" "waiting_conn ?s 1 ?c" "waiting_conn ?s 2 ?c"
    using demo_db_ok(4) by (simp_all add: server_ok_def idle_server_def waiting_conn_def idle_def)
  moreover have "store ?s = demo_db" "posts ?s = Map.empty" by (simp_all add: idle_server_def)
  ultimately show ?thesis using \<open>sent demo_session = []\<close> by (intro exI conjI) (assumption | simp)+
qed

theorem other_connection_reads_witness:
  "\<exists>s s1 s2 c. server_ok demo_env s \<and>
     exchange demo_env (\<lambda>_ _. True) 1 [''S|1'', ''k'', ''v'', ETB] s = Inr s1 \<and>
     exchange demo_env (\<lambda>_ _. True) 2 [''G|1'', ''k'', ETB] s1 = Inr s2 \<and>
     waiting_conn s2 2 c \<and> sent (variables c) = ''v'' @ CRLF"
proof -
  obtain s c1 c2 where s: "server_ok demo_env s" "store s = demo_db"
    "waiting_conn s 1 c1" "waiting_conn s 2 c2" "sent (variables c2) = []"
    using demo_waiting by blast
  show ?thesis
    using other_connection_reads [OF s(1) _ _ s(3,4) _ good_count_1 good_count_1, of "\<lambda>_ _. True" "''k''" "''v''"]
      s demo_db_ok(3) by (auto simp: KEY_LIMIT_def VAL_LIMIT_def MagicS_def MagicG_def)
qed

text \<open>C39: A value that is no string, such as a number, is accepted over HTTP, and the first socket
  client that gets its key makes its session panic, which ends the server.\<close>

theorem posted_number_ends_server:
  assumes "server_ok E s" and "db_count (store s) < 2 ^ 61" and "posts s j = None"
    and "waiting_conn s i c" and "good_count n" and "length k \<le> KEY_LIMIT"
    and "v \<noteq> GoNil" and "\<forall>t. v \<noteq> GoString t"
  shows "\<exists>s'. run_server E peers [Request j RouteSet ''POST'' [] (Some [(k, v)]), Insert j, Insert j] s =
       Inr s' \<and>
     status (snd (last (answers s'))) = Some StatusCreated \<and>
     exchange E peers i [MagicG @ ''|'' @ n, k, ETB] s' = Inl TypeAssertionFailed"
proof -
  obtain d where d: "XDatabase_Set E (store s) k v = Inr (d, None)" "db_inv E d" "db_view d k = Some v"
    using db.set_ok [of E, OF _ assms(2), of k v] assms(1) by (auto simp: server_ok_def db_fine_def)
  let ?s' = "answer j (WriteHeader StatusCreated (nilheader fresh_response))
      (s\<lparr>store := d, posts := (posts s)(j \<mapsto> [])\<rparr>)"
  have "run_server E peers [Request j RouteSet ''POST'' [] (Some [(k, v)]), Insert j, Insert j] s = Inr ?s'"
    using assms(3) d(1) by (simp add: take_request_def insert_pair_def)
  moreover have "waiting_conn ?s' i c" "store ?s' = d"
    "status (snd (last (answers ?s'))) = Some StatusCreated"
    using assms(4) by (simp_all add: waiting_conn_def answer_def WriteHeader_def nilheader_def fresh_response_def)
  moreover from this(1,2) have "readlines_loop (env_of E peers i) (unix_socket c) [MagicG @ ''|'' @ n, k, ETB]
      (load ?s' (variables c)) = Inl TypeAssertionFailed"
    using d(2,3) assms(5-8) by (intro get_crash) (simp_all add: waiting_conn_def)
  ultimately show ?thesis by (auto simp: exchange_eq waiting_conn_def)
qed

theorem posted_number_ends_server_witness:
  "\<exists>s s'. server_ok demo_env s \<and>
     run_server demo_env (\<lambda>_ _. True)
       [Request 0 RouteSet ''POST'' [] (Some [(''k'', GoFloat 1)]), Insert 0, Insert 0] s = Inr s' \<and>
     exchange demo_env (\<lambda>_ _. True) 1 [''G|1'', ''k'', ETB] s' = Inl TypeAssertionFailed"
proof -
  obtain s c1 c2 where s: "server_ok demo_env s" "store s = demo_db" "posts s = Map.empty"
    "waiting_conn s 1 c1" using demo_waiting by blast
  show ?thesis
    using posted_number_ends_server [OF s(1) _ _ s(4) good_count_1, of 0 "''k''" "GoFloat 1" "\<lambda>_ _. True"]
      s demo_db_ok(3) by (auto simp: KEY_LIMIT_def MagicG_def simp del: run_server.simps happen.simps)
qed

subsection \<open>Access list\<close>

text \<open>Over TCP and TLS only connections from the configured addresses are served, and none
  when no address is configured; the connections get increasing numbers.\<close>

theorem only_listed_addresses_served:
  assumes "handler_acl None iplist = Inr a" and "accept_loop a n conns = Inr served"
  shows "(\<forall>(i, raddr, socket) \<in> set served.
       iplist \<noteq> [] \<and> raddr \<in> set (strings_Split iplist '','') \<and> \<not> socket) \<and>
     sorted_wrt (<) (map fst served)"
proof -
  have "IsAllowed a ip \<longleftrightarrow> iplist \<noteq> [] \<and> ip \<in> set (strings_Split iplist '','')" for ip
    using handler_acl_spec [of None iplist] assms(1) by simp
  then show ?thesis using accept_loop_acl [OF assms(2)] by auto
qed

theorem only_listed_addresses_served_witness:
  "\<exists>a served. handler_acl None ''::1'' = Inr a \<and>
     accept_loop a 0 [\<lparr>acc_ok = True, acc_closed = False, acc_conn = TCPAddr ''9''\<rparr>] = Inr served \<and>
     (\<forall>(i, raddr, socket) \<in> set served. raddr \<in> set (strings_Split ''::1'' '',''))"
proof -
  let ?conns = "[\<lparr>acc_ok = True, acc_closed = False, acc_conn = TCPAddr ''9''\<rparr>]"
  obtain a where a: "handler_acl None ''::1'' = Inr a" using handler_acl_spec [of None "''::1''"] by auto
  obtain served where "accept_loop a 0 ?conns = Inr served"
    by (cases "IsAllowed a ''9''") (auto simp: accept_step_def getRemoteIP_def checkACL_def)
  with only_listed_addresses_served [OF a this] a show ?thesis by auto
qed

subsection \<open>HTTP handlers\<close>

text \<open>A DELETE request (a GET of /del/) removes the key and answers 200, or 500 when the key
  was not there; the other keys stay.\<close>

theorem web_del_removes:
  assumes "db_inv E db" and "key \<noteq> []"
  shows "\<exists>db' w. HandlerDel E db ''GET'' key fresh_response = Inr (db', w) \<and>
     status w = Some (if db_view db key = None then 500 else 200) \<and>
     db_inv E db' \<and> db_view db' = (db_view db)(key := None)"
  using HandlerDel_get [OF assms] by blast

theorem web_del_removes_witness:
  "\<exists>db' w. HandlerDel demo_env demo_db ''GET'' ''k'' fresh_response = Inr (db', w) \<and>
     status w = Some 500"
  using web_del_removes [OF demo_db_ok(1), of "''k''"] demo_db_ok(2) by auto

text \<open>C23: The GET handler panics on a stored value exactly when the value is neither a string nor
  nil; a key that is absent or holds nil gives 410.\<close>

theorem web_get_panics_on_nonstrings:
  assumes "db_inv E db" and "key \<noteq> []"
  shows "(HandlerGetValByKey E db ''GET'' key fresh_response = Inl TypeAssertionFailed \<longleftrightarrow>
      (\<exists>v. db_view db key = Some v \<and> v \<noteq> GoNil \<and> (\<forall>s. v \<noteq> GoString s))) \<and>
    (db_view db key \<in> {None, Some GoNil} \<longrightarrow>
      (\<exists>w. HandlerGetValByKey E db ''GET'' key fresh_response = Inr w \<and> status w = Some 410))"
  unfolding HandlerGetValByKey_get [OF assms]
  by (auto simp: WriteHeader_def nilheader_def fresh_response_def split: option.splits go_value.splits)

theorem web_get_panics_on_nonstrings_witness:
  "\<exists>w. HandlerGetValByKey demo_env demo_db ''GET'' ''k'' fresh_response = Inr w \<and> status w = Some 410"
  using web_get_panics_on_nonstrings [OF demo_db_ok(1), of "''k''"] demo_db_ok(2) by auto

subsection \<open>Client library\<close>

text \<open>C36: Registering a client that connects gives it the next number, stores it at that index
  of the handler's slice, and keeps every client registered before at its index; the slice
  grows as needed and nothing panics. (For a daemon client, which does not connect, it panics.)\<close>

theorem registry_keeps_clients:
  assumes "handler_ok h" and "CliConnect N (new_client opts) = (c, Connected)"
  shows "\<exists>h'. NewCli N opts h = Inr (h', Inr (c\<lparr>cid := hid h + 1\<rparr>)) \<and> handler_ok h' \<and>
     hid h' = hid h + 1 \<and> Clients h' ! nat (hid h') = Some (c\<lparr>cid := hid h + 1\<rparr>) \<and>
     (\<forall>i < nat (hid h'). Clients h' ! i = Clients h ! i)"
  using NewCli_spec [OF assms(1), of N opts] assms(2) by simp

definition demo_net :: net_env where
  "demo_net = \<lparr>dial = (\<lambda>_ _. True), first_line = (\<lambda>_. Some ''200 X'')\<rparr>"

definition demo_options :: "int \<Rightarrow> bool \<Rightarrow> Options" where
  "demo_options m d = \<lparr>oAddr = [], oMode = m, oSSL = False, oSSLinsecure = False, oAuth = [],
     oDaemon = d, oRunTest = False\<rparr>"

theorem registry_keeps_clients_witness:
  "\<exists>h' c. NewCli demo_net (demo_options 1 False) NewCliHandler = Inr (h', Inr c) \<and> cid c = 1 \<and>
     url c = ''http://localhost:2420'' \<and> Clients h' ! 1 = Some c"
proof -
  let ?c = "(new_client (demo_options 1 False))\<lparr>url := ''http://localhost:2420'', http_open := True\<rparr>"
  have "CliConnect demo_net (new_client (demo_options 1 False)) = (?c, Connected)"
    by (simp add: CliConnect_def new_client_def demo_options_def Transport_def Let_def
        finish_connect_def default_addr_def DefaultAddr_def)
  from registry_keeps_clients [OF handler_ok_New this] show ?thesis
    by (auto simp: NewCliHandler_def)
qed

text \<open>Asking for a daemon client over HTTP panics: the connection comes back as a nil pointer
  without an error, and its number is set all the same.\<close>

theorem daemon_client_panics:
  assumes "oDaemon opts" and "oMode opts = 1"
  shows "NewCli N opts h = Inl NilDereference"
  using assms
  by (simp add: NewCli_def CliConnect_def new_client_def Transport_def Let_def finish_connect_def)

theorem daemon_client_panics_witness:
  "NewCli demo_net (demo_options 1 True) NewCliHandler = Inl NilDereference"
  by (rule daemon_client_panics) (simp_all add: demo_options_def)

text \<open>C37: A client that asks for one absent key is told that the key was found, with the single
  byte NUL as its value.\<close>

theorem absent_key_reported_found:
  assumes "session_ready E st" and "tp_open c" and "good_key k" and "db_view (sdb st) k = None"
  shows "\<exists>st'. client_get E c st k = Inr ((None, NUL, None, True), st') \<and> session_ready E st'"
proof -
  have r: "reply_text (db_view (sdb st)) k = NUL" using assms(4) by (simp add: reply_text_def)
  then have "line_text (reply_text (db_view (sdb st)) k)" by simp
  from client_get_spec [OF assms(1-3) this] show ?thesis unfolding r by (auto simp: NUL_def)
qed

theorem absent_key_reported_found_witness:
  "\<exists>st'. client_get demo_env demo_client demo_session ''k'' = Inr ((None, NUL, None, True), st')"
  using absent_key_reported_found [OF demo_ready(1,3) demo_key(1)] demo_ready(2) demo_db_ok(2)
  by auto

text \<open>A client's deletion removes the key on the server; its reply is NUL when the key was
  deleted and ACK when there was nothing to delete.\<close>

theorem client_del_removes:
  assumes "session_ready E st" and "tp_open c" and "good_key k"
  shows "\<exists>st'. client_del E c st k =
       Inr ((None, if db_view (sdb st) k = None then ACK else NUL, None), st') \<and>
     db_fine E (sdb st') \<and> db_view (sdb st') = (db_view (sdb st))(k := None)"
  using client_del_spec [OF assms] by blast

theorem client_del_removes_witness:
  "\<exists>st'. client_del demo_env demo_client demo_session ''k'' = Inr ((None, ACK, None), st')"
  using client_del_removes [OF demo_ready(1,3) demo_key(1)] demo_ready(2) demo_db_ok(2) by auto

subsection \<open>Configuration and logger\<close>

text \<open>The timeouts of the web server are read from the configuration only when the number of
  shards in it is not one of the allowed ones; with a valid configuration they stay as they
  were.\<close>

theorem timeouts_only_on_invalid_shards:
  assumes "initDB (Some cwd) join gs gu gi st = Inr (st', n)"
  shows "if gu VK_SETTINGS_SUB_DICKS \<in> set AVAIL_SUBDICKS
     then n = gu VK_SETTINGS_SUB_DICKS \<and> RTO st' = RTO st \<and> WTO st' = WTO st \<and> ITO st' = ITO st
     else n = 1000 \<and> RTO st' = gi VK_NET_WEBSRV_READ_TIMEOUT \<and>
          WTO st' = gi VK_NET_WEBSRV_WRITE_TIMEOUT \<and>
          ITO st' = gi VK_NET_WEBSRV_IDLE_TIMEOUT"
  using assms by (auto simp: initDB_def Let_def)

theorem timeouts_only_on_invalid_shards_witness:
  "\<exists>st'. initDB (Some ''/'') (@) (\<lambda>_. ''dat'') (\<lambda>_. 100) (\<lambda>_. 5)
       \<lparr>RTO = 0, WTO = 0, ITO = 0, env_base_dir = None, made_dirs = []\<rparr> = Inr (st', 100) \<and>
     RTO st' = 0 \<and> WTO st' = 0 \<and> ITO st' = 0"
proof -
  let ?st = "\<lparr>RTO = 0, WTO = 0, ITO = 0, env_base_dir = None, made_dirs = []\<rparr>"
  obtain st' where "initDB (Some ''/'') (@) (\<lambda>_. ''dat'') (\<lambda>_. 100) (\<lambda>_. 5) ?st = Inr (st', 100)"
    by (simp add: initDB_def Let_def AVAIL_SUBDICKS_def)
  with timeouts_only_on_invalid_shards [OF this] show ?thesis
    by (auto simp: AVAIL_SUBDICKS_def)
qed

text \<open>Errors and warnings are printed at every level, informational messages at every known
  level (so the level WARN does not suppress them), debug messages at level DEBUG only.\<close>

theorem log_levels:
  "printed (Error m l) = printed l @ [''[ERROR] '' @ m] \<and>
   printed (Warn m l) = printed l @ [''[WARN] '' @ m] \<and>
   printed (Info m (l\<lparr>LOGLEVEL := GetLOGLEVEL name\<rparr>)) =
     printed l @ (if name \<in> {''INFO'', ''WARN'', ''DEBUG''} then [''[INFO] '' @ m] else []) \<and>
   printed (Debug m (l\<lparr>LOGLEVEL := GetLOGLEVEL name\<rparr>)) =
     printed l @ (if name = ''DEBUG'' then [''[DEBUG] '' @ m] else [])"
  by (simp add: print_levels GetLOGLEVEL_def level_defs)

subsection \<open>String helpers\<close>

text \<open>C34: \<open>Str2int\<close> reads exactly the non-empty texts of ASCII digits whose value is below
  \<open>2 ^ 63\<close>; every other text, also digits of other scripts, signs and larger numbers, gives 0.\<close>

theorem Str2int_exact:
  "Str2int f s =
     (if s \<noteq> [] \<and> list_all is_ascii_digit s \<and> dec_value s < 2 ^ 63 then of_nat (dec_value s) else 0)"
  by (rule Str2int_eq)

text \<open>Joining lines with a delimiter and splitting the result gives the lines back and one
  empty line, when the delimiter first occurs at the end of each line.\<close>

theorem lines_roundtrip:
  assumes "delim \<noteq> []" and "\<forall>l \<in> set lines. \<not> sublist delim (l @ butlast delim)"
  shows "Bytes2Lines (Lines2Bytes lines delim) delim = lines @ [[]]"
  using go_split_lines [OF assms] assms(1)
  by (simp add: Bytes2Lines_def strings_Split_def Lines2Bytes_concat)

theorem lines_roundtrip_witness:
  "Bytes2Lines (Lines2Bytes [''a'', ''b''] CRLF) CRLF = [''a'', ''b'', []]"
  using lines_roundtrip [of CRLF "[''a'', ''b'']"] by (simp add: crlf_defs sublist_Cons_right)

text \<open>A random string has the length asked for and consists of letters and digits, whatever
  numbers in range the generator draws; a negative length panics.\<close>

theorem random_string_shape:
  assumes "\<forall>i. 0 \<le> rnd i \<and> rnd i < int (length charset)"
  shows "if n < 0 then GenerateRandomString rnd n = Inl SliceOutOfRange
     else \<exists>b. GenerateRandomString rnd n = Inr b \<and> length b = nat n \<and> set b \<subseteq> set charset"
  using fill_random_ok [OF assms, of "nat n"] by (auto simp: GenerateRandomString_def)

theorem random_string_shape_witness:
  "\<exists>b. GenerateRandomString (\<lambda>_. 0) DEFAULT_PW_LEN = Inr b \<and> length b = 32"
  using random_string_shape [of "\<lambda>_. 0" DEFAULT_PW_LEN] by (auto simp: DEFAULT_PW_LEN_def charset_def)

end
