(* ===== verification/Concurrent.thy ===== *)
theory Concurrent
  imports XDick
begin

text \<open>
  Concurrent use of the database: goroutines that run Get, Set and Del of database/operations.go
  side by side. An operation computes the index of its shard, takes the shard's mutex, reads and
  writes the shard, releases the mutex and returns; the steps of different goroutines interleave
  in any order. What the operations answer is recorded in a history in the order in which they
  wrote their shards.

  Also the numbering of connections in the accept loops of server/socket.go, which increments
  the counter under a mutex but reads it afterwards.
\<close>

subsection \<open>Goroutines and their steps\<close>

fun key_of :: "'v request \<Rightarrow> string" where
  "key_of (GetReq k) = k"
| "key_of (SetReq k v) = k"
| "key_of (DelReq k) = k"

type_synonym op_answer = "(go_value option, db_error) answer"

datatype goroutine =
    Idle
  | Waiting "go_value request" nat
  | Holding "go_value request" nat
  | Loaded "go_value request" nat "go_value SubDICK"
  | Unlocking nat op_answer
  | Returning op_answer

record cstate =
  cdb :: XDICK
  locks :: "nat \<Rightarrow> nat option"
  routines :: "nat \<Rightarrow> goroutine"
  history :: "(nat \<times> go_value request \<times> op_answer) list"

definition start_state :: "XDICK \<Rightarrow> cstate" where
  "start_state d = \<lparr>cdb = d, locks = (\<lambda>_. None), routines = (\<lambda>_. Idle), history = []\<rparr>"

text \<open>What an operation does to its shard while it holds the mutex.\<close>

definition shard_step ::
    "'a db_env_scheme \<Rightarrow> go_value request \<Rightarrow> go_value SubDICK \<Rightarrow> (go_value SubDICK \<times> op_answer) go" where
  "shard_step E q sd = store_step (shard_Get E) (shard_Set E) (shard_Del E) q sd"

datatype event =
    Call nat "go_value request"
  | Lock nat
  | Load nat
  | Store nat
  | Unlock nat
  | Return nat

inductive cstep :: "'a db_env_scheme \<Rightarrow> cstate \<Rightarrow> event \<Rightarrow> cstate \<Rightarrow> bool" for E where
  call: "routines s t = Idle \<Longrightarrow> shard_index E (cdb s) (key_of q) = Inr i \<Longrightarrow>
    cstep E s (Call t q) (s\<lparr>routines := (routines s)(t := Waiting q (unat i))\<rparr>)"
| lock: "routines s t = Waiting q i \<Longrightarrow> i < length (SubDICKs (cdb s)) \<Longrightarrow> locks s i = None \<Longrightarrow>
    cstep E s (Lock t) (s\<lparr>locks := (locks s)(i := Some t),
                         routines := (routines s)(t := Holding q i)\<rparr>)"
| load: "routines s t = Holding q i \<Longrightarrow>
    cstep E s (Load t) (s\<lparr>routines := (routines s)(t := Loaded q i (SubDICKs (cdb s) ! i))\<rparr>)"
| store: "routines s t = Loaded q i sd \<Longrightarrow> shard_step E q sd = Inr (sd', a) \<Longrightarrow>
    cstep E s (Store t) (s\<lparr>cdb := (cdb s)\<lparr>SubDICKs := (SubDICKs (cdb s))[i := sd']\<rparr>,
                          routines := (routines s)(t := Unlocking i a),
                          history := history s @ [(t, q, a)]\<rparr>)"
| unlock: "routines s t = Unlocking i a \<Longrightarrow>
    cstep E s (Unlock t) (s\<lparr>locks := (locks s)(i := None),
                           routines := (routines s)(t := Returning a)\<rparr>)"
| return: "routines s t = Returning a \<Longrightarrow>
    cstep E s (Return t) (s\<lparr>routines := (routines s)(t := Idle)\<rparr>)"

inductive_cases cstepE: "cstep E s ev s'"

code_pred (modes: i \<Rightarrow> i \<Rightarrow> i \<Rightarrow> o \<Rightarrow> bool as cstep_of) cstep .

text \<open>Executions, from the left.\<close>

inductive creach :: "'a db_env_scheme \<Rightarrow> cstate \<Rightarrow> event list \<Rightarrow> cstate \<Rightarrow> bool" for E where
  none: "creach E s [] s"
| more: "creach E s evs s' \<Longrightarrow> cstep E s' ev s'' \<Longrightarrow> creach E s (evs @ [ev]) s''"

subsection \<open>Runs on the map, one request at a time\<close>

lemma map_run_snoc:
  "map_run ret nf (qs @ [q]) m =
     (let (m1, as) = map_run ret nf qs m; (m2, a) = map_step ret nf q m1 in (m2, as @ [a]))"
  by (induction qs arbitrary: m) (simp_all add: Let_def split: prod.splits)

text \<open>A request reads and writes the map at its key only.\<close>

lemma map_step_at_key:
  assumes "m (key_of q) = m' (key_of q)"
  shows "snd (map_step ret nf q m) = snd (map_step ret nf q m')"
    and "fst (map_step ret nf q m) = m(key_of q := fst (map_step ret nf q m') (key_of q))"
proof -
  show "snd (map_step ret nf q m) = snd (map_step ret nf q m')"
    using assms by (cases q) simp_all
  show "fst (map_step ret nf q m) = m(key_of q := fst (map_step ret nf q m') (key_of q))"
  proof (cases q)
    case (GetReq k)
    then have "m(k := m' k) = m" using assms by (intro fun_upd_idem) simp
    then show ?thesis using GetReq by simp
  qed simp_all
qed

subsection \<open>The invariant\<close>

fun holds :: "goroutine \<Rightarrow> nat \<Rightarrow> bool" where
  "holds (Holding q i) j = (j = i)"
| "holds (Loaded q i sd) j = (j = i)"
| "holds (Unlocking i a) j = (j = i)"
| "holds g j = False"

fun pending :: "goroutine \<Rightarrow> (go_value request \<times> nat) option" where
  "pending (Waiting q i) = Some (q, i)"
| "pending (Holding q i) = Some (q, i)"
| "pending (Loaded q i sd) = Some (q, i)"
| "pending g = None"

definition history_run :: "cstate \<Rightarrow> (string \<rightharpoonup> go_value) \<times> op_answer list" where
  "history_run s = map_run (\<lambda>r. r) EntryNotFound (map (\<lambda>(_, q, _). q) (history s)) Map.empty"

text \<open>A mutex is held by exactly the goroutine that the lock table names; an operation works on
  the shard of its key; and a goroutine's copy of its shard is current.\<close>

definition excl_inv :: "cstate \<Rightarrow> bool" where
  "excl_inv s \<longleftrightarrow> (\<forall>t i. holds (routines s t) i = (locks s i = Some t))"

definition routed_inv :: "cstate \<Rightarrow> bool" where
  "routed_inv s \<longleftrightarrow>
     (\<forall>t q i. pending (routines s t) = Some (q, i) \<longrightarrow> route (cdb s) (key_of q) = i)"

definition current_inv :: "cstate \<Rightarrow> bool" where
  "current_inv s \<longleftrightarrow>
     (\<forall>t q i sd. routines s t = Loaded q i sd \<longrightarrow> SubDICKs (cdb s) ! i = sd)"

definition lock_inv :: "cstate \<Rightarrow> bool" where
  "lock_inv s \<longleftrightarrow> excl_inv s \<and> routed_inv s \<and> current_inv s"

definition data_inv :: "'a db_env_scheme \<Rightarrow> cstate \<Rightarrow> bool" where
  "data_inv E s \<longleftrightarrow>
     xinv E (cdb s) \<and> xcount (cdb s) \<le> length (history s) \<and>
     history_run s = (xview (cdb s), map (\<lambda>(_, _, a). a) (history s))"

lemma shard_count_le: "i < length (SubDICKs d) \<Longrightarrow> shard_count (SubDICKs d ! i) \<le> xcount d"
  using elem_le_sum_list [of i "map shard_count (SubDICKs d)"] by (simp add: xcount_def)

lemma shard_step_ok:
  assumes "sub_inv E sd" and "shard_count sd < 2 ^ 61"
  shows "\<exists>sd'. shard_step E q sd = Inr (sd', snd (map_step (\<lambda>r. r) EntryNotFound q (sub_abs sd))) \<and>
     sub_inv E sd' \<and> sub_abs sd' = fst (map_step (\<lambda>r. r) EntryNotFound q (sub_abs sd)) \<and>
     shard_count sd' \<le> Suc (shard_count sd)"
  unfolding shard_step_def by (rule shard.step_refines [OF assms])

text \<open>Writing back the shard of a request is the request on the whole map.\<close>

lemma store_shard:
  assumes inv: "xinv E d" and cap: "xcount d < 2 ^ 61" and i: "i = route d (key_of q)"
    and step: "shard_step E q (SubDICKs d ! i) = Inr (sd', a)"
    and d': "d' = d\<lparr>SubDICKs := (SubDICKs d)[i := sd']\<rparr>"
  shows "xinv E d'" and "map_step (\<lambda>r. r) EntryNotFound q (xview d) = (xview d', a)"
    and "xcount d' \<le> Suc (xcount d)" and "SubCount d' = SubCount d"
proof -
  note rt = xinv_route [OF inv, of "key_of q"]
  let ?step = "map_step (\<lambda>r. r) EntryNotFound q" and ?m = "sub_abs (SubDICKs d ! i)"
  have "shard_count (SubDICKs d ! i) < 2 ^ 61"
    using shard_count_le [OF rt(1)] cap by (simp add: i)
  with shard_step_ok [of E "SubDICKs d ! i" q] rt(2) step have sd': "a = snd (?step ?m)"
    "sub_inv E sd'" "sub_abs sd' = fst (?step ?m)"
    "shard_count sd' \<le> Suc (shard_count (SubDICKs d ! i))"
    by (auto simp: i)
  have eq: "xview d (key_of q) = ?m (key_of q)" by (simp add: xview_def i)
  let ?r = "fst (?step ?m) (key_of q)"
  have "sub_abs sd' = ?m(key_of q := ?r)"
    unfolding sd'(3) by (rule map_step_at_key(2)) simp
  note put = put_shard [OF inv sd'(2) this [unfolded i] d' [unfolded i]]
  show "xinv E d'" by (rule put(1))
  have "xview d' = fst (?step (xview d))"
    unfolding map_step_at_key(2) [where m = "xview d" and m' = ?m, OF eq] by (rule put(2) [folded i])
  moreover have "a = snd (?step (xview d))"
    unfolding sd'(1) by (rule map_step_at_key(1)) (simp add: eq)
  ultimately show "?step (xview d) = (xview d', a)" by (simp add: prod_eq_iff)
  show "xcount d' \<le> Suc (xcount d)" using put(3) sd'(4) by (simp add: i)
  show "SubCount d' = SubCount d" by (simp add: d')
qed

subsection \<open>Every execution keeps the invariants\<close>

lemma lock_inv_start: "lock_inv (start_state d)"
  by (simp add: lock_inv_def excl_inv_def routed_inv_def current_inv_def start_state_def)

lemma data_inv_start: "xinv E d \<Longrightarrow> xview d = Map.empty \<Longrightarrow> xcount d = 0 \<Longrightarrow> data_inv E (start_state d)"
  by (simp add: data_inv_def start_state_def history_run_def)

lemma route_SubCount: "SubCount d' = SubCount d \<Longrightarrow> route d' = route d"
  by (simp add: route_def fun_eq_iff)

text \<open>The mutexes are exclusive, so a goroutine's copy of its shard stays current.\<close>

lemma cstep_excl_inv:
  assumes "cstep E s ev s'" and "excl_inv s"
  shows "excl_inv s'"
  unfolding excl_inv_def
proof (intro allI)
  fix x j
  have h: "holds (routines s y) j = (locks s j = Some y)" for y
    using assms(2) unfolding excl_inv_def by blast
  show "holds (routines s' x) j = (locks s' j = Some x)"
    using assms(1)
  proof cases
    case (lock t q i)
    then show ?thesis using h [of x] h [of t] by (cases "x = t"; cases "j = i") auto
  next
    case (unlock t i a)
    then show ?thesis using h [of x] h [of t] by (cases "x = t"; cases "j = i") auto
  next
    case (call t q i)
    then show ?thesis using h [of x] h [of t] by (cases "x = t") auto
  next
    case (load t q i)
    then show ?thesis using h [of x] h [of t] by (cases "x = t") auto
  next
    case (store t q i sd sd' a)
    then show ?thesis using h [of x] h [of t] by (cases "x = t") auto
  next
    case (return t a)
    then show ?thesis using h [of x] h [of t] by (cases "x = t") auto
  qed
qed

lemma cstep_routed_inv:
  assumes "cstep E s ev s'" and "routed_inv s" and "xinv E (cdb s)"
  shows "routed_inv s'"
  using assms(1)
proof cases
  case (call t q i)
  obtain i' where i': "shard_index E (cdb s) (key_of q) = Inr i'"
    "uint i' = int (route (cdb s) (key_of q))"
    using shard_index_ok [OF assms(3), of "key_of q"] by blast
  have "i' = i" using i'(1) call(4) by simp
  then have "int (unat i) = int (route (cdb s) (key_of q))" using i'(2) by simp
  then have "route (cdb s) (key_of q) = unat i" by linarith
  then show ?thesis using assms(2) call by (simp add: routed_inv_def)
next
  case (store t q i sd sd' a)
  have "route (cdb s') = route (cdb s)" by (rule route_SubCount) (simp add: store)
  then show ?thesis using assms(2) store by (simp add: routed_inv_def)
next
  case (lock t q i)
  then have "pending (routines s t) = Some (q, i)" by simp
  then have "route (cdb s) (key_of q) = i" using assms(2) unfolding routed_inv_def by blast
  then show ?thesis using assms(2) lock by (simp add: routed_inv_def)
next
  case (load t q i)
  then have "pending (routines s t) = Some (q, i)" by simp
  then have "route (cdb s) (key_of q) = i" using assms(2) unfolding routed_inv_def by blast
  then show ?thesis using assms(2) load by (simp add: routed_inv_def)
qed (use assms(2) in \<open>simp_all add: routed_inv_def\<close>)

lemma cstep_current_inv:
  assumes "cstep E s ev s'" and "excl_inv s" and "current_inv s"
  shows "current_inv s'"
  using assms(1)
proof cases
  case (store t q i sd sd' a)
  have own: "locks s i = Some t" using assms(2) store(3) unfolding excl_inv_def by (metis holds.simps(2))
  have "i' \<noteq> i" if "routines s t' = Loaded q' i' sd2" "t' \<noteq> t" for t' q' i' sd2
  proof
    assume "i' = i"
    then have "locks s i = Some t'" using assms(2) that(1) unfolding excl_inv_def by (metis holds.simps(2))
    then show False using own that(2) by simp
  qed
  with assms(3) show ?thesis
    by (simp add: store current_inv_def) (metis nth_list_update_neq)
qed (use assms(3) in \<open>auto simp: current_inv_def\<close>)

lemma cstep_lock_inv:
  "cstep E s ev s' \<Longrightarrow> lock_inv s \<Longrightarrow> xinv E (cdb s) \<Longrightarrow> lock_inv s'"
  unfolding lock_inv_def using cstep_excl_inv cstep_routed_inv cstep_current_inv by blast

text \<open>What the invariants say of a goroutine that has read its shard.\<close>

lemma loaded_current:
  assumes "lock_inv s" and "routines s t = Loaded q i sd"
  shows "i = route (cdb s) (key_of q)" and "sd = SubDICKs (cdb s) ! i"
proof -
  have "pending (routines s t) = Some (q, i)" by (simp add: assms(2))
  then show "i = route (cdb s) (key_of q)"
    using assms(1) unfolding lock_inv_def routed_inv_def by blast
  show "sd = SubDICKs (cdb s) ! i"
    using assms unfolding lock_inv_def current_inv_def by metis
qed

lemma cstep_data_inv:
  assumes "cstep E s ev s'" and "lock_inv s" and "data_inv E s" and "length (history s) < 2 ^ 61"
  shows "data_inv E s'"
  using assms(1)
proof cases
  case (store t q i sd sd' a)
  note cur = loaded_current [OF assms(2) store(3)]
  have inv: "xinv E (cdb s)" "xcount (cdb s) < 2 ^ 61"
    using assms(3,4) by (simp_all add: data_inv_def)
  note st = store_shard [OF inv cur(1) store(4) [unfolded cur(2)] refl]
  have "history_run s' = (xview (cdb s'), map (\<lambda>(_, _, a). a) (history s'))"
    using assms(3) st(2) by (simp add: store data_inv_def history_run_def map_run_snoc)
  moreover have "xcount (cdb s') \<le> length (history s')"
    using assms(3) st(3) by (simp add: store data_inv_def)
  ultimately show ?thesis using st(1) by (simp add: data_inv_def store)
qed (use assms(3) in \<open>simp_all add: data_inv_def history_run_def\<close>)

lemma history_grows: "cstep E s ev s' \<Longrightarrow> length (history s) \<le> length (history s')"
  by (erule cstepE) auto

lemma creach_inv:
  assumes "creach E s evs s'"
  shows "lock_inv s \<Longrightarrow> data_inv E s \<Longrightarrow> length (history s') \<le> 2 ^ 61 \<Longrightarrow>
    lock_inv s' \<and> data_inv E s'"
  using assms
proof (induction rule: creach.induct)
  case (more s evs s' ev s'')
  have "length (history s') \<le> 2 ^ 61" using history_grows [OF more(2)] more.prems(3) by simp
  then have inv: "lock_inv s'" "data_inv E s'" using more.IH more.prems(1,2) by blast+
  have "lock_inv s''"
    using cstep_lock_inv [OF more(2) inv(1)] inv(2) by (simp add: data_inv_def)
  moreover have "data_inv E s''"
  proof (cases "length (history s') < 2 ^ 61")
    case True
    then show ?thesis by (rule cstep_data_inv [OF more(2) inv])
  next
    case False
    then have "length (history s'') = length (history s')"
      using history_grows [OF more(2)] more.prems(3) by simp
    with more(2) inv(2) show ?thesis
      by (cases rule: cstep.cases) (simp_all add: data_inv_def history_run_def)
  qed
  ultimately show ?case by blast
qed simp

subsection \<open>Progress\<close>

fun actor :: "event \<Rightarrow> nat" where
  "actor (Call t q) = t"
| "actor (Lock t) = t"
| "actor (Load t) = t"
| "actor (Store t) = t"
| "actor (Unlock t) = t"
| "actor (Return t) = t"

fun inside :: "event \<Rightarrow> bool" where
  "inside (Call t q) = False"
| "inside ev = True"

text \<open>A goroutine that holds its mutex can go on.\<close>

lemma holder_steps:
  assumes "holds (routines s t) i" and "lock_inv s" and "data_inv E s"
    and "length (history s) < 2 ^ 61"
  shows "\<exists>ev s'. cstep E s ev s' \<and> actor ev = t \<and> inside ev"
proof (cases "routines s t")
  case (Loaded q j sd)
  note cur = loaded_current [OF assms(2) Loaded]
  have x: "xinv E (cdb s)" "xcount (cdb s) < 2 ^ 61"
    using assms(3,4) by (simp_all add: data_inv_def)
  have "shard_count sd < 2 ^ 61"
    using shard_count_le [OF xinv_route(1) [OF x(1)], of "key_of q"] x(2) by (simp add: cur)
  then obtain sd' a where "shard_step E q sd = Inr (sd', a)"
    using shard_step_ok [of E sd q] xinv_route(2) [OF x(1), of "key_of q"] by (auto simp: cur)
  then show ?thesis using cstep.store [OF Loaded] by (metis actor.simps(4) inside.simps(4))
next
  case (Holding q j)
  then show ?thesis using cstep.load [OF Holding] by (metis actor.simps(3) inside.simps(3))
next
  case (Unlocking j a)
  then show ?thesis using cstep.unlock [OF Unlocking] by (metis actor.simps(5) inside.simps(5))
qed (use assms(1) in auto)

text \<open>Whom a goroutine waits for: the holder of its mutex, if it is to lock one that is held.\<close>

definition blocker :: "cstate \<Rightarrow> nat \<Rightarrow> nat option" where
  "blocker s t = (case routines s t of Waiting q i \<Rightarrow> locks s i | _ \<Rightarrow> None)"

text \<open>A goroutine in an operation can go on, or the one that it waits for can.\<close>

lemma busy_steps:
  assumes "routines s t \<noteq> Idle" and "lock_inv s" and "data_inv E s"
    and "length (history s) < 2 ^ 61"
  shows "\<exists>ev s'. cstep E s ev s' \<and> inside ev \<and>
    actor ev = (case blocker s t of None \<Rightarrow> t | Some u \<Rightarrow> u)"
proof (cases "routines s t")
  case (Waiting q i)
  then have "pending (routines s t) = Some (q, i)" by simp
  then have "i = route (cdb s) (key_of q)" using assms(2) unfolding lock_inv_def routed_inv_def by blast
  then have i: "i < length (SubDICKs (cdb s))"
    using xinv_route(1) [of E "cdb s"] assms(3) by (simp add: data_inv_def)
  show ?thesis
  proof (cases "locks s i")
    case None
    then have "blocker s t = None" by (simp add: blocker_def Waiting)
    moreover obtain s' where "cstep E s (Lock t) s'" using cstep.lock [OF Waiting i None] by blast
    ultimately show ?thesis by (intro exI [of _ "Lock t"] exI [of _ s']) simp
  next
    case (Some t')
    then have "holds (routines s t') i" using assms(2) by (simp add: lock_inv_def excl_inv_def)
    from holder_steps [OF this assms(2-4)] show ?thesis using Waiting Some
      by (auto simp: blocker_def)
  qed
next
  case (Returning a)
  then have "blocker s t = None" by (simp add: blocker_def)
  moreover obtain s' where "cstep E s (Return t) s'" using cstep.return [OF Returning] by blast
  ultimately show ?thesis by (intro exI [of _ "Return t"] exI [of _ s']) simp
qed (use assms holder_steps [of s t _ E] in \<open>auto simp: blocker_def\<close>)

lemma creach_trans:
  assumes "creach E s' evs' s''"
  shows "creach E s evs s' \<Longrightarrow> creach E s (evs @ evs') s''"
  using assms
proof (induction rule: creach.induct)
  case (more s' evs' s1 ev s2)
  then show ?case using creach.more [of E s "evs @ evs'" s1 ev s2] by simp
qed simp

lemma creach_step: "cstep E s ev s' \<Longrightarrow> creach E s [ev] s'"
  using creach.more [OF creach.none, of E s ev s'] by simp

text \<open>What an operation still has to do, and what it has to wait for.\<close>

fun steps_to_go :: "goroutine \<Rightarrow> nat" where
  "steps_to_go Idle = 0"
| "steps_to_go (Waiting q i) = 5"
| "steps_to_go (Holding q i) = 4"
| "steps_to_go (Loaded q i sd) = 3"
| "steps_to_go (Unlocking i a) = 2"
| "steps_to_go (Returning a) = 1"

definition wait_rank :: "cstate \<Rightarrow> nat \<Rightarrow> nat" where
  "wait_rank s t = steps_to_go (routines s t) +
     (case blocker s t of None \<Rightarrow> 0 | Some u \<Rightarrow> steps_to_go (routines s u))"

lemma steps_to_go_le: "steps_to_go g \<le> 5"
  by (cases g) simp_all

lemma wait_rank_le: "wait_rank s t \<le> 10"
proof (cases "blocker s t")
  case None
  then show ?thesis using steps_to_go_le [of "routines s t"] by (simp add: wait_rank_def)
next
  case (Some u)
  then show ?thesis using steps_to_go_le [of "routines s t"] steps_to_go_le [of "routines s u"]
    by (simp add: wait_rank_def)
qed

lemma inside_rank:
  assumes "cstep E s ev s'" and "inside ev" and "lock_inv s"
    and "actor ev = (case blocker s t of None \<Rightarrow> t | Some u \<Rightarrow> u)"
  shows "wait_rank s' t < wait_rank s t"
proof (cases "blocker s t")
  case None
  then have t: "actor ev = t" using assms(4) by simp
  from assms(1,2) t None show ?thesis
    by (cases rule: cstep.cases) (auto simp: wait_rank_def blocker_def)
next
  case (Some u)
  then obtain q i where w: "routines s t = Waiting q i" "locks s i = Some u"
    by (auto simp: blocker_def split: goroutine.splits)
  have h: "holds (routines s u) i" using assms(3) w(2) by (simp add: lock_inv_def excl_inv_def)
  then have ne: "u \<noteq> t" using w(1) by auto
  have "actor ev = u" using assms(4) Some by simp
  from assms(1,2) w h ne this show ?thesis
    by (cases rule: cstep.cases) (auto simp: wait_rank_def blocker_def)
qed

lemma history_step: "cstep E s ev s' \<Longrightarrow> length (history s') \<le> Suc (length (history s))"
  by (erule cstepE) auto

lemma can_finish:
  assumes "lock_inv s" and "data_inv E s" and "length (history s) + wait_rank s t \<le> 2 ^ 61"
  shows "\<exists>evs s'. creach E s evs s' \<and> routines s' t = Idle \<and> list_all inside evs"
  using assms
proof (induction "wait_rank s t" arbitrary: s rule: less_induct)
  case less
  show ?case
  proof (cases "routines s t = Idle")
    case True
    then show ?thesis by (intro exI [of _ "[]"] exI [of _ s]) (simp add: creach.none)
  next
    case False
    then have "0 < wait_rank s t" by (cases "routines s t") (auto simp: wait_rank_def)
    then have room: "length (history s) < 2 ^ 61" using less.prems(3) by linarith
    obtain ev s1 where s1: "cstep E s ev s1" "inside ev"
      "actor ev = (case blocker s t of None \<Rightarrow> t | Some u \<Rightarrow> u)"
      using busy_steps [OF False less.prems(1,2) room] by blast
    have "xinv E (cdb s)" using less.prems(2) by (simp add: data_inv_def)
    note inv = cstep_lock_inv [OF s1(1) less.prems(1) this]
      cstep_data_inv [OF s1(1) less.prems(1,2) room]
    have rank: "wait_rank s1 t < wait_rank s t" by (rule inside_rank [OF s1(1,2) less.prems(1) s1(3)])
    have "length (history s1) + wait_rank s1 t \<le> 2 ^ 61"
      using history_step [OF s1(1)] rank less.prems(3) by linarith
    from less.hyps [OF rank inv this] obtain evs s' where
      "creach E s1 evs s'" "routines s' t = Idle" "list_all inside evs" by blast
    then have "creach E s ([ev] @ evs) s'" "routines s' t = Idle" "list_all inside ([ev] @ evs)"
      using creach_trans [OF _ creach_step [OF s1(1)]] s1(2) by simp_all
    then show ?thesis by blast
  qed
qed

text \<open>An execution of one whole operation up to its write.\<close>

lemma run_one:
  assumes "xinv E d" and "xcount d < 2 ^ 61"
  shows "\<exists>s a. creach E (start_state d) [Call t q, Lock t, Load t, Store t] s \<and>
     history s = [(t, q, a)]"
proof -
  let ?s0 = "start_state d" and ?r = "route d (key_of q)"
  note rt = xinv_route [OF assms(1), of "key_of q"]
  obtain i where i: "shard_index E d (key_of q) = Inr i" "unat i = ?r"
    using shard_index_ok [OF assms(1), of "key_of q"] by (metis nat_int unat_eq_nat_uint)
  have "shard_count (SubDICKs d ! ?r) < 2 ^ 61" using shard_count_le [OF rt(1)] assms(2) by simp
  then obtain sd' a where a: "shard_step E q (SubDICKs d ! ?r) = Inr (sd', a)"
    using shard_step_ok [OF rt(2), of q] by blast
  let ?s1 = "?s0\<lparr>routines := (routines ?s0)(t := Waiting q ?r)\<rparr>"
  let ?s2 = "?s1\<lparr>locks := (locks ?s1)(?r := Some t), routines := (routines ?s1)(t := Holding q ?r)\<rparr>"
  let ?s3 = "?s2\<lparr>routines := (routines ?s2)(t := Loaded q ?r (SubDICKs (cdb ?s2) ! ?r))\<rparr>"
  have s1: "cstep E ?s0 (Call t q) ?s1"
    using cstep.call [of ?s0 t E q i] i by (simp add: start_state_def)
  have s2: "cstep E ?s1 (Lock t) ?s2"
    by (rule cstep.lock) (use rt(1) in \<open>simp_all add: start_state_def\<close>)
  have s3: "cstep E ?s2 (Load t) ?s3" by (rule cstep.load) simp
  have s4: "cstep E ?s3 (Store t) (?s3\<lparr>cdb := (cdb ?s3)\<lparr>SubDICKs := (SubDICKs (cdb ?s3))[?r := sd']\<rparr>,
      routines := (routines ?s3)(t := Unlocking ?r a), history := history ?s3 @ [(t, q, a)]\<rparr>)"
    (is "cstep _ _ _ ?s4")
    by (rule cstep.store [where sd = "SubDICKs d ! ?r"]) (use a in \<open>simp_all add: start_state_def\<close>)
  have "creach E ?s0 ((([] @ [Call t q]) @ [Lock t]) @ [Load t]) ?s3"
    by (intro creach.more [OF _ s3] creach.more [OF _ s2] creach.more [OF _ s1] creach.none)
  from creach.more [OF this s4] show ?thesis by (auto simp: start_state_def)
qed

text \<open>The answer that a goroutine is about to return is that of its latest entry in the history.\<close>

definition entries_of :: "nat \<Rightarrow> cstate \<Rightarrow> (nat \<times> go_value request \<times> op_answer) list" where
  "entries_of t s = filter (\<lambda>e. fst e = t) (history s)"

fun answer_of :: "goroutine \<Rightarrow> op_answer option" where
  "answer_of (Unlocking i a) = Some a"
| "answer_of (Returning a) = Some a"
| "answer_of g = None"

definition answer_inv :: "cstate \<Rightarrow> bool" where
  "answer_inv s \<longleftrightarrow> (\<forall>t a. answer_of (routines s t) = Some a \<longrightarrow>
     (\<exists>es q. entries_of t s = es @ [(t, q, a)]))"

lemma cstep_answer_inv: "cstep E s ev s' \<Longrightarrow> answer_inv s \<Longrightarrow> answer_inv s'"
  by (erule cstepE) (auto simp: answer_inv_def entries_of_def)

lemma creach_answer_inv: "creach E s evs s' \<Longrightarrow> answer_inv s \<Longrightarrow> answer_inv s'"
  by (induction rule: creach.induct) (auto intro: cstep_answer_inv)

lemma answer_inv_start: "answer_inv (start_state d)"
  by (simp add: answer_inv_def start_state_def)

subsection \<open>Numbering connections\<close>

text \<open>Each accept loop increments \<open>sock.id\<close> under the mutex, and reads it into the client record
  after the mutex has been released.\<close>

record id_state =
  sock_id :: uint64
  numbering :: "nat \<Rightarrow> bool"
  given_ids :: "(nat \<times> uint64) list"

definition id_start :: id_state where
  "id_start = \<lparr>sock_id = 0, numbering = (\<lambda>_. False), given_ids = []\<rparr>"

inductive id_step :: "id_state \<Rightarrow> id_state \<Rightarrow> bool" where
  increment: "\<not> numbering s l \<Longrightarrow>
    id_step s (s\<lparr>sock_id := sock_id s + 1, numbering := (numbering s)(l := True)\<rparr>)"
| read: "numbering s l \<Longrightarrow>
    id_step s (s\<lparr>numbering := (numbering s)(l := False),
                 given_ids := given_ids s @ [(l, sock_id s)]\<rparr>)"

lemma same_id_twice: "\<exists>s. id_step\<^sup>*\<^sup>* id_start s \<and> given_ids s = [(0, 2), (1, 2)]"
proof -
  let ?s1 = "id_start\<lparr>sock_id := sock_id id_start + 1, numbering := (numbering id_start)(0 := True)\<rparr>"
  let ?s2 = "?s1\<lparr>sock_id := sock_id ?s1 + 1, numbering := (numbering ?s1)(1 := True)\<rparr>"
  let ?s3 = "?s2\<lparr>numbering := (numbering ?s2)(0 := False), given_ids := given_ids ?s2 @ [(0, sock_id ?s2)]\<rparr>"
  let ?s4 = "?s3\<lparr>numbering := (numbering ?s3)(1 := False), given_ids := given_ids ?s3 @ [(1, sock_id ?s3)]\<rparr>"
  have "id_step id_start ?s1" by (rule id_step.increment) (simp add: id_start_def)
  moreover have "id_step ?s1 ?s2" by (rule id_step.increment) (simp add: id_start_def)
  moreover have "id_step ?s2 ?s3" by (rule id_step.read) simp
  moreover have "id_step ?s3 ?s4" by (rule id_step.read) simp
  ultimately have "id_step\<^sup>*\<^sup>* id_start ?s4" by (meson converse_rtranclp_into_rtranclp rtranclp.rtrancl_refl)
  moreover have "given_ids ?s4 = [(0, 2), (1, 2)]" by (simp add: id_start_def)
  ultimately show ?thesis by blast
qed

end
