(* ===== verification/Lifecycle.thy ===== *)
theory Lifecycle
  imports Config
begin

text \<open>
  The web servers of server/web-server.go around their handlers, and the shutdown: \<open>main\<close> puts
  a token into the channel \<open>stop_chan\<close> of capacity one; each part that waits (the HTTP or HTTPS
  server, the unix socket's \<open>CloseSocket\<close>) takes the token, closes itself, and puts the token
  back for the next. Each part adds itself to its wait group when it begins and is done with it when
  it returns; which wait group that is depends on how \<open>main\<close>'s is passed on.
\<close>

subsection \<open>Server settings\<close>

text \<open>Durations are 64-bit nanoseconds, as in Go's package time.\<close>

record http_settings =
  ReadTimeout :: int64
  WriteTimeout :: int64
  IdleTimeout :: int64
  Addr :: string

text \<open>The files that \<open>ListenAndServeTLS\<close> is called with.\<close>

record https_settings = http_settings +
  certFile :: string
  keyFile :: string

definition seconds :: "int \<Rightarrow> int64" where
  "seconds n = of_int n * 1000000000"

definition http_server_settings :: "conf_state \<Rightarrow> (string \<Rightarrow> string) \<Rightarrow> http_settings" where
  "http_server_settings st GetString =
     \<lparr>ReadTimeout = seconds (RTO st), WriteTimeout = seconds (WTO st),
      IdleTimeout = seconds (ITO st),
      Addr = GetString VK_SERVER_HOST @ '':'' @ GetString VK_SERVER_PORT_TCP\<rparr>"

definition https_server_settings :: "conf_state \<Rightarrow> (string \<Rightarrow> string) \<Rightarrow> https_settings" where
  "https_server_settings st GetString =
     \<lparr>ReadTimeout = seconds (RTO st), WriteTimeout = seconds (WTO st),
      IdleTimeout = seconds (ITO st),
      Addr = GetString VK_SERVER_HOST @ '':'' @ GetString VK_SERVER_PORT_TCP,
      certFile = GetString VK_SEC_TLS_PUBCERT, keyFile = GetString VK_SEC_TLS_PRIVKEY\<rparr>"

subsection \<open>Shutdown\<close>

text \<open>The wait groups of the program are variables, each with its counter. A wait group that is
  passed by value, as an argument or into a field, is a new variable with the counter of then.\<close>

definition pass_wg :: "nat \<Rightarrow> int list \<Rightarrow> nat \<times> int list" where
  "pass_wg g m = (length m, m @ [m ! g])"

definition wg_Add :: "nat \<Rightarrow> int \<Rightarrow> int list \<Rightarrow> int list" where
  "wg_Add g n m = m[g := m ! g + n]"

text \<open>From main's variable, number 0, to the web server's and the \<open>SOCKET\<close>'s: arguments of
  \<open>NewNDBServer\<close> and \<open>NewSocketHandler\<close> and the field of the \<open>SOCKET\<close>; then the argument of
  \<open>NewHttpServer\<close> (or \<open>NewHttpsServer\<close>) and the field of the server.\<close>

definition boot_wgs :: "nat list \<times> int list" where
  "boot_wgs =
     (let (ndb, m1) = pass_wg 0 [0];
          (handler, m2) = pass_wg ndb m1; (sock, m3) = pass_wg handler m2;
          (http, m4) = pass_wg ndb m3; (web, m5) = pass_wg http m4
      in ([web, sock], m5))"

datatype waiter = Launched | AwaitsToken | HasToken | Closed | Finished | Returned

datatype main_state = Running | InWait | Exited

record shutdown =
  stop_chan :: nat
  waiters :: "waiter list"
  main_pc :: main_state
  part_wg :: "nat list"
  counters :: "int list"

definition shutdown_start :: "nat \<Rightarrow> shutdown" where
  "shutdown_start n =
     \<lparr>stop_chan = 0, waiters = replicate n Launched, main_pc = Running,
      part_wg = fst boot_wgs, counters = snd boot_wgs\<rparr>"

text \<open>The parts that wait for the token: the web server (number 0) whenever the server runs, and
  \<open>CloseSocket\<close> when the unix socket has a path.\<close>

definition waiting_parts :: "string \<Rightarrow> nat" where
  "waiting_parts socketPath = (if socketPath = [] then 1 else 2)"

text \<open>Part \<open>i\<close> adds itself to its wait group, takes the token, closes, puts the token back, and
  returns, which runs the deferred \<open>Done\<close>. (The goroutines that serve and listen add themselves to
  the same wait groups, the web server's and the \<open>SOCKET\<close>'s; they are left out.) Sending blocks while the channel is
  full, receiving while it is empty; when the process has exited, nothing moves.\<close>

inductive part_step :: "nat \<Rightarrow> shutdown \<Rightarrow> shutdown \<Rightarrow> bool" for i where
  begins: "main_pc s \<noteq> Exited \<Longrightarrow> i < length (waiters s) \<Longrightarrow> waiters s ! i = Launched \<Longrightarrow>
    part_step i s (s\<lparr>counters := wg_Add (part_wg s ! i) 1 (counters s),
                     waiters := (waiters s)[i := AwaitsToken]\<rparr>)"
| receive: "main_pc s \<noteq> Exited \<Longrightarrow> i < length (waiters s) \<Longrightarrow> waiters s ! i = AwaitsToken \<Longrightarrow>
    0 < stop_chan s \<Longrightarrow>
    part_step i s (s\<lparr>stop_chan := stop_chan s - 1, waiters := (waiters s)[i := HasToken]\<rparr>)"
| close: "main_pc s \<noteq> Exited \<Longrightarrow> i < length (waiters s) \<Longrightarrow> waiters s ! i = HasToken \<Longrightarrow>
    part_step i s (s\<lparr>waiters := (waiters s)[i := Closed]\<rparr>)"
| push_back: "main_pc s \<noteq> Exited \<Longrightarrow> i < length (waiters s) \<Longrightarrow> waiters s ! i = Closed \<Longrightarrow>
    stop_chan s < 1 \<Longrightarrow>
    part_step i s (s\<lparr>stop_chan := stop_chan s + 1, waiters := (waiters s)[i := Finished]\<rparr>)"
| returns: "main_pc s \<noteq> Exited \<Longrightarrow> i < length (waiters s) \<Longrightarrow> waiters s ! i = Finished \<Longrightarrow>
    part_step i s (s\<lparr>counters := wg_Add (part_wg s ! i) (- 1) (counters s),
                     waiters := (waiters s)[i := Returned]\<rparr>)"

text \<open>Two failures of the web server end the process with \<open>Fatal\<close>: \<open>Shutdown\<close> returns an error, for
  instance when its ten seconds are over; and \<open>ListenAndServe\<close> returns with another error than
  \<open>ErrServerClosed\<close>, for instance when the address is in use, which can happen until it is shut
  down.\<close>

inductive web_step :: "shutdown \<Rightarrow> shutdown \<Rightarrow> bool" where
  served: "part_step 0 s s' \<Longrightarrow> web_step s s'"
| Stop_fails: "main_pc s \<noteq> Exited \<Longrightarrow> 0 < length (waiters s) \<Longrightarrow> waiters s ! 0 = HasToken \<Longrightarrow>
    web_step s (s\<lparr>main_pc := Exited\<rparr>)"
| Serve_fails: "main_pc s \<noteq> Exited \<Longrightarrow> 0 < length (waiters s) \<Longrightarrow>
    waiters s ! 0 \<in> {Launched, AwaitsToken, HasToken} \<Longrightarrow> web_step s (s\<lparr>main_pc := Exited\<rparr>)"

definition CloseSocket_step :: "shutdown \<Rightarrow> shutdown \<Rightarrow> bool" where
  "CloseSocket_step s s' = part_step 1 s s'"

text \<open>The end of \<open>main\<close>: the signal arrives, the token goes out, and \<open>wg.Wait\<close> returns when main's
  own counter, that of variable 0, is zero.\<close>

inductive main_step :: "shutdown \<Rightarrow> shutdown \<Rightarrow> bool" where
  signal: "main_pc s = Running \<Longrightarrow> stop_chan s < 1 \<Longrightarrow>
    main_step s (s\<lparr>stop_chan := stop_chan s + 1, main_pc := InWait\<rparr>)"
| wait_returns: "main_pc s = InWait \<Longrightarrow> counters s ! 0 = 0 \<Longrightarrow> main_step s (s\<lparr>main_pc := Exited\<rparr>)"

definition sstep :: "shutdown \<Rightarrow> shutdown \<Rightarrow> bool" where
  "sstep s s' \<longleftrightarrow> main_step s s' \<or> web_step s s' \<or> CloseSocket_step s s'"

inductive_cases part_stepE: "part_step i s s'"

lemma part_sstep: "part_step i s s' \<Longrightarrow> i < 2 \<Longrightarrow> sstep s s'"
  by (cases i) (auto simp: sstep_def CloseSocket_step_def less_Suc_eq numeral_2_eq_2
      intro: web_step.served)

lemma sstep_cases:
  assumes "sstep s s'"
  obtains (main) "main_step s s'"
  | (fails) "main_pc s \<noteq> Exited" and "s' = s\<lparr>main_pc := Exited\<rparr>"
  | (part) i where "part_step i s s'"
  using assms by (auto simp: sstep_def CloseSocket_step_def elim!: web_step.cases)

definition in_hand :: "waiter \<Rightarrow> bool" where
  "in_hand w \<longleftrightarrow> w = HasToken \<or> w = Closed"

definition tokens :: "shutdown \<Rightarrow> nat" where
  "tokens s = stop_chan s + (\<Sum>w\<leftarrow>waiters s. of_bool (in_hand w))"

definition token_inv :: "shutdown \<Rightarrow> bool" where
  "token_inv s \<longleftrightarrow> (main_pc s = Running \<longrightarrow> tokens s = 0) \<and> (main_pc s = InWait \<longrightarrow> tokens s = 1)"

fun waiter_rank :: "waiter \<Rightarrow> nat" where
  "waiter_rank Launched = 5"
| "waiter_rank AwaitsToken = 4"
| "waiter_rank HasToken = 3"
| "waiter_rank Closed = 2"
| "waiter_rank Finished = 1"
| "waiter_rank Returned = 0"

definition work_left :: "shutdown \<Rightarrow> nat" where
  "work_left s = (\<Sum>w\<leftarrow>waiters s. waiter_rank w) +
     (case main_pc s of Running \<Rightarrow> 2 | InWait \<Rightarrow> 1 | Exited \<Rightarrow> 0)"

lemma token_inv_start: "token_inv (shutdown_start n)"
  by (simp add: token_inv_def tokens_def shutdown_start_def in_hand_def sum_list_replicate)

lemma part_step_token_inv:
  assumes "part_step i s s'" and "token_inv s"
  shows "token_inv s'"
proof -
  note up = sum_list_update_nat [of i "waiters s" "\<lambda>w. of_bool (in_hand w)"]
  show ?thesis using assms(1)
  proof cases
    case begins
    then show ?thesis using assms(2) up [of AwaitsToken]
      by (auto simp: token_inv_def tokens_def in_hand_def split: if_splits)
  next
    case receive
    then show ?thesis using assms(2) up [of HasToken]
      by (auto simp: token_inv_def tokens_def in_hand_def split: if_splits)
  next
    case close
    then show ?thesis using assms(2) up [of Closed]
      by (auto simp: token_inv_def tokens_def in_hand_def split: if_splits)
  next
    case push_back
    then show ?thesis using assms(2) up [of Finished]
      by (auto simp: token_inv_def tokens_def in_hand_def split: if_splits)
  next
    case returns
    then show ?thesis using assms(2) up [of Returned]
      by (auto simp: token_inv_def tokens_def in_hand_def split: if_splits)
  qed
qed

lemma sstep_token_inv:
  assumes "sstep s s'" and "token_inv s"
  shows "token_inv s'"
  using assms(1)
proof (cases rule: sstep_cases)
  case main
  then show ?thesis using assms(2) by cases (auto simp: token_inv_def tokens_def)
next
  case fails
  then show ?thesis using assms(2)
    by (auto simp: token_inv_def tokens_def in_hand_def dest: nth_mem)
next
  case (part i)
  then show ?thesis by (rule part_step_token_inv [OF _ assms(2)])
qed

lemma sreach_token_inv: "sstep\<^sup>*\<^sup>* s s' \<Longrightarrow> token_inv s \<Longrightarrow> token_inv s'"
  by (induction rule: rtranclp_induct) (auto intro: sstep_token_inv)

lemma part_step_work:
  assumes "part_step i s s'"
  shows "work_left s' < work_left s"
proof -
  have less: "work_left s1 < work_left s"
    if "i < length (waiters s)" "waiters s1 = (waiters s)[i := w]" "main_pc s1 = main_pc s"
      "waiter_rank w < waiter_rank (waiters s ! i)" for s1 w
    using sum_list_update_nat [OF that(1), of waiter_rank w] that(2-4) by (simp add: work_left_def)
  show ?thesis using assms by cases (auto intro: less)
qed

lemma sstep_work:
  assumes "sstep s s'"
  shows "work_left s' < work_left s"
  using assms
proof (cases rule: sstep_cases)
  case main
  then show ?thesis by cases (simp_all add: work_left_def)
next
  case fails
  then show ?thesis by (cases "main_pc s") (simp_all add: work_left_def)
next
  case (part i)
  then show ?thesis by (rule part_step_work)
qed

text \<open>While the process lives and the token is out, some part can go on until all have returned.\<close>

lemma shutdown_progress:
  assumes "token_inv s" and "main_pc s = InWait" and "i < length (waiters s)"
    and "waiters s ! i \<noteq> Returned" and "length (waiters s) \<le> 2"
  shows "\<exists>s'. sstep s s' \<and> main_pc s' = InWait"
proof -
  have alive: "main_pc s \<noteq> Exited" by (simp add: assms(2))
  have go: ?thesis if "part_step j s s'" "j < length (waiters s)" "main_pc s' = main_pc s" for j s'
    using part_sstep [OF that(1)] that(2,3) assms(2,5) by auto
  note steps = part_step.begins [OF alive] part_step.receive [OF alive] part_step.close [OF alive]
    part_step.push_back [OF alive] part_step.returns [OF alive]
  have sum: "stop_chan s + (\<Sum>w\<leftarrow>waiters s. of_bool (in_hand w)) = 1"
    using assms(1,2) by (simp add: token_inv_def tokens_def)
  show ?thesis
  proof (cases "stop_chan s = 0")
    case True
    then obtain w where "w \<in> set (waiters s)" "in_hand w"
      using sum by (metis (mono_tags, lifting) add_0 of_bool_eq(1) sum_list_0 map_cong zero_neq_one)
    then obtain j where j: "j < length (waiters s)" "waiters s ! j \<in> {HasToken, Closed}"
      by (auto simp: in_set_conv_nth in_hand_def)
    then show ?thesis using go [OF steps(3) [OF j(1)] j(1)] go [OF steps(4) [OF j(1)] j(1)] True by auto
  next
    case False
    then have "(\<Sum>w\<leftarrow>waiters s. of_bool (in_hand w)) = (0 :: nat)" using sum by linarith
    then have "\<not> in_hand (waiters s ! i)" using assms(3) by (simp add: sum_list_eq_0_iff)
    then have "waiters s ! i \<in> {Launched, AwaitsToken, Finished}"
      using assms(4) by (cases "waiters s ! i") (simp_all add: in_hand_def)
    then show ?thesis using False go [OF steps(1) [OF assms(3)] assms(3)]
      go [OF steps(2) [OF assms(3)] assms(3)] go [OF steps(5) [OF assms(3)] assms(3)] by auto
  qed
qed

text \<open>So the shutdown can be completed from wherever it has got to.\<close>

lemma sstep_length: "sstep s s' \<Longrightarrow> length (waiters s') = length (waiters s)"
  by (erule sstep_cases) (auto elim!: part_stepE main_step.cases)

lemma shutdown_completes:
  assumes "token_inv s" and "main_pc s = InWait" and "length (waiters s) \<le> 2"
  shows "\<exists>s'. sstep\<^sup>*\<^sup>* s s' \<and> main_pc s' = InWait \<and> stop_chan s' = 1 \<and>
    waiters s' = replicate (length (waiters s)) Returned"
  using assms
proof (induction "work_left s" arbitrary: s rule: less_induct)
  case less
  show ?case
  proof (cases "\<exists>i<length (waiters s). waiters s ! i \<noteq> Returned")
    case True
    then obtain s1 where s1: "sstep s s1" "main_pc s1 = InWait"
      using shutdown_progress [OF less.prems(1,2) _ _ less.prems(3)] by blast
    have "token_inv s1" by (rule sstep_token_inv [OF s1(1) less.prems(1)])
    from less.hyps [OF sstep_work [OF s1(1)] this s1(2)] less.prems(3) show ?thesis
      unfolding sstep_length [OF s1(1)] using converse_rtranclp_into_rtranclp [of sstep, OF s1(1)] by blast
  next
    case False
    then have w: "waiters s = replicate (length (waiters s)) Returned"
      by (intro nth_equalityI) simp_all
    have "(\<Sum>w\<leftarrow>waiters s. of_bool (in_hand w)) = (0 :: nat)"
      by (subst w) (simp add: in_hand_def sum_list_replicate)
    moreover have "stop_chan s + (\<Sum>w\<leftarrow>waiters s. of_bool (in_hand w)) = 1"
      using less.prems by (simp add: token_inv_def tokens_def)
    ultimately have "stop_chan s = 1" by linarith
    then show ?thesis using w less.prems(2) by blast
  qed
qed

subsection \<open>Main's wait group\<close>

text \<open>No part has main's variable, so that its counter stays at zero.\<close>

definition wg_inv :: "shutdown \<Rightarrow> bool" where
  "wg_inv s \<longleftrightarrow> length (waiters s) \<le> 2 \<and> part_wg s = fst boot_wgs \<and> counters s ! 0 = 0"

lemma boot_wgs_eval: "boot_wgs = ([5, 3], [0, 0, 0, 0, 0, 0])"
  by (simp add: boot_wgs_def pass_wg_def)

lemma wg_inv_start: "n \<le> 2 \<Longrightarrow> wg_inv (shutdown_start n)"
  by (simp add: wg_inv_def shutdown_start_def boot_wgs_eval)

lemma sstep_wg_inv:
  assumes "sstep s s'" and "wg_inv s"
  shows "wg_inv s'"
  using assms(1)
proof (cases rule: sstep_cases)
  case main
  then show ?thesis using assms(2) by cases (simp_all add: wg_inv_def)
next
  case (part i)
  have i: "i = 0 \<or> i = 1" if "i < length (waiters s)"
    using assms(2) that by (auto simp: wg_inv_def)
  have own: "part_wg s ! i \<noteq> 0" if "i < length (waiters s)"
    using i [OF that] assms(2) by (auto simp: wg_inv_def boot_wgs_eval)
  from part show ?thesis
    by (rule part_stepE) (use assms(2) own in \<open>simp_all add: wg_inv_def wg_Add_def\<close>)
qed (use assms(2) in \<open>simp add: wg_inv_def\<close>)

lemma sreach_wg_inv: "sstep\<^sup>*\<^sup>* s s' \<Longrightarrow> wg_inv s \<Longrightarrow> wg_inv s'"
  by (induction rule: rtranclp_induct) (auto intro: sstep_wg_inv)

text \<open>The parts begin, the signal arrives, and main exits.\<close>

lemma all_begin:
  assumes "n \<in> {1, 2}"
  shows "\<exists>s. sstep\<^sup>*\<^sup>* (shutdown_start n) s \<and> main_pc s = Running \<and> stop_chan s = 0 \<and>
    waiters s = replicate n AwaitsToken \<and> (\<forall>i < n. counters s ! (part_wg s ! i) = 1)"
proof -
  let ?s0 = "shutdown_start n"
  let ?add = "\<lambda>i s. s\<lparr>counters := wg_Add (part_wg s ! i) 1 (counters s),
    waiters := (waiters s)[i := AwaitsToken]\<rparr>"
  have first: "sstep ?s0 (?add 0 ?s0)"
    using assms by (intro part_sstep [of 0] part_step.begins) (auto simp: shutdown_start_def)
  show ?thesis
  proof (cases "n = 1")
    case True
    then show ?thesis using first
      by (intro exI [of _ "?add 0 ?s0"]) (auto simp: shutdown_start_def boot_wgs_eval wg_Add_def)
  next
    case False
    then have n: "n = 2" using assms by simp
    have second: "sstep (?add 0 ?s0) (?add 1 (?add 0 ?s0))"
      by (intro part_sstep [of 1] part_step.begins) (simp_all add: shutdown_start_def n numeral_2_eq_2)
    have "sstep\<^sup>*\<^sup>* ?s0 (?add 1 (?add 0 ?s0))"
      by (rule converse_rtranclp_into_rtranclp [of sstep, OF first r_into_rtranclp [of sstep, OF second]])
    then show ?thesis
      by (intro exI [of _ "?add 1 (?add 0 ?s0)"])
        (auto simp: shutdown_start_def boot_wgs_eval wg_Add_def n less_Suc_eq numeral_2_eq_2)
  qed
qed

lemma early_exit:
  assumes "n \<in> {1, 2}"
  shows "\<exists>s. sstep\<^sup>*\<^sup>* (shutdown_start n) s \<and> main_pc s = Exited \<and>
    waiters s = replicate n AwaitsToken \<and> (\<forall>i < n. counters s ! (part_wg s ! i) = 1)"
proof -
  obtain s where s: "sstep\<^sup>*\<^sup>* (shutdown_start n) s" "main_pc s = Running" "stop_chan s = 0"
    "waiters s = replicate n AwaitsToken" "\<forall>i < n. counters s ! (part_wg s ! i) = 1"
    using all_begin [OF assms] by blast
  let ?s1 = "s\<lparr>stop_chan := stop_chan s + 1, main_pc := InWait\<rparr>"
  have "wg_inv s" using sreach_wg_inv [OF s(1) wg_inv_start] assms by auto
  then have zero: "counters ?s1 ! 0 = 0" by (simp add: wg_inv_def)
  have "main_step s ?s1" by (rule main_step.signal) (simp_all add: s)
  moreover have "main_step ?s1 (?s1\<lparr>main_pc := Exited\<rparr>)"
    by (rule main_step.wait_returns [OF _ zero]) simp
  ultimately have "sstep\<^sup>*\<^sup>* s (?s1\<lparr>main_pc := Exited\<rparr>)"
    by (meson sstep_def converse_rtranclp_into_rtranclp rtranclp.rtrancl_refl)
  with s(1) have "sstep\<^sup>*\<^sup>* (shutdown_start n) (?s1\<lparr>main_pc := Exited\<rparr>)" by (rule rtranclp_trans)
  then show ?thesis using s(4,5) by (intro exI [of _ "?s1\<lparr>main_pc := Exited\<rparr>"]) simp
qed

end
