(* ===== verification/Boot.thy ===== *)
theory Boot
  imports Acl Lifecycle
begin

text \<open>
  The start of the server: reading the configuration (\<open>NewViperConf\<close> and its helpers in
  server/configuration.go), bringing up sockets and web server (server/factory.go), and the whole
  of \<open>main\<close> up to where it waits for a signal. The configuration library \<open>viper\<close>, the file system
  and the environment are parameters.
\<close>

subsection \<open>The outside\<close>

text \<open>What the program calls of viper on its state \<open>'v\<close>; reading a configuration is given the text
  of the file, writing one yields it.\<close>

record 'v viper =
  viper_New :: 'v
  SetDefault :: "string \<Rightarrow> conf_value \<Rightarrow> 'v \<Rightarrow> 'v"
  viper_Set :: "string \<Rightarrow> string \<Rightarrow> 'v \<Rightarrow> 'v"
  ReadInConfig :: "string \<Rightarrow> 'v \<Rightarrow> 'v option"
  WriteConfigAs :: "'v \<Rightarrow> string"
  GetString :: "'v \<Rightarrow> string \<Rightarrow> string"
  GetUint32 :: "'v \<Rightarrow> string \<Rightarrow> uint32"
  GetInt :: "'v \<Rightarrow> string \<Rightarrow> int"
  GetBool :: "'v \<Rightarrow> string \<Rightarrow> bool"

text \<open>The keys of the program. Viper ignores the case of keys and reads a dot as nesting; these keys
  are in lower case and none is nested in another.\<close>

definition program_keys :: "string set" where
  "program_keys = set (map fst mapEnvsToConf)"

text \<open>The states of viper that the program can make: a new one, with defaults, files read and
  values set, all for its own keys.\<close>

inductive viper_state :: "'v viper \<Rightarrow> 'v \<Rightarrow> bool" for V where
  new: "viper_state V (viper_New V)"
| default: "viper_state V v \<Longrightarrow> k \<in> program_keys \<Longrightarrow> viper_state V (SetDefault V k x v)"
| read: "viper_state V v \<Longrightarrow> ReadInConfig V t v = Some v' \<Longrightarrow> viper_state V v'"
| set: "viper_state V v \<Longrightarrow> k \<in> program_keys \<Longrightarrow> viper_state V (viper_Set V k s v)"

text \<open>A lookup after \<open>Set\<close>, as viper documents it: what was set wins over file and defaults, and
  another key of the program has the value it had.\<close>

definition viper_sets :: "'v viper \<Rightarrow> bool" where
  "viper_sets V \<longleftrightarrow> (\<forall>v k s k'. viper_state V v \<longrightarrow> k \<in> program_keys \<longrightarrow> k' \<in> program_keys \<longrightarrow>
     GetString V (viper_Set V k s v) k' = (if k' = k then s else GetString V v k'))"

datatype disk_file = Missing | Unreadable | Content string

record machine =
  LookupEnv :: "string \<Rightarrow> string option"
  ToUpper :: "string \<Rightarrow> string"
  random_bytes :: "nat \<Rightarrow> int"
  path_Join :: "string \<Rightarrow> string \<Rightarrow> string"
  Getwd :: "string option"
  writable :: "string \<Rightarrow> bool"

record host =
  files :: "string \<Rightarrow> disk_file"
  log_level :: int
  conf :: conf_state

subsection \<open>NewViperConf\<close>

definition checkFileExists :: "(string \<Rightarrow> disk_file) \<Rightarrow> string \<Rightarrow> bool" where
  "checkFileExists fs filePath = (fs filePath \<noteq> Missing)"

text \<open>\<open>os.MkdirAll\<close>: no error, the error that the directory exists, or another. The function logs
  and goes on in every case.\<close>

datatype mkdir_result = MkdirOk | MkdirExists | MkdirError string

definition createDirectory :: "mkdir_result \<Rightarrow> string \<Rightarrow> LOG \<Rightarrow> LOG" where
  "createDirectory r dirPath l =
     (case r of
        MkdirOk \<Rightarrow> Info (''Directory created successfully: '' @ dirPath) l
      | MkdirExists \<Rightarrow> Info (''Directory already exists: '' @ dirPath) l
      | MkdirError err \<Rightarrow> Info (''Error creating directory: '' @ err) l)"

text \<open>The white space of package unicode; a text of nothing else is what \<open>strings.TrimSpace\<close> makes
  empty.\<close>

definition unicode_IsSpace :: "int \<Rightarrow> bool" where
  "unicode_IsSpace r \<longleftrightarrow>
     r \<in> {0x09, 0x0A, 0x0B, 0x0C, 0x0D, 0x20, 0x85, 0xA0, 0x1680, 0x2028, 0x2029, 0x202F, 0x205F, 0x3000} \<or>
     0x2000 \<le> r \<and> r \<le> 0x200A"

definition blank :: "string \<Rightarrow> bool" where
  "blank s = list_all unicode_IsSpace (runes s)"

definition config_file :: "string \<Rightarrow> string" where
  "config_file cfgFile = (if blank cfgFile then DEFAULT_CONFIG_FILE else cfgFile)"

text \<open>A failing write of the default file is not noticed here.\<close>

definition write_default_config ::
    "'v viper \<Rightarrow> machine \<Rightarrow> string \<Rightarrow> 'v \<Rightarrow> host \<Rightarrow> ('v \<times> host) go" where
  "write_default_config V M cfgFile v h =
     rbind (createDefaultConfigFile (random_bytes M) (path_Join M)) (\<lambda>settings.
       let v1 = foldl (\<lambda>v (key, val). SetDefault V key val v) v settings;
           lvl = GetLOGLEVEL (GetString V v1 VK_LOG_LOGLEVEL);
           fs = (if writable M cfgFile then (files h)(cfgFile := Content (WriteConfigAs V v1))
                 else files h)
       in Inr (v1, h\<lparr>files := fs, log_level := lvl\<rparr>))"

text \<open>The file is written when it is missing, and read in any case; a failing read ends the process.\<close>

definition load_config ::
    "'v viper \<Rightarrow> machine \<Rightarrow> string \<Rightarrow> host \<Rightarrow> ('v \<times> host) go" where
  "load_config V M cfgFile h =
     rbind (if \<not> checkFileExists (files h) cfgFile
            then write_default_config V M cfgFile (viper_New V) h
            else Inr (viper_New V, h)) (\<lambda>(v1, h1).
       case files h1 cfgFile of
         Content txt \<Rightarrow>
           (case ReadInConfig V txt v1 of None \<Rightarrow> Inl ProcessExit | Some v2 \<Rightarrow> Inr (v2, h1))
       | _ \<Rightarrow> Inl ProcessExit)"

text \<open>The overrides of the environment, applied to viper, and the log level they leave.\<close>

definition apply_envs :: "'v viper \<Rightarrow> machine \<Rightarrow> 'v \<Rightarrow> int \<Rightarrow> 'v \<times> int" where
  "apply_envs V M v lvl =
     (let (calls, lvl') = ReadConfigsFromEnvs (LookupEnv M) (ToUpper M) lvl
      in (foldl (\<lambda>v (key, s). viper_Set V key s v) v calls, lvl'))"

definition NewViperConf ::
    "'v viper \<Rightarrow> machine \<Rightarrow> string \<Rightarrow> host \<Rightarrow> ('v \<times> uint32 \<times> host) go" where
  "NewViperConf V M cfgFile h =
     rbind (load_config V M (config_file cfgFile) h) (\<lambda>(v2, h1).
       let (v3, lvl) = apply_envs V M v2 (log_level h1)
       in rbind (initDB (Getwd M) (path_Join M) (GetString V v3) (GetUint32 V v3) (GetInt V v3)
                  (conf h1)) (\<lambda>(st, sub_dicks).
            Inr (v3, sub_dicks, h1\<lparr>log_level := lvl, conf := st\<rparr>)))"

subsection \<open>The factory\<close>

datatype web_server = HttpServer http_settings | HttpsServer https_settings

definition NewHttpServer :: "conf_state \<Rightarrow> (string \<Rightarrow> string) \<Rightarrow> web_server" where
  "NewHttpServer st gs = HttpServer (http_server_settings st gs)"

definition NewHttpsServer :: "conf_state \<Rightarrow> (string \<Rightarrow> string) \<Rightarrow> web_server" where
  "NewHttpsServer st gs = HttpsServer (https_server_settings st gs)"

definition handler_conf :: "(string \<Rightarrow> string) \<Rightarrow> (string \<Rightarrow> bool) \<Rightarrow> socket_conf" where
  "handler_conf gs gb =
     \<lparr>conf_host = gs VK_SERVER_HOST, conf_tcpport = gs VK_SERVER_SOCKET_PORT_TCP,
      conf_tlsport = gs VK_SERVER_SOCKET_PORT_TLS, conf_socket_path = gs VK_SERVER_SOCKET_PATH,
      conf_acl = gs VK_SERVER_SOCKET_ACL, conf_tls_enabled = gb VK_SEC_TLS_ENABLED\<rparr>"

record server =
  srv_log :: LOG
  srv_acl :: AccessControlList
  srv_listeners :: "listener list"
  srv_web :: web_server
  srv_prof :: bool

text \<open>\<open>srv_prof\<close> says whether the variable \<open>Prof\<close> of package server is set, which main does.\<close>

text \<open>\<open>open_ok\<close> says which log files can be opened, \<open>listen_ok\<close> where listening succeeds.\<close>

definition NewNDBServer ::
    "(string \<Rightarrow> bool) \<Rightarrow> (string \<rightharpoonup> bool) option \<Rightarrow> (listener \<Rightarrow> bool) \<Rightarrow> (string \<Rightarrow> string) \<Rightarrow>
     (string \<Rightarrow> bool) \<Rightarrow> conf_state \<Rightarrow> LOG \<Rightarrow> server go" where
  "NewNDBServer open_ok DefaultACL listen_ok gs gb st l =
     (let tls_enabled = gb VK_SEC_TLS_ENABLED;
          l1 = LogStart open_ok (gs VK_LOG_LOGFILE) l
      in rbind (NewSocketHandler DefaultACL listen_ok (handler_conf gs gb)) (\<lambda>(a, ls).
           Inr \<lparr>srv_log = l1, srv_acl = a, srv_listeners = ls,
                srv_web = (if tls_enabled then NewHttpsServer st gs else NewHttpServer st gs),
                srv_prof = False\<rparr>))"

subsection \<open>main\<close>

record flags =
  flag_mode :: int
  flag_configfile :: string
  flag_hashmode :: int
  flag_logfile :: string
  flag_pprof :: string

definition default_flags :: flags where
  "default_flags = \<lparr>flag_mode = 1, flag_configfile = DEFAULT_CONFIG_FILE,
     flag_hashmode = HASH_FNV64A, flag_logfile = [], flag_pprof = []\<rparr>"

text \<open>The result is what runs when \<open>main\<close> starts to wait: the bucket hash's state, the configured
  host, and in mode 1 the server and its database.\<close>

definition main ::
    "'v viper \<Rightarrow> machine \<Rightarrow> (string \<Rightarrow> bool) \<Rightarrow> (string \<rightharpoonup> bool) option \<Rightarrow> (listener \<Rightarrow> bool) \<Rightarrow>
     nat list \<Rightarrow> int \<Rightarrow> flags \<Rightarrow> host \<Rightarrow> salt_state \<times> 'a db_env_scheme \<Rightarrow>
     ((salt_state \<times> 'a db_env_scheme) \<times> host \<times> (XDatabase \<times> server) option) go" where
  "main V M open_ok DefaultACL listen_ok rs now fl h p =
     (let logs = NewLogger open_ok (GetEnvLOGLEVEL (LookupEnv M)) (flag_logfile fl) in
      rbind (NewViperConf V M (flag_configfile fl) (h\<lparr>log_level := LOGLEVEL logs\<rparr>))
        (\<lambda>(v, sub_dicks, h1).
      rbind (boot_database (flag_mode fl) (flag_hashmode fl) rs now sub_dicks p) (\<lambda>(p1, dbo).
        case dbo of
          None \<Rightarrow> Inr (p1, h1, None)
        | Some db \<Rightarrow>
            rbind (NewNDBServer open_ok DefaultACL listen_ok (GetString V v) (GetBool V v) (conf h1)
                    (logs\<lparr>LOGLEVEL := log_level h1\<rparr>)) (\<lambda>srv.
              Inr (p1, h1, Some (db, if flag_pprof fl \<noteq> [] then srv\<lparr>srv_prof := True\<rparr> else srv))))))"

subsection \<open>Environment variables win\<close>

lemma sets_state:
  "viper_state V v \<Longrightarrow> fst ` set calls \<subseteq> program_keys \<Longrightarrow>
   viper_state V (foldl (\<lambda>v (key, s). viper_Set V key s v) v calls)"
  by (induction calls arbitrary: v) (auto simp: viper_state.set)

lemma defaults_state:
  "viper_state V v \<Longrightarrow> fst ` set settings \<subseteq> program_keys \<Longrightarrow>
   viper_state V (foldl (\<lambda>v (key, val). SetDefault V key val v) v settings)"
  by (induction settings arbitrary: v) (auto simp: viper_state.default)

lemma sets_lookup:
  assumes "viper_sets V" and "distinct (map fst calls)" and "viper_state V v"
    and "fst ` set calls \<subseteq> program_keys" and "k \<in> program_keys"
  shows "GetString V (foldl (\<lambda>v (key, s). viper_Set V key s v) v calls) k =
    (case map_of calls k of Some s \<Rightarrow> s | None \<Rightarrow> GetString V v k)"
  using assms(2-4)
proof (induction calls arbitrary: v)
  case (Cons c calls)
  obtain key s where c: "c = (key, s)" by fastforce
  have key: "map_of calls key = None" "key \<in> program_keys"
    using Cons.prems by (simp_all add: c map_of_eq_None_iff)
  then have "viper_state V (viper_Set V key s v)" using Cons.prems(2) by (simp add: viper_state.set)
  from Cons.IH [OF _ this] Cons.prems key assms(1,5) show ?case
    by (auto simp: c viper_sets_def split: option.split)
qed simp

text \<open>The calls that the environment leads to: one for each listed variable that is set.\<close>

definition env_value :: "(string \<Rightarrow> string option) \<Rightarrow> (string \<Rightarrow> string) \<Rightarrow> string \<Rightarrow> string" where
  "env_value le tu envK = (if envK = ''LOGLEVEL'' then tu (the (le envK)) else the (le envK))"

lemma read_envs_calls:
  "fst (read_envs le tu m lvl) =
     map (\<lambda>(key, envK). (key, env_value le tu envK)) (filter (\<lambda>(_, envK). le envK \<noteq> None) m)"
proof (induction m arbitrary: lvl)
  case (Cons p m)
  obtain key envK where p: "p = (key, envK)" by fastforce
  show ?case
  proof (cases "le envK")
    case (Some v)
    have "fst (read_envs le tu (p # m) lvl) = (key, env_value le tu envK) #
        fst (read_envs le tu m (if envK = ''LOGLEVEL'' then GetLOGLEVEL (tu v) else lvl))"
      using Some by (auto simp: p env_value_def Let_def split: prod.split)
    then show ?thesis using Some by (simp add: p Cons.IH)
  qed (simp add: p Cons.IH)
qed simp

lemma env_calls_lookup:
  assumes "(key, envK) \<in> set m" and "le envK \<noteq> None" and "distinct (map fst m)"
  shows "map_of (fst (read_envs le tu m lvl)) key = Some (env_value le tu envK)"
    and "distinct (map fst (fst (read_envs le tu m lvl)))"
proof -
  have keys: "map fst (fst (read_envs le tu m lvl)) = map fst (filter (\<lambda>(_, envK). le envK \<noteq> None) m)"
    unfolding read_envs_calls by (simp add: comp_def split_def)
  show d: "distinct (map fst (fst (read_envs le tu m lvl)))"
    unfolding keys by (rule distinct_map_filter [OF assms(3)])
  have "(key, env_value le tu envK) \<in> set (fst (read_envs le tu m lvl))"
    unfolding read_envs_calls using assms(1,2) by force
  then show "map_of (fst (read_envs le tu m lvl)) key = Some (env_value le tu envK)" using d by simp
qed

lemma distinct_keys: "distinct (map fst mapEnvsToConf)"
  by (simp add: mapEnvsToConf_def conf_keys)

text \<open>The default file has a setting for each key of the environment's table, and no other.\<close>

lemma default_keys: "map fst (default_settings join pass) = map fst mapEnvsToConf"
  by (simp add: default_settings_def mapEnvsToConf_def)

lemma one_dot: "k \<in> program_keys \<Longrightarrow> length (filter (\<lambda>c. c = CHR ''.'') k) = 1"
  by (auto simp: program_keys_def mapEnvsToConf_def conf_keys)

lemma program_keys_separate:
  assumes "k \<in> program_keys" and "k' \<in> program_keys"
  shows "\<not> prefix (k @ ''.'') k'"
  using one_dot [OF assms(1)] one_dot [OF assms(2)] by (auto simp: prefix_def)

lemma load_config_state:
  assumes "load_config V M f h = Inr (v, h')"
  shows "viper_state V v"
proof -
  obtain v1 and h1 :: host where
    v1: "(if \<not> checkFileExists (files h) f then write_default_config V M f (viper_New V) h
      else Inr (viper_New V, h)) = Inr (v1, h1)"
    and rd: "(case files h1 f of
         Content t \<Rightarrow> (case ReadInConfig V t v1 of None \<Rightarrow> Inl ProcessExit | Some v2 \<Rightarrow> Inr (v2, h1))
       | _ \<Rightarrow> Inl ProcessExit) = Inr (v, h')"
    using assms unfolding load_config_def rbind_eq_Inr split_paired_Ex prod.case by blast
  obtain t where v: "ReadInConfig V t v1 = Some v"
    using rd by (cases "files h1 f") (auto split: option.splits)
  have "fst ` set (default_settings (path_Join M) pass) \<subseteq> program_keys" for pass
    using arg_cong [OF default_keys, of set] by (simp add: program_keys_def)
  then have defaults: "viper_state V (foldl (\<lambda>v (key, val). SetDefault V key val v) (viper_New V)
      (default_settings (path_Join M) pass))" for pass
    by (rule defaults_state [OF viper_state.new])
  have "viper_state V v1" using v1
    by (auto simp: write_default_config_def createDefaultConfigFile_def rbind_eq_Inr Let_def
        viper_state.new defaults split: if_splits)
  then show ?thesis using v by (rule viper_state.read)
qed

lemma NewViperConf_result:
  assumes "NewViperConf V M cfgFile h = Inr (v, n, h')"
  shows "\<exists>v2 lvl. viper_state V v2 \<and> v = foldl (\<lambda>v (key, s). viper_Set V key s v) v2
        (fst (ReadConfigsFromEnvs (LookupEnv M) (ToUpper M) lvl))"
    and "n \<in> set AVAIL_SUBDICKS"
proof -
  obtain v2 st and h1 :: host where l: "load_config V M (config_file cfgFile) h = Inr (v2, h1)" and
    v: "v = fst (apply_envs V M v2 (log_level h1))" and
    db: "initDB (Getwd M) (path_Join M) (GetString V v) (GetUint32 V v) (GetInt V v) (conf h1) = Inr (st, n)"
    using assms(1) by (auto simp: NewViperConf_def case_prod_unfold Let_def rbind_eq_Inr)
  show "\<exists>v2 lvl. viper_state V v2 \<and> v = foldl (\<lambda>v (key, s). viper_Set V key s v) v2
      (fst (ReadConfigsFromEnvs (LookupEnv M) (ToUpper M) lvl))"
    unfolding v using load_config_state [OF l]
    by (auto simp: apply_envs_def split: prod.split) (metis fst_conv)
  obtain cwd where "Getwd M = Some cwd" using db by (cases "Getwd M") (simp_all add: initDB_def)
  then show "n \<in> set AVAIL_SUBDICKS" using initDB_cases(1) db by metis
qed

lemma NewViperConf_env:
  assumes "NewViperConf V M cfgFile h = Inr (v, n, h')" and "viper_sets V"
    and "(key, envK) \<in> set mapEnvsToConf" and "LookupEnv M envK \<noteq> None"
  shows "GetString V v key = env_value (LookupEnv M) (ToUpper M) envK"
proof -
  obtain v2 lvl where v2: "viper_state V v2" and v: "v = foldl (\<lambda>v (key, s). viper_Set V key s v) v2
      (fst (ReadConfigsFromEnvs (LookupEnv M) (ToUpper M) lvl))"
    using NewViperConf_result(1) [OF assms(1)] by blast
  note look = env_calls_lookup [where le = "LookupEnv M" and tu = "ToUpper M" and lvl = lvl,
      OF assms(3,4) distinct_keys, folded ReadConfigsFromEnvs_def]
  have "fst ` set (fst (ReadConfigsFromEnvs (LookupEnv M) (ToUpper M) lvl)) \<subseteq> program_keys"
    by (auto simp: ReadConfigsFromEnvs_def read_envs_calls program_keys_def intro: rev_image_eqI)
  moreover have "key \<in> program_keys" using assms(3) by (auto simp: program_keys_def intro: rev_image_eqI)
  ultimately show ?thesis using sets_lookup [OF assms(2) look(2) v2, of key] look(1) by (simp add: v)
qed

subsection \<open>What main has started\<close>

lemma boot_database_result:
  assumes "boot_database mode hashmode rs now n (salt0, E) = Inr ((salt, E'), Some db)"
    and "hashmode \<in> {HASH_siphash, HASH_FNV32A, HASH_FNV64A}" and "length (buf (pool E)) = 4"
  shows "mode = 1 \<and> db = NewDICK now n \<and> env_ok E'"
proof -
  let ?E1 = "E\<lparr>HASHER := hashmode\<rparr>"
  have "env_ok ?E1" using assms(2,3) by (simp add: env_ok_def hasher_ok_def)
  then have "env_ok (snd (generateSALT rs (salt0, ?E1)))" by (simp add: generateSALT_env)
  with \<open>env_ok ?E1\<close> show ?thesis
    using assms(1) by (auto simp: boot_database_def Let_def split: if_splits)
qed

lemma main_result:
  assumes "main V M open_ok DefaultACL listen_ok rs now fl h p = Inr (p1, h1, Some (db, srv))"
  shows "\<exists>v n l lvl. NewViperConf V M (flag_configfile fl) (h\<lparr>log_level := lvl\<rparr>) = Inr (v, n, h1) \<and>
    boot_database (flag_mode fl) (flag_hashmode fl) rs now n p = Inr (p1, Some db) \<and>
    (\<exists>srv0. NewNDBServer open_ok DefaultACL listen_ok (GetString V v) (GetBool V v) (conf h1) l = Inr srv0 \<and>
       srv = (if flag_pprof fl \<noteq> [] then srv0\<lparr>srv_prof := True\<rparr> else srv0))"
  using assms by (fastforce simp: main_def Let_def rbind_eq_Inr split: option.splits)

text \<open>The listeners and the access list that the configuration asks for.\<close>

lemma NewNDBServer_result:
  assumes "NewNDBServer open_ok None listen_ok gs gb st l = Inr srv"
  shows "(\<forall>ip. IsAllowed (srv_acl srv) ip \<longleftrightarrow>
      gs VK_SERVER_SOCKET_ACL \<noteq> [] \<and> ip \<in> set (strings_Split (gs VK_SERVER_SOCKET_ACL) '',''))"
    and "(\<exists>a. TLSListener a \<in> set (srv_listeners srv)) \<longleftrightarrow> gb VK_SEC_TLS_ENABLED"
    and "(\<exists>w. srv_web srv = HttpsServer w) \<longleftrightarrow> gb VK_SEC_TLS_ENABLED"
    and "TCPListener (gs VK_SERVER_HOST @ '':'' @ gs VK_SERVER_SOCKET_PORT_TCP) \<in> set (srv_listeners srv)"
    and "\<not> srv_prof srv"
proof -
  obtain a ls where s: "NewSocketHandler None listen_ok (handler_conf gs gb) = Inr (a, ls)"
    "srv_acl srv = a" "srv_listeners srv = ls"
    "srv_web srv = (if gb VK_SEC_TLS_ENABLED then NewHttpsServer st gs else NewHttpServer st gs)"
    "\<not> srv_prof srv"
    using assms by (auto simp: NewNDBServer_def Let_def rbind_eq_Inr)
  show "\<not> srv_prof srv" by (rule s(5))
  have acl: "handler_acl None (gs VK_SERVER_SOCKET_ACL) = Inr a"
    using s(1) by (auto simp: NewSocketHandler_def handler_conf_def Let_def rbind_eq_Inr)
  show "\<forall>ip. IsAllowed (srv_acl srv) ip \<longleftrightarrow>
      gs VK_SERVER_SOCKET_ACL \<noteq> [] \<and> ip \<in> set (strings_Split (gs VK_SERVER_SOCKET_ACL) '','')"
    using handler_acl_spec [OF refl, of "gs VK_SERVER_SOCKET_ACL"] acl s(2) by auto
  have ls: "ls = (if gs VK_SERVER_SOCKET_PATH = [] then [] else [UnixListener (gs VK_SERVER_SOCKET_PATH)]) @
      [TCPListener (gs VK_SERVER_HOST @ '':'' @ gs VK_SERVER_SOCKET_PORT_TCP)] @
      (if gb VK_SEC_TLS_ENABLED then [TLSListener (gs VK_SERVER_HOST @ '':'' @ gs VK_SERVER_SOCKET_PORT_TLS)]
       else [])"
    using s(1) by (auto simp: NewSocketHandler_def handler_conf_def Start_def Let_def rbind_eq_Inr
        split: if_splits)
  then show "(\<exists>a. TLSListener a \<in> set (srv_listeners srv)) \<longleftrightarrow> gb VK_SEC_TLS_ENABLED"
    "TCPListener (gs VK_SERVER_HOST @ '':'' @ gs VK_SERVER_SOCKET_PORT_TCP) \<in> set (srv_listeners srv)"
    by (auto simp: s(3))
  show "(\<exists>w. srv_web srv = HttpsServer w) \<longleftrightarrow> gb VK_SEC_TLS_ENABLED"
    by (simp add: s(4) NewHttpServer_def NewHttpsServer_def)
qed

end
