(* ===== verification/TestClient.thy ===== *)
theory TestClient
  imports EndToEnd "HOL-Library.AList" "HOL-Library.Signed_Division"
begin

text \<open>
  The test program client/main.go, what one of its rounds does: the keys and values it makes, the
  loop that inserts them through a client, the loops that read them back and compare, and the
  loop that sums what the rounds report. The goroutines and channels around the rounds are in
  TestWorkers. The requests go out through a \<open>wire\<close>, the network and the server behind it.
\<close>

subsection \<open>Keys and values\<close>

definition hex_digit :: "nat \<Rightarrow> char" where
  "hex_digit n = ''0123456789abcdef'' ! n"

definition hex_EncodeToString :: "string \<Rightarrow> string" where
  "hex_EncodeToString b =
     concat (map (\<lambda>c. [hex_digit (of_char c div 16), hex_digit (of_char c mod 16)]) b)"

text \<open>\<open>rnd i\<close> is the \<open>i\<close>-th byte that \<open>crand.Read\<close> leaves in the buffer.\<close>

definition DevUrandomString :: "(nat \<Rightarrow> char) \<Rightarrow> int \<Rightarrow> string" where
  "DevUrandomString rnd len =
     (let uselen = (if len div 2 \<le> 0 then 1 else len div 2)
      in hex_EncodeToString (map rnd [0..<nat uselen]))"

text \<open>The verb \<open>%010d\<close>: zeros up to a width of ten, after the sign.\<close>

definition fmt_010d :: "int64 \<Rightarrow> string" where
  "fmt_010d x =
     (let digits = nat_digits (nat \<bar>sint x\<bar>)
      in if x <s 0 then ''-'' @ replicate (9 - length digits) CHR ''0'' @ digits
         else replicate (10 - length digits) CHR ''0'' @ digits)"

definition count_key :: "int64 \<Rightarrow> int64 \<Rightarrow> string" where
  "count_key startint r =
     fmt_d startint @ ''_Atestkey'' @ fmt_010d startint @ ''-r-'' @ fmt_010d r"

definition count_val :: "int64 \<Rightarrow> int64 \<Rightarrow> string" where
  "count_val startint r =
     fmt_d startint @ ''_aTestVal'' @ fmt_010d startint @ ''-r-'' @ fmt_010d r"

text \<open>Where a round takes its pairs from: random bytes for the key and for the value of the
  \<open>i\<close>-th item with the lengths of the flags, or the counter.\<close>

datatype source =
    is_Randomize: Randomize (keylen: int) (vallen: int) (key_bytes: "nat \<Rightarrow> nat \<Rightarrow> char")
      (val_bytes: "nat \<Rightarrow> nat \<Rightarrow> char")
  | Counting

fun item_pair :: "source \<Rightarrow> nat \<Rightarrow> int64 \<Rightarrow> int64 \<Rightarrow> string \<times> string" where
  "item_pair (Randomize kl vl kb vb) i startint r =
     (DevUrandomString (kb i) kl, DevUrandomString (vb i) vl)"
| "item_pair Counting i startint r = (count_key startint r, count_val startint r)"

subsection \<open>Requests over a wire\<close>

text \<open>\<open>'w\<close> is the state of all that is behind the connection.\<close>

record 'w wire =
  sock_io :: "string \<Rightarrow> 'w \<Rightarrow> sock_reply \<times> 'w"
  get_io :: "string \<Rightarrow> 'w \<Rightarrow> http_reply \<times> 'w"
  post_io :: "string \<Rightarrow> string \<Rightarrow> 'w \<Rightarrow> http_reply \<times> 'w"

text \<open>The switches on \<open>netCli.Mode\<close>. Another mode sends nothing; \<open>err\<close> is then still nil, since an
  error ends the program. A request function that finds its connection nil sends nothing.\<close>

definition wire_set ::
    "'w wire \<Rightarrow> Client \<Rightarrow> string \<Rightarrow> string \<Rightarrow> 'w \<Rightarrow> cli_error option \<times> 'w" where
  "wire_set W c key val w =
     (if cMode c = 1 then
        (fst (HTTP_Set (\<lambda>u b. fst (post_io W u b w)) c key val []),
         if http_open c then snd (post_io W (url c @ ''/set'') (json_pair key val) w) else w)
      else if cMode c = 2 then
        (fst (SOCK_Set (\<lambda>q. fst (sock_io W q w)) c key val []),
         if tp_open c then snd (sock_io W (set_request key val) w) else w)
      else (None, w))"

text \<open>The results are the error, the value, \<open>found\<close>, and the state behind the wire.\<close>

definition wire_get ::
    "'w wire \<Rightarrow> Client \<Rightarrow> string \<Rightarrow> 'w \<Rightarrow> (cli_error option \<times> string \<times> bool \<times> 'w) go" where
  "wire_get W c key w =
     (if cMode c = 1 then
        rbind (HTTP_Get (\<lambda>u. fst (get_io W u w)) c key [] False) (\<lambda>(err, retval, found).
          Inr (err, retval, found, snd (get_io W (url c @ ''/get/'' @ key) w)))
      else if cMode c = 2 then
        (case SOCK_Get (\<lambda>q. fst (sock_io W q w)) c key [] (Some []) False of
           (err, retval, nfk, found) \<Rightarrow>
             Inr (err, retval, found,
               if tp_open c then snd (sock_io W (get_request key) w) else w))
      else Inr (None, [], False, w))"

subsection \<open>Inserting a round\<close>

text \<open>The loop over the items, with \<open>i\<close> done and the given number to go. A failed insertion ends
  the program (\<open>log.Fatalf\<close>). The map of the pairs is kept as a list of its bindings.\<close>

fun insert_loop ::
    "'w wire \<Rightarrow> Client \<Rightarrow> source \<Rightarrow> int64 \<Rightarrow> nat \<Rightarrow> nat \<Rightarrow> int64 \<Rightarrow> (string \<times> string) list \<Rightarrow> 'w \<Rightarrow>
     ((string \<times> string) list \<times> 'w) go" where
  "insert_loop W c src r i 0 startint testmap w = Inr (testmap, w)"
| "insert_loop W c src r i (Suc n) startint testmap w =
     (let (key, val) = item_pair src i startint r;
          (err, w1) = wire_set W c key val w
      in if err \<noteq> None then Inl ProcessExit
         else insert_loop W c src r (Suc i) n (startint + 1)
           (if is_Randomize src then AList.update key val testmap else testmap) w1)"

definition insert_round ::
    "'w wire \<Rightarrow> Client \<Rightarrow> source \<Rightarrow> int64 \<Rightarrow> int \<Rightarrow> int64 \<Rightarrow> 'w \<Rightarrow> ((string \<times> string) list \<times> 'w) go"
  where
  "insert_round W c src r items startint w = insert_loop W c src r 0 (nat items) startint [] w"

subsection \<open>Checking a round\<close>

text \<open>A pair that is not found or has another value ends the program.\<close>

definition check_pair ::
    "'w wire \<Rightarrow> Client \<Rightarrow> string \<Rightarrow> string \<Rightarrow> 'w \<Rightarrow> 'w go" where
  "check_pair W c k v w =
     rbind (wire_get W c k w) (\<lambda>(err, retval, found, w1).
       if err \<noteq> None then Inl ProcessExit
       else if \<not> found \<or> retval \<noteq> v then Inl ProcessExit
       else Inr w1)"

fun check_count_loop ::
    "'w wire \<Rightarrow> Client \<Rightarrow> int64 \<Rightarrow> nat \<Rightarrow> int64 \<Rightarrow> int \<Rightarrow> 'w \<Rightarrow> (int \<times> 'w) go" where
  "check_count_loop W c r 0 startint checked w = Inr (checked, w)"
| "check_count_loop W c r (Suc n) startint checked w =
     rbind (check_pair W c (count_key startint r) (count_val startint r) w) (\<lambda>w1.
       check_count_loop W c r n (startint + 1) (checked + 1) w1)"

definition check_count_round ::
    "'w wire \<Rightarrow> Client \<Rightarrow> int64 \<Rightarrow> int \<Rightarrow> int64 \<Rightarrow> 'w \<Rightarrow> (int \<times> 'w) go" where
  "check_count_round W c r items startint w = check_count_loop W c r (nat items) startint 0 w"

text \<open>The loop over a captured map, whose bindings come in any order.\<close>

fun check_map_loop ::
    "'w wire \<Rightarrow> Client \<Rightarrow> (string \<times> string) list \<Rightarrow> int \<Rightarrow> 'w \<Rightarrow> (int \<times> 'w) go" where
  "check_map_loop W c [] checked w = Inr (checked, w)"
| "check_map_loop W c ((k, v) # kvs) checked w =
     rbind (check_pair W c k v w) (\<lambda>w1. check_map_loop W c kvs (checked + 1) w1)"

subsection \<open>Summing the rounds\<close>

text \<open>The loop labelled \<open>final\<close>: it adds what the rounds have sent until the sum is the number of
  items; \<open>None\<close> when it has taken all there is and waits for more.\<close>

fun final_sum :: "int \<Rightarrow> int \<Rightarrow> int list \<Rightarrow> int option" where
  "final_sum want checked [] = None"
| "final_sum want checked (aint # rest) =
     (if checked + aint = want then Some (checked + aint)
      else final_sum want (checked + aint) rest)"

text \<open>The report at the end, from the times in seconds at which the test began, its insertions
  ended and its checks ended. Go's division truncates and panics for a zero divisor.\<close>

definition go_div :: "int \<Rightarrow> int \<Rightarrow> int go" where
  "go_div a b = (if b = 0 then Inl DivideByZero else Inr (a sdiv b))"

datatype test_report = TooFast | Rates (insert_rate: int) (check_rate: int) (total_secs: int)

definition report_test :: "int \<Rightarrow> int \<Rightarrow> int \<Rightarrow> int \<Rightarrow> test_report go" where
  "report_test start insert_end test_end checked =
     (let diff1 = insert_end - start;
          diff2 = test_end - start
      in if diff1 \<le> 0 \<or> diff2 \<le> 0 then Inr TooFast
         else rbind (go_div checked (insert_end - start)) (\<lambda>r1.
              rbind (go_div checked (test_end - insert_end)) (\<lambda>r2.
                Inr (Rates r1 r2 (test_end - start)))))"

text \<open>The guard looks at two differences and the code divides by a third, which only the second
  that main sleeps before it reads the clock keeps from being zero.\<close>

lemma report_test_ok: "insert_end < test_end \<Longrightarrow> \<not> is_fault (report_test start insert_end test_end checked)"
  by (auto simp: report_test_def go_div_def Let_def)

lemma report_test_same_second:
  "start < insert_end \<Longrightarrow> report_test start insert_end insert_end checked = Inl DivideByZero"
  by (simp add: report_test_def go_div_def)

lemma final_sum_short:
  assumes "checked + sum_list xs < want" and "\<forall>x \<in> set xs. 0 \<le> x"
  shows "final_sum want checked xs = None"
  using assms
proof (induction xs arbitrary: checked)
  case (Cons x xs)
  then have "0 \<le> sum_list xs" by (simp add: sum_list_nonneg)
  then show ?case using Cons by simp
qed simp

lemma final_sum_replicate:
  assumes "0 < n" and "0 < x"
  shows "final_sum (checked + int n * x) checked (replicate n x) = Some (checked + int n * x)"
  using assms
proof (induction n arbitrary: checked)
  case (Suc n)
  show ?case
  proof (cases "n = 0")
    case False
    then have "final_sum (checked + x + int n * x) (checked + x) (replicate n x) =
        Some (checked + x + int n * x)" using Suc by simp
    then show ?thesis using False Suc.prems by (simp add: algebra_simps)
  qed (simp add: algebra_simps)
qed simp

subsection \<open>All rounds over one connection\<close>

text \<open>With one worker at a time the rounds share a connection and run one after the other, in the
  order in which the goroutines get the token.\<close>

fun insert_rounds ::
    "'w wire \<Rightarrow> Client \<Rightarrow> (int64 \<Rightarrow> source) \<Rightarrow> int \<Rightarrow> int64 \<Rightarrow> int64 list \<Rightarrow> 'w \<Rightarrow>
     ((string \<times> string) list list \<times> 'w) go" where
  "insert_rounds W c src items startint [] w = Inr ([], w)"
| "insert_rounds W c src items startint (r # rs) w =
     rbind (insert_round W c (src r) r items startint w) (\<lambda>(tm, w1).
     rbind (insert_rounds W c src items startint rs w1) (\<lambda>(tms, w2).
       Inr (tm # tms, w2)))"

fun check_count_rounds ::
    "'w wire \<Rightarrow> Client \<Rightarrow> int \<Rightarrow> int64 \<Rightarrow> int64 list \<Rightarrow> 'w \<Rightarrow> (int list \<times> 'w) go" where
  "check_count_rounds W c items startint [] w = Inr ([], w)"
| "check_count_rounds W c items startint (r # rs) w =
     rbind (check_count_round W c r items startint w) (\<lambda>(n, w1).
     rbind (check_count_rounds W c items startint rs w1) (\<lambda>(ns, w2).
       Inr (n # ns, w2)))"

fun check_map_rounds ::
    "'w wire \<Rightarrow> Client \<Rightarrow> (string \<times> string) list list \<Rightarrow> 'w \<Rightarrow> (int list \<times> 'w) go" where
  "check_map_rounds W c [] w = Inr ([], w)"
| "check_map_rounds W c (tm # tms) w =
     rbind (check_map_loop W c tm 0 w) (\<lambda>(n, w1).
     rbind (check_map_rounds W c tms w1) (\<lambda>(ns, w2).
       Inr (n # ns, w2)))"

text \<open>The test as a whole with the flags that decide what it does. \<open>rs\<close> and \<open>rs'\<close> are the orders
  in which the goroutines of the insertion and of the counted check come to work; the random check
  takes the captured maps as they come back. The result is that of the last loop.\<close>

record test_flags =
  test_items :: int
  test_rounds :: int
  test_startint :: int64
  test_randomize :: bool
  flag_keylen :: int
  flag_vallen :: int

definition default_test_flags :: test_flags where
  "default_test_flags = \<lparr>test_items = 125000, test_rounds = 8, test_startint = 1, test_randomize = True,
     flag_keylen = 16, flag_vallen = 16\<rparr>"

definition round_source ::
    "test_flags \<Rightarrow> (int64 \<Rightarrow> nat \<Rightarrow> nat \<Rightarrow> char) \<Rightarrow> (int64 \<Rightarrow> nat \<Rightarrow> nat \<Rightarrow> char) \<Rightarrow> int64 \<Rightarrow> source" where
  "round_source fl kb vb r =
     (if test_randomize fl then Randomize (flag_keylen fl) (flag_vallen fl) (kb r) (vb r) else Counting)"

definition test_main ::
    "'w wire \<Rightarrow> Client \<Rightarrow> test_flags \<Rightarrow> (int64 \<Rightarrow> nat \<Rightarrow> nat \<Rightarrow> char) \<Rightarrow> (int64 \<Rightarrow> nat \<Rightarrow> nat \<Rightarrow> char) \<Rightarrow>
     int64 list \<Rightarrow> int64 list \<Rightarrow> 'w \<Rightarrow> (int option \<times> 'w) go" where
  "test_main W c fl kb vb rs rs' w =
     rbind (insert_rounds W c (round_source fl kb vb) (test_items fl) (test_startint fl) rs w) (\<lambda>(tms, w1).
     rbind (if test_randomize fl then check_map_rounds W c tms w1
            else check_count_rounds W c (test_items fl) (test_startint fl) rs' w1) (\<lambda>(ns, w2).
       Inr (final_sum (test_items fl * test_rounds fl) 0 ns, w2)))"

subsection \<open>The pairs of a round\<close>

fun round_pairs :: "source \<Rightarrow> int64 \<Rightarrow> nat \<Rightarrow> nat \<Rightarrow> int64 \<Rightarrow> (string \<times> string) list" where
  "round_pairs src r i 0 startint = []"
| "round_pairs src r i (Suc n) startint =
     item_pair src i startint r # round_pairs src r (Suc i) n (startint + 1)"

lemma length_round_pairs [simp]: "length (round_pairs src r i n s) = n"
  by (induction n arbitrary: i s) simp_all

lemma round_pairs_Counting: "round_pairs Counting r i n s = round_pairs Counting r j n s"
  by (induction n arbitrary: i j s) auto

lemma in_round_pairs: "p \<in> set (round_pairs src r i n s) \<Longrightarrow> \<exists>j s'. p = item_pair src j s' r"
  by (induction n arbitrary: i s) auto

text \<open>The map that a random round captures is the map of items pairs, later ones first.\<close>

definition capture :: "(string \<times> string) list \<Rightarrow> (string \<times> string) list \<Rightarrow> (string \<times> string) list" where
  "capture ps tm = fold (\<lambda>(k, v). AList.update k v) ps tm"

lemma capture_simps [simp]:
  "capture [] tm = tm" "capture ((k, v) # ps) tm = capture ps (AList.update k v tm)"
  by (simp_all add: capture_def)

lemma map_of_capture: "map_of (capture ps tm) = map_of tm ++ map_of (rev ps)"
proof (induction ps arbitrary: tm)
  case (Cons p ps)
  obtain k v where "p = (k, v)" by fastforce
  then show ?case
    by (simp only: capture_simps Cons.IH update_conv' rev.simps map_of_append map_of.simps fst_conv
        snd_conv map_add_assoc map_add_upd map_add_empty)
qed simp

lemma distinct_capture: "distinct (map fst tm) \<Longrightarrow> distinct (map fst (capture ps tm))"
  by (induction ps arbitrary: tm) (auto simp: distinct_update split: prod.split)

lemma keys_capture: "fst ` set (capture ps tm) = fst ` set tm \<union> fst ` set ps"
proof -
  have "dom (map_of (capture ps tm)) = dom (map_of tm) \<union> dom (map_of (rev ps))"
    by (auto simp: map_of_capture)
  then show ?thesis by (simp add: dom_map_of_conv_image_fst)
qed

lemma check_map_loop_counts:
  "check_map_loop W c kvs checked w = Inr (n, w1) \<Longrightarrow> n = checked + int (length kvs)"
  by (induction kvs arbitrary: checked w) (fastforce simp: rbind_eq_Inr)+

lemma check_map_rounds_counts:
  "check_map_rounds W c tms w = Inr (ns, w1) \<Longrightarrow> ns = map (int \<circ> length) tms"
  by (induction tms arbitrary: w ns) (auto simp: rbind_eq_Inr dest!: check_map_loop_counts)

lemma check_count_loop_pairs:
  "check_count_loop W c r n s checked w = check_map_loop W c (round_pairs Counting r i n s) checked w"
proof (induction n arbitrary: i s checked w)
  case (Suc n)
  have "check_count_loop W c r n s checked = check_map_loop W c (round_pairs Counting r (Suc i) n s) checked"
    for s checked by (rule ext) (rule Suc.IH)
  then show ?case by simp
qed simp

lemma insert_loop_captures:
  assumes "insert_loop W c src r i n s tm w = Inr (tm', w')" and "is_Randomize src"
  shows "tm' = capture (round_pairs src r i n s) tm"
  using assms
  by (induction n arbitrary: i s tm w) (auto simp: Let_def split: prod.splits if_splits)

subsection \<open>The counter's keys are distinct\<close>

lemma nat_digits_inj: "nat_digits m = nat_digits n \<Longrightarrow> m = n"
  by (metis dec_value_nat_digits)

lemma nat_digits_digits: "c \<in> set (nat_digits n) \<Longrightarrow> is_ascii_digit c"
  using dec_value_nat_digits [of n] by (auto simp: list_all_iff)

lemma not_digit: "\<not> is_ascii_digit CHR ''-''" "\<not> is_ascii_digit CHR ''_''"
    "\<not> is_ascii_digit (CHR 0x0A)" "is_ascii_digit CHR ''0''"
  by (simp_all add: is_ascii_digit_def)

lemma dec_value_zeros: "dec_value (replicate n CHR ''0'' @ s) = dec_value s"
proof -
  have "foldl (\<lambda>a c. 10 * a + (of_char c - 48)) (0 :: nat) (replicate n CHR ''0'') = 0"
    by (induction n) simp_all
  then show ?thesis by (simp add: dec_value_def)
qed

lemma sint_cases: "sint x = sint (y :: int64) \<Longrightarrow> x = y"
  by (simp add: signed_word_eqI)

text \<open>A printed number is a sign and a text of digits that determines the absolute value.\<close>

lemma signed_text_inj:
  assumes "\<And>b n. dec_value (f b n) = n" and "\<And>b n. list_all is_ascii_digit (f b n)"
    and "(if x <s 0 then ''-'' @ f True (nat \<bar>sint x\<bar>) else f False (nat \<bar>sint x\<bar>)) =
      (if y <s 0 then ''-'' @ f True (nat \<bar>sint y\<bar>) else f False (nat \<bar>sint y\<bar>))"
  shows "x = (y :: int64)"
proof -
  have no_sign: "f b n \<noteq> CHR ''-'' # s" for b n s
    using assms(2) [of b n] not_digit(1) by auto
  have same: "x <s 0 \<longleftrightarrow> y <s 0"
    using assms(3) no_sign no_sign [symmetric] by (auto split: if_splits)
  then have "f (x <s 0) (nat \<bar>sint x\<bar>) = f (x <s 0) (nat \<bar>sint y\<bar>)"
    using assms(3) by (auto split: if_splits)
  then have "nat \<bar>sint x\<bar> = nat \<bar>sint y\<bar>" by (metis assms(1))
  then have "\<bar>sint x\<bar> = \<bar>sint y\<bar>" by simp
  moreover have "sint x < 0 \<longleftrightarrow> sint y < 0" using same by (simp add: word_sless_alt)
  ultimately show ?thesis by (intro sint_cases) arith
qed

lemma fmt_d_inj: "fmt_d x = fmt_d y \<Longrightarrow> x = y"
proof (rule signed_text_inj [of "\<lambda>_ n. nat_digits n"])
  have eq: "fmt_d z = (if z <s 0 then ''-'' @ nat_digits (nat \<bar>sint z\<bar>) else nat_digits (nat \<bar>sint z\<bar>))"
    for z by (auto simp: fmt_d_def word_sless_alt)
  show "fmt_d x = fmt_d y \<Longrightarrow>
    (if x <s 0 then ''-'' @ nat_digits (nat \<bar>sint x\<bar>) else nat_digits (nat \<bar>sint x\<bar>)) =
    (if y <s 0 then ''-'' @ nat_digits (nat \<bar>sint y\<bar>) else nat_digits (nat \<bar>sint y\<bar>))"
    by (simp only: eq)
qed (simp_all add: dec_value_nat_digits)

lemma fmt_010d_inj: "fmt_010d x = fmt_010d y \<Longrightarrow> x = y"
proof (rule signed_text_inj
    [of "\<lambda>b n. replicate ((if b then 9 else 10) - length (nat_digits n)) CHR ''0'' @ nat_digits n"])
qed (auto simp: fmt_010d_def Let_def dec_value_zeros dec_value_nat_digits list_all_iff not_digit
      dest: nat_digits_digits split: if_splits)

lemma fmt_d_chars: "c \<in> set (fmt_d x) \<Longrightarrow> is_ascii_digit c \<or> c = CHR ''-''"
  by (auto simp: fmt_d_def dest: nat_digits_digits split: if_splits)

lemma fmt_010d_chars: "c \<in> set (fmt_010d x) \<Longrightarrow> is_ascii_digit c \<or> c = CHR ''-''"
  by (auto simp: fmt_010d_def Let_def not_digit dest: nat_digits_digits split: if_splits)

lemma count_key_inj:
  assumes "count_key s r = count_key s' r'"
  shows "s = s' \<and> r = r'"
proof -
  have "takeWhile (\<lambda>c. c \<noteq> CHR ''_'') (count_key s r) = fmt_d s" for s r
    using fmt_d_chars [of _ s] not_digit(2) unfolding count_key_def
    by (subst takeWhile_append2) auto
  then have "fmt_d s = fmt_d s'" using assms by metis
  then have "s = s'" by (rule fmt_d_inj)
  moreover from this have "fmt_010d r = fmt_010d r'" using assms by (simp add: count_key_def)
  ultimately show ?thesis using fmt_010d_inj by blast
qed

lemma map_of_functional:
  assumes "(k, v) \<in> set ps" and "\<And>v'. (k, v') \<in> set ps \<Longrightarrow> v' = v"
  shows "map_of ps k = Some v"
  using assms by (metis map_of_SomeD map_of_eq_None_iff fst_conv image_eqI option.exhaust)

text \<open>So the pairs of all rounds are a function.\<close>

lemma counting_pairs_lookup:
  assumes "(k, v) \<in> set (concat (map (\<lambda>r. round_pairs Counting r 0 n s) rs))" (is "_ \<in> set ?ps")
  shows "map_of (rev ?ps) k = Some v"
proof (rule map_of_functional)
  have form: "\<exists>s r. k = count_key s r \<and> v = count_val s r" if "(k, v) \<in> set ?ps" for k v
    using that by (auto dest!: in_round_pairs) blast
  fix v'
  assume "(k, v') \<in> set (rev ?ps)"
  then show "v' = v" using form [of k v'] form [OF assms] count_key_inj by fastforce
qed (use assms in simp)

subsection \<open>A wire to a store\<close>

text \<open>What a round relies on: the server stores what it is sent and answers with what it stores.
  \<open>good k v\<close> are the pairs that the wire carries unchanged, \<open>load\<close> bounds the number of keys.\<close>

locale store_wire =
  fixes W :: "'w wire" and c :: Client and ready :: "'w \<Rightarrow> bool" and load :: "'w \<Rightarrow> nat"
    and view :: "'w \<Rightarrow> string \<rightharpoonup> string" and good :: "string \<Rightarrow> string \<Rightarrow> bool"
  assumes set_law: "ready w \<Longrightarrow> good k v \<Longrightarrow> load w < 2 ^ 61 \<Longrightarrow>
      \<exists>w'. wire_set W c k v w = (None, w') \<and> ready w' \<and> load w' \<le> Suc (load w) \<and>
        view w' = (view w)(k \<mapsto> v)"
    and get_law: "ready w \<Longrightarrow> good k v \<Longrightarrow> view w k = Some v \<Longrightarrow>
      \<exists>w'. wire_get W c k w = Inr (None, v, True, w') \<and> ready w' \<and> load w' = load w \<and>
        view w' = view w"
begin

lemma insert_loop_ok:
  assumes "ready w" and "load w + n \<le> 2 ^ 61" and "\<forall>(k, v) \<in> set (round_pairs src r i n s). good k v"
  shows "\<exists>tm' w'. insert_loop W c src r i n s tm w = Inr (tm', w') \<and> ready w' \<and>
    load w' \<le> load w + n \<and> view w' = view w ++ map_of (rev (round_pairs src r i n s))"
  using assms
proof (induction n arbitrary: i s tm w)
  case (Suc n)
  obtain k v where kv: "item_pair src i s r = (k, v)" by fastforce
  have "good k v" "load w < 2 ^ 61" using Suc.prems(2,3) kv by auto
  from set_law [OF Suc.prems(1) this] obtain w1 where w1: "wire_set W c k v w = (None, w1)"
    "ready w1" "load w1 \<le> Suc (load w)" "view w1 = (view w)(k \<mapsto> v)" by blast
  let ?tm = "if is_Randomize src then AList.update k v tm else tm"
  let ?ps = "round_pairs src r (Suc i) n (s + 1)"
  have "load w1 + n \<le> 2 ^ 61" "\<forall>(k, v) \<in> set ?ps. good k v"
    using Suc.prems(2,3) w1(3) kv by auto
  from Suc.IH [OF w1(2) this, of ?tm] obtain tm' w' where w':
    "insert_loop W c src r (Suc i) n (s + 1) ?tm w1 = Inr (tm', w')" "ready w'"
    "load w' \<le> load w1 + n" "view w' = view w1 ++ map_of (rev ?ps)" by blast
  have "view w' = view w ++ map_of (rev (round_pairs src r i (Suc n) s))"
    unfolding w'(4) w1(4) round_pairs.simps kv
    by (simp only: rev.simps map_of_append map_of.simps fst_conv snd_conv map_add_assoc map_add_upd
        map_add_empty)
  moreover have "insert_loop W c src r i (Suc n) s tm w = Inr (tm', w')"
    using w1(1) w'(1) kv by simp
  moreover have "load w' \<le> load w + Suc n" using w'(3) w1(3) by simp
  ultimately show ?case using w'(2) by blast
qed simp

lemma insert_rounds_ok:
  assumes "ready w" and "load w + nat items * length rs \<le> 2 ^ 61"
    and "\<forall>r \<in> set rs. \<forall>(k, v) \<in> set (round_pairs (src r) r 0 (nat items) s). good k v"
  shows "\<exists>tms w'. insert_rounds W c src items s rs w = Inr (tms, w') \<and> ready w' \<and>
    view w' = view w ++ map_of (rev (concat (map (\<lambda>r. round_pairs (src r) r 0 (nat items) s) rs)))"
  using assms
proof (induction rs arbitrary: w)
  case (Cons r rs)
  let ?ps = "\<lambda>r. round_pairs (src r) r 0 (nat items) s"
  have "load w + nat items \<le> 2 ^ 61" "\<forall>(k, v) \<in> set (?ps r). good k v"
    using Cons.prems(2,3) by simp_all
  from insert_loop_ok [OF Cons.prems(1) this, of "[]"] obtain tm w1 where w1:
    "insert_round W c (src r) r items s w = Inr (tm, w1)" "ready w1"
    "load w1 \<le> load w + nat items" "view w1 = view w ++ map_of (rev (?ps r))"
    by (auto simp: insert_round_def)
  have "load w1 + nat items * length rs \<le> 2 ^ 61" using w1(3) Cons.prems(2) by simp
  from Cons.IH [OF w1(2) this] Cons.prems(3) obtain tms w' where w':
    "insert_rounds W c src items s rs w1 = Inr (tms, w')" "ready w'"
    "view w' = view w1 ++ map_of (rev (concat (map ?ps rs)))" by auto
  have "view w' = view w ++ map_of (rev (concat (map ?ps (r # rs))))"
    unfolding w'(3) w1(4) by (simp add: map_add_assoc)
  with w1(1) w'(1,2) show ?case by simp
qed simp

lemma check_map_loop_ok:
  assumes "ready w" and "\<forall>(k, v) \<in> set kvs. good k v \<and> view w k = Some v"
  shows "\<exists>w'. check_map_loop W c kvs checked w = Inr (checked + int (length kvs), w') \<and> ready w' \<and>
    view w' = view w"
  using assms
proof (induction kvs arbitrary: checked w)
  case (Cons p kvs)
  obtain k v where p: "p = (k, v)" by fastforce
  with Cons.prems have "good k v" "view w k = Some v" by auto
  from get_law [OF Cons.prems(1) this] obtain w1 where w1:
    "wire_get W c k w = Inr (None, v, True, w1)" "ready w1" "view w1 = view w" by blast
  with Cons.IH [of w1 "checked + 1"] Cons.prems(2) show ?case
    by (auto simp: p check_pair_def algebra_simps)
qed simp

lemma check_count_rounds_ok:
  assumes "ready w"
    and "\<forall>r \<in> set rs. \<forall>(k, v) \<in> set (round_pairs Counting r 0 (nat items) s). good k v \<and> view w k = Some v"
  shows "\<exists>w'. check_count_rounds W c items s rs w =
    Inr (replicate (length rs) (int (nat items)), w') \<and> ready w' \<and> view w' = view w"
  using assms
proof (induction rs arbitrary: w)
  case (Cons r rs)
  from check_map_loop_ok [OF Cons.prems(1), of "round_pairs Counting r 0 (nat items) s" 0] Cons.prems(2)
  obtain w1 where w1: "check_count_round W c r items s w = Inr (int (nat items), w1)" "ready w1"
    "view w1 = view w"
    by (auto simp: check_count_round_def check_count_loop_pairs [of _ _ _ _ _ _ _ 0])
  with Cons.IH [of w1] Cons.prems(2) show ?case by auto
qed simp

lemma counting_rounds_pass:
  assumes "ready w" and "load w + nat items * length rs \<le> 2 ^ 61"
    and "\<And>s r. good (count_key s r) (count_val s r)" and "set rs' \<subseteq> set rs"
  shows "\<exists>tms w1 w2. insert_rounds W c (\<lambda>_. Counting) items s rs w = Inr (tms, w1) \<and>
    check_count_rounds W c items s rs' w1 = Inr (replicate (length rs') (int (nat items)), w2)"
proof -
  let ?ps = "\<lambda>r. round_pairs Counting r 0 (nat items) s"
  have good: "\<forall>r. \<forall>(k, v) \<in> set (?ps r). good k v"
    using assms(3) by (auto dest!: in_round_pairs)
  obtain tms w1 where w1: "insert_rounds W c (\<lambda>_. Counting) items s rs w = Inr (tms, w1)" "ready w1"
    "view w1 = view w ++ map_of (rev (concat (map ?ps rs)))"
    using insert_rounds_ok [OF assms(1,2), of "\<lambda>_. Counting" s] good by blast
  have "view w1 k = Some v" if "(k, v) \<in> set (?ps r)" "r \<in> set rs" for k v r
  proof -
    have "(k, v) \<in> set (concat (map ?ps rs))" using that by auto
    from counting_pairs_lookup [OF this] show ?thesis by (simp add: w1(3) map_add_Some_iff)
  qed
  with good assms(4) have "\<forall>r \<in> set rs'. \<forall>(k, v) \<in> set (?ps r). good k v \<and> view w1 k = Some v"
    by blast
  from check_count_rounds_ok [OF w1(2) this] w1(1) show ?thesis by blast
qed

lemma random_round_passes:
  assumes "ready w" and "load w + nat items \<le> 2 ^ 61" and "is_Randomize src"
    and "\<And>i s. case item_pair src i s r of (k, v) \<Rightarrow> good k v"
  shows "\<exists>tm w1. insert_round W c src r items s w = Inr (tm, w1) \<and> distinct (map fst tm) \<and>
    (\<forall>kvs. set kvs = set tm \<longrightarrow>
      (\<exists>w2. check_map_loop W c kvs 0 w1 = Inr (int (length kvs), w2)))"
proof -
  let ?ps = "round_pairs src r 0 (nat items) s"
  have good: "\<forall>(k, v) \<in> set ?ps. good k v"
  proof (intro ballI)
    fix p
    assume "p \<in> set ?ps"
    then obtain i s' where "p = item_pair src i s' r" using in_round_pairs by blast
    then show "case p of (k, v) \<Rightarrow> good k v" using assms(4) by simp
  qed
  obtain tm w1 where w1: "insert_round W c src r items s w = Inr (tm, w1)" "ready w1"
    "view w1 = view w ++ map_of (rev ?ps)"
    using insert_loop_ok [OF assms(1,2) good, of "[]"] by (auto simp: insert_round_def)
  have tm: "tm = capture ?ps []"
    using insert_loop_captures [OF w1(1) [unfolded insert_round_def] assms(3)] .
  have dist: "distinct (map fst tm)" unfolding tm by (rule distinct_capture) simp
  have of_tm: "map_of tm = map_of (rev ?ps)" unfolding tm map_of_capture by simp
  have "good k v \<and> view w1 k = Some v" if "(k, v) \<in> set tm" for k v
  proof -
    have m: "map_of (rev ?ps) k = Some v" using dist that by (simp add: of_tm [symmetric])
    then have "(k, v) \<in> set ?ps" by (metis map_of_SomeD set_rev)
    with m good show ?thesis by (auto simp: w1(3) map_add_Some_iff)
  qed
  then have "\<exists>w2. check_map_loop W c kvs 0 w1 = Inr (int (length kvs), w2)"
    if "set kvs = set tm" for kvs
    using check_map_loop_ok [OF w1(2), of kvs 0] that by auto
  with w1(1) dist show ?thesis by blast
qed

end

subsection \<open>The socket wire\<close>

definition session_wire :: "'a sock_env_scheme \<Rightarrow> sock_state wire" where
  "session_wire E =
     \<lparr>sock_io = (\<lambda>req st. case serve_request E st req of Inl _ \<Rightarrow> (ReadFailed, st) | Inr p \<Rightarrow> p),
      get_io = (\<lambda>_ st. (RequestFailed, st)), post_io = (\<lambda>_ _ st. (RequestFailed, st))\<rparr>"

definition socket_client :: "Client \<Rightarrow> bool" where
  "socket_client c \<longleftrightarrow> cMode c = 2 \<and> tp_open c"

text \<open>The strings of a database of strings.\<close>

definition strings_of :: "(string \<rightharpoonup> go_value) \<Rightarrow> string \<rightharpoonup> string" where
  "strings_of m k = (case m k of Some (GoString v) \<Rightarrow> Some v | _ \<Rightarrow> None)"

lemma strings_of_upd: "strings_of (m(k \<mapsto> GoString v)) = (strings_of m)(k \<mapsto> v)"
  by (simp add: strings_of_def fun_eq_iff)

text \<open>A value that begins with NUL would be read as a missing key, an empty one as no reply.\<close>

definition plain_pair :: "string \<Rightarrow> string \<Rightarrow> bool" where
  "plain_pair k v \<longleftrightarrow> good_key k \<and> good_value v \<and> v \<noteq> [] \<and> byte_string (v ! 0) \<noteq> NUL"

interpretation sock: store_wire "session_wire E" c
  "\<lambda>st. session_ready E st \<and> socket_client c" "\<lambda>st. db_count (sdb st)"
  "\<lambda>st. strings_of (db_view (sdb st))" plain_pair
  for E :: "'a sock_env_scheme" and c
proof unfold_locales
  fix st k v
  assume st: "session_ready E st \<and> socket_client c" and kv: "plain_pair k v"
  then have c: "cMode c = 2" "tp_open c" by (simp_all add: socket_client_def)
  {
    assume "db_count (sdb st) < 2 ^ 61"
    then obtain st' where st': "serve_request E st (set_request k v) = Inr (Reply ACK, st')"
      "session_ready E st'" "db_view (sdb st') = (db_view (sdb st))(k \<mapsto> GoString v)"
      "db_count (sdb st') \<le> Suc (db_count (sdb st))"
      using serve_set [of E st k v] st kv by (auto simp: plain_pair_def)
    have "wire_set (session_wire E) c k v st = (None, st')"
      by (simp add: wire_set_def c SOCK_Set_def session_wire_def st'(1) control_defs)
    then show "\<exists>st'. wire_set (session_wire E) c k v st = (None, st') \<and>
        (session_ready E st' \<and> socket_client c) \<and>
        db_count (sdb st') \<le> Suc (db_count (sdb st)) \<and>
        strings_of (db_view (sdb st')) = (strings_of (db_view (sdb st)))(k \<mapsto> v)"
      using st st' by (auto simp: strings_of_upd)
  next
    assume "strings_of (db_view (sdb st)) k = Some v"
    then have r: "reply_text (db_view (sdb st)) k = v"
      by (auto simp: strings_of_def reply_text_def split: option.splits go_value.splits)
    obtain st' where st': "serve_request E st (get_request k) = Inr (Reply v, st')"
      "session_ready E st'" "sdb st' = sdb st"
      using serve_get [of E st k, unfolded r] st kv by (auto simp: plain_pair_def good_value_def)
    have "wire_get (session_wire E) c k st = Inr (None, v, True, st')"
      using kv by (simp add: wire_get_def c SOCK_Get_def session_wire_def st'(1) plain_pair_def)
    then show "\<exists>st'. wire_get (session_wire E) c k st = Inr (None, v, True, st') \<and>
        (session_ready E st' \<and> socket_client c) \<and>
        db_count (sdb st') = db_count (sdb st) \<and>
        strings_of (db_view (sdb st')) = strings_of (db_view (sdb st))"
      using st st' by auto
  }
qed

subsection \<open>The HTTP wire\<close>

text \<open>\<open>route_key u\<close> is the value that the router gives to the path variable for a GET of \<open>u\<close>, if
  the route is that of \<open>/get/\<close>; \<open>json\<close> is the decoder.\<close>

definition http_wire ::
    "'a db_env_scheme \<Rightarrow> (string \<Rightarrow> string option) \<Rightarrow> (string \<Rightarrow> (string \<times> go_value) list option) \<Rightarrow>
     XDatabase wire" where
  "http_wire E route_key json =
     \<lparr>sock_io = (\<lambda>_ db. (ReadFailed, db)),
      get_io = (\<lambda>u db. (get_reply_of E route_key db u, db)),
      post_io = (\<lambda>u b db. case web_set E json db b of
                   Inl _ \<Rightarrow> (RequestFailed, db) | Inr (db', w) \<Rightarrow> (HttpBody (body w), db'))\<rparr>"

definition http_client :: "Client \<Rightarrow> bool" where
  "http_client c \<longleftrightarrow> cMode c = 1 \<and> http_open c"

text \<open>The pairs that the router and the decoder carry.\<close>

definition web_pair ::
    "Client \<Rightarrow> (string \<Rightarrow> string option) \<Rightarrow> (string \<Rightarrow> (string \<times> go_value) list option) \<Rightarrow>
     string \<Rightarrow> string \<Rightarrow> bool" where
  "web_pair c route_key json k v \<longleftrightarrow>
     k \<noteq> [] \<and> v \<noteq> [] \<and> route_key (url c @ ''/get/'' @ k) = Some k \<and>
     json (json_pair k v) = Some [(k, GoString v)]"

interpretation web: store_wire "http_wire E route_key json" c
  "\<lambda>db. db_inv E db \<and> http_client c" db_count "\<lambda>db. strings_of (db_view db)"
  "web_pair c route_key json"
  for E :: "'a db_env_scheme" and route_key json c
proof unfold_locales
  fix db k v
  assume db: "db_inv E db \<and> http_client c" and kv: "web_pair c route_key json k v"
  then have c: "cMode c = 1" "http_open c" by (simp_all add: http_client_def)
  {
    assume room: "db_count db < 2 ^ 61"
    obtain db' where db': "set_pairs E db [(k, GoString v)] = Inr (db', True)" "db_inv E db'"
      "db_view db' = (db_view db)(k \<mapsto> GoString v)" "db_count db' \<le> Suc (db_count db)"
      using set_pairs_spec [of E db "[(k, GoString v)]"] db room by auto
    have "web_set E json db (json_pair k v) =
        Inr (db', WriteHeader StatusCreated (nilheader fresh_response))"
      using db'(1) kv by (simp add: web_set_def HandlerSet_def Let_def web_pair_def)
    then have "wire_set (http_wire E route_key json) c k v db = (None, db')"
      by (simp add: wire_set_def c HTTP_Set_def http_wire_def)
    then show "\<exists>db'. wire_set (http_wire E route_key json) c k v db = (None, db') \<and>
        (db_inv E db' \<and> http_client c) \<and> db_count db' \<le> Suc (db_count db) \<and>
        strings_of (db_view db') = (strings_of (db_view db))(k \<mapsto> v)"
      using db db' by (auto simp: strings_of_upd)
  next
    assume "strings_of (db_view db) k = Some v"
    then have "db_view db k = Some (GoString v)"
      by (auto simp: strings_of_def split: option.splits go_value.splits)
    then have "web_get E db k = HttpBody v" using web_get_spec [of E db k] db kv by (simp add: web_pair_def)
    then have "wire_get (http_wire E route_key json) c k db = Inr (None, v, True, db)"
      using kv by (simp add: wire_get_def c HTTP_Get_def http_wire_def get_reply_of_def web_pair_def)
    then show "\<exists>db'. wire_get (http_wire E route_key json) c k db = Inr (None, v, True, db') \<and>
        (db_inv E db' \<and> http_client c) \<and> db_count db' = db_count db \<and>
        strings_of (db_view db') = strings_of (db_view db)"
      using db by auto
  }
qed

subsection \<open>The test's own pairs\<close>

lemma length_nat_digits: "n < 10 ^ k \<Longrightarrow> 0 < k \<Longrightarrow> length (nat_digits n) \<le> k"
proof (induction n arbitrary: k rule: nat_digits.induct)
  case (1 n)
  show ?case
  proof (cases "n < 10")
    case False
    obtain j where j: "k = Suc j" using 1(3) by (cases k) auto
    with False 1(2) have k: "k = Suc j" "0 < j" by (auto intro: gr0I)
    have "n div 10 < 10 ^ j" using 1(2) k by (simp add: less_mult_imp_div_less mult.commute)
    from 1(1) [OF False this k(2)] show ?thesis using False by (simp add: nat_digits.simps [of n] k)
  qed (use 1(3) in \<open>simp add: nat_digits.simps\<close>)
qed

lemma length_abs_digits: "length (nat_digits (nat \<bar>sint (x :: int64)\<bar>)) \<le> 19"
proof (rule length_nat_digits)
  have "\<bar>sint x\<bar> \<le> 2 ^ 63" using sint_lt [of x] sint_ge [of x] by simp
  then show "nat \<bar>sint x\<bar> < 10 ^ 19" by simp
qed simp

lemma length_fmt: "length (fmt_d x) \<le> 20" "length (fmt_010d x) \<le> 20"
proof -
  have "length (fmt_d x) \<le> Suc (length (nat_digits (nat \<bar>sint x\<bar>)))"
    by (auto simp: fmt_d_def word_sless_alt)
  then show "length (fmt_d x) \<le> 20" using length_abs_digits [of x] by linarith
  show "length (fmt_010d x) \<le> 20"
    using length_abs_digits [of x] by (auto simp: fmt_010d_def Let_def)
qed

lemma fmt_d_head: "\<exists>c s. fmt_d x = c # s \<and> (is_ascii_digit c \<or> c = CHR ''-'')"
proof -
  have "nat_digits n \<noteq> []" for n by (simp add: nat_digits.simps [of n])
  then have "fmt_d x \<noteq> []" by (simp add: fmt_d_def)
  then show ?thesis using fmt_d_chars [of _ x] by (cases "fmt_d x") auto
qed

lemma byte_string_NUL: "byte_string c = NUL \<longleftrightarrow> c = CHR 0x00"
  by (auto simp: byte_string_def control_defs Let_def split: if_splits)

lemma plain_count_pair: "plain_pair (count_key s r) (count_val s r)"
proof -
  have lf: "CHR 0x0A \<notin> set (fmt_d x)" "CHR 0x0A \<notin> set (fmt_010d x)" for x
    using fmt_d_chars [of _ x] fmt_010d_chars [of _ x] not_digit(3) by auto
  have "length (count_key s r) \<le> 80" "length (count_val s r) \<le> 80"
    using length_fmt(1) [of s] length_fmt(2) [of s] length_fmt(2) [of r]
    by (simp_all add: count_key_def count_val_def)
  moreover have "line_text (count_key s r)" "line_text (count_val s r)"
    using lf by (simp_all add: line_text_def count_key_def count_val_def)
  moreover obtain c t where "count_val s r = c # t" "is_ascii_digit c \<or> c = CHR ''-''"
    using fmt_d_head [of s] by (auto simp: count_val_def)
  moreover have "\<not> is_ascii_digit (CHR 0x00)" by (simp add: is_ascii_digit_def)
  ultimately show ?thesis
    by (auto simp: plain_pair_def good_key_def good_value_def KEY_LIMIT_def VAL_LIMIT_def
        byte_string_NUL)
qed

lemma hex_digit_chars: "n < 16 \<Longrightarrow> hex_digit n \<in> set ''0123456789abcdef''"
  unfolding hex_digit_def by (rule nth_mem) simp

lemma hex_chars: "set (hex_EncodeToString b) \<subseteq> set ''0123456789abcdef''"
proof -
  have "hex_digit (of_char c div 16) \<in> set ''0123456789abcdef''"
    "hex_digit (of_char c mod 16) \<in> set ''0123456789abcdef''" for c :: char
  proof -
    have "of_char c < (16 * 16 :: nat)" by simp
    then have "of_char c div 16 < (16 :: nat)" by (rule less_mult_imp_div_less)
    then show "hex_digit (of_char c div 16) \<in> set ''0123456789abcdef''" by (rule hex_digit_chars)
    show "hex_digit (of_char c mod 16) \<in> set ''0123456789abcdef''" by (rule hex_digit_chars) simp
  qed
  then show ?thesis unfolding hex_EncodeToString_def by auto
qed

lemma length_hex: "length (hex_EncodeToString b) = 2 * length b"
  by (induction b) (simp_all add: hex_EncodeToString_def)

text \<open>The length asked for is rounded down to an even number, and is 2 at least.\<close>

lemma DevUrandomString_shape:
  "length (DevUrandomString rnd len) = 2 * nat (max 1 (len div 2)) \<and>
   set (DevUrandomString rnd len) \<subseteq> set ''0123456789abcdef''"
  using hex_chars by (auto simp: DevUrandomString_def Let_def length_hex max_def)

lemma plain_random_pair:
  assumes "kl \<le> int KEY_LIMIT" and "vl \<le> int VAL_LIMIT"
  shows "plain_pair (DevUrandomString kb kl) (DevUrandomString vb vl)"
proof -
  note k = DevUrandomString_shape [of kb kl] and v = DevUrandomString_shape [of vb vl]
  have hex: "CHR 0x0A \<notin> set ''0123456789abcdef''" "CHR 0x00 \<notin> set ''0123456789abcdef''"
    by simp_all
  have len: "2 * nat (max 1 (kl div 2)) \<le> KEY_LIMIT" "2 * nat (max 1 (vl div 2)) \<le> VAL_LIMIT"
    using assms by (auto simp: KEY_LIMIT_def VAL_LIMIT_def max_def)
  have chars: "CHR 0x0A \<notin> set (DevUrandomString kb kl)" "CHR 0x0A \<notin> set (DevUrandomString vb vl)"
    "CHR 0x00 \<notin> set (DevUrandomString vb vl)"
    using k v hex by blast+
  have ne: "0 < length (DevUrandomString vb vl)" using v by simp
  then have "DevUrandomString vb vl ! 0 \<noteq> CHR 0x00" "DevUrandomString vb vl \<noteq> []"
    using chars(3) nth_mem by (metis, simp)
  with len chars(1,2) k [THEN conjunct1] v [THEN conjunct1] show ?thesis
    by (simp add: plain_pair_def good_key_def good_value_def line_text_def byte_string_NUL)
qed

subsection \<open>Short random keys\<close>

lemma short_keys_few:
  assumes "insert_round W c (Randomize kl vl kb vb) r items s w = Inr (tm, w1)" and "kl \<le> 3"
  shows "length tm \<le> 256"
proof -
  let ?ps = "round_pairs (Randomize kl vl kb vb) r 0 (nat items) s"
  let ?hex = "\<lambda>c. hex_EncodeToString [c]"
  have tm: "tm = capture ?ps []"
    using insert_loop_captures [OF assms(1) [unfolded insert_round_def]] by simp
  have "(if kl div 2 \<le> 0 then 1 else kl div 2) = 1" using assms(2) by auto
  then have "fst p = ?hex (kb j 0)" if "p = item_pair (Randomize kl vl kb vb) j s' r" for p j s'
    using that by (simp add: DevUrandomString_def Let_def)
  then have "fst ` set ?ps \<subseteq> range ?hex" using in_round_pairs by fastforce
  then have "fst ` set tm \<subseteq> ?hex ` char_of ` {0::nat..<256}"
    using keys_capture [of ?ps "[]"] by (simp add: tm UNIV_char_of_nat)
  then have "card (fst ` set tm) \<le> card (?hex ` char_of ` {0::nat..<256})"
    by (intro card_mono) simp_all
  also have "\<dots> \<le> 256"
    using card_image_le [of "{0::nat..<256}" "char_of :: nat \<Rightarrow> char"]
      card_image_le [of "char_of ` {0::nat..<256}" ?hex] by simp
  finally have "card (set (map fst tm)) \<le> 256" by simp
  moreover have "distinct (map fst tm)" unfolding tm by (rule distinct_capture) simp
  ultimately show ?thesis by (metis distinct_card length_map)
qed

lemma insert_rounds_short:
  assumes "insert_rounds W c (\<lambda>r. Randomize kl vl (kb r) (vb r)) items s rs w = Inr (tms, w1)"
    and "kl \<le> 3"
  shows "length tms = length rs \<and> (\<forall>tm \<in> set tms. length tm \<le> 256)"
  using assms(1)
  by (induction rs arbitrary: w tms) (auto simp: rbind_eq_Inr dest: short_keys_few [OF _ assms(2)])

lemma short_sum:
  fixes m :: nat
  assumes "\<forall>x \<in> set xs. length x \<le> m"
  shows "sum_list (map (int \<circ> length) xs) \<le> int m * int (length xs)"
  using assms by (induction xs) (auto simp: algebra_simps)

lemma short_keys_no_sum:
  assumes "test_main W c fl kb vb rs rs' w = Inr (r, w')" and "test_randomize fl"
    and "flag_keylen fl \<le> 3" and "256 < test_items fl" and "rs \<noteq> []"
    and "length rs = nat (test_rounds fl)"
  shows "r = None"
proof -
  have "round_source fl kb vb = (\<lambda>r. Randomize (flag_keylen fl) (flag_vallen fl) (kb r) (vb r))"
    using assms(2) by (simp add: round_source_def fun_eq_iff)
  then obtain tms w1 ns w2 where run:
    "insert_rounds W c (\<lambda>r. Randomize (flag_keylen fl) (flag_vallen fl) (kb r) (vb r)) (test_items fl)
       (test_startint fl) rs w = Inr (tms, w1)"
    "check_map_rounds W c tms w1 = Inr (ns, w2)" "r = final_sum (test_items fl * test_rounds fl) 0 ns"
    using assms(1,2) by (auto simp: test_main_def rbind_eq_Inr)
  have few: "length tms = length rs" "\<forall>tm \<in> set tms. length tm \<le> 256"
    using insert_rounds_short [OF run(1) assms(3)] by simp_all
  have ns: "ns = map (int \<circ> length) tms" by (rule check_map_rounds_counts [OF run(2)])
  have n: "int (length rs) = test_rounds fl" "0 < test_rounds fl" using assms(5,6) by (cases rs; simp)+
  have "sum_list ns \<le> 256 * int (length rs)" using short_sum [OF few(2)] few(1) by (simp add: ns)
  also have "\<dots> < test_items fl * test_rounds fl" using assms(4) n by simp
  finally show ?thesis unfolding run(3) by (intro final_sum_short) (simp_all add: ns)
qed

end
