(* ===== verification/TestWorkers.thy ===== *)
theory TestWorkers
  imports GoPrelude
begin

text \<open>
  The goroutines of the test program client/main.go. A phase of the test, inserting or checking,
  starts one worker per round. A worker takes a token of \<open>parChan\<close>, gets a connection from
  \<open>cliChan\<close> or makes a new one, does its round, puts the connection back, sends its results and
  its end into channels of one place per round, and gives the token back. The main goroutine
  counts the ends. All channels are buffered. A worker whose round meets an error or a wrong value
  ends the whole program with \<open>log.Fatalf\<close>; \<open>bad i\<close> says whether that of worker \<open>i\<close> does.
\<close>

subsection \<open>State\<close>

text \<open>What a worker sends when its round is done: to \<open>SetDoneChan\<close> or \<open>GetDoneChan\<close>, and to
  \<open>MapRetChan\<close> or \<open>RetIntChan\<close>, which main reads after the phase.\<close>

datatype report = ReportEnd | ReportData

datatype worker =
    Start
  | Locked
  | Working
  | HasClient
  | Sending "report list"
  | Ended
  | GaveUp

record phase =
  parChan :: nat
  cliChan :: nat
  sent_reports :: "report \<Rightarrow> nat"
  workers :: "worker list"
  setdone :: nat
  passed :: bool
  exited :: bool

text \<open>The sends in the code's order: the insertion with and without random keys, the check with
  and without.\<close>

definition insert_reports :: "bool \<Rightarrow> report list" where
  "insert_reports randomize = (if randomize then [ReportData, ReportEnd] else [ReportEnd])"

definition check_reports :: "bool \<Rightarrow> report list" where
  "check_reports randomize = (if randomize then [ReportData, ReportEnd] else [ReportEnd, ReportData])"

text \<open>A phase begins with \<open>conns\<close> connections in \<open>cliChan\<close>; workers of the phase before may still
  have to give back their tokens.\<close>

definition phase_start :: "nat \<Rightarrow> nat \<Rightarrow> nat \<Rightarrow> phase" where
  "phase_start rounds leftover conns =
     \<lparr>parChan = leftover, cliChan = conns, sent_reports = (\<lambda>_. 0),
      workers = replicate rounds Start @ replicate leftover (Sending []), setdone = 0,
      passed = False, exited = False\<rparr>"

subsection \<open>Steps\<close>

text \<open>A send blocks while the channel is full. Main receives from the channel of ends until it has
  counted \<open>rounds\<close> of them; the test is made after a receive only.\<close>

inductive live_step :: "(nat \<Rightarrow> bool) \<Rightarrow> nat \<Rightarrow> nat \<Rightarrow> report list \<Rightarrow> phase \<Rightarrow> phase \<Rightarrow> bool"
  for bad limit rounds reports where
  lock: "i < length (workers s) \<Longrightarrow> workers s ! i = Start \<Longrightarrow> parChan s < limit \<Longrightarrow>
    live_step bad limit rounds reports s
      (s\<lparr>parChan := parChan s + 1, workers := (workers s)[i := Locked]\<rparr>)"
| reuse: "i < length (workers s) \<Longrightarrow> workers s ! i = Locked \<Longrightarrow> 0 < cliChan s \<Longrightarrow>
    live_step bad limit rounds reports s
      (s\<lparr>cliChan := cliChan s - 1, workers := (workers s)[i := Working]\<rparr>)"
| connect: "i < length (workers s) \<Longrightarrow> workers s ! i = Locked \<Longrightarrow> cliChan s = 0 \<Longrightarrow>
    live_step bad limit rounds reports s (s\<lparr>workers := (workers s)[i := Working]\<rparr>)"
| connect_fails: "i < length (workers s) \<Longrightarrow> workers s ! i = Locked \<Longrightarrow> cliChan s = 0 \<Longrightarrow>
    live_step bad limit rounds reports s (s\<lparr>workers := (workers s)[i := GaveUp]\<rparr>)"
| work: "i < length (workers s) \<Longrightarrow> workers s ! i = Working \<Longrightarrow> \<not> bad i \<Longrightarrow>
    live_step bad limit rounds reports s (s\<lparr>workers := (workers s)[i := HasClient]\<rparr>)"
| return_client: "i < length (workers s) \<Longrightarrow> workers s ! i = HasClient \<Longrightarrow> cliChan s < limit \<Longrightarrow>
    live_step bad limit rounds reports s
      (s\<lparr>cliChan := cliChan s + 1, workers := (workers s)[i := Sending reports]\<rparr>)"
| send: "i < length (workers s) \<Longrightarrow> workers s ! i = Sending (ch # chs) \<Longrightarrow>
    sent_reports s ch < rounds \<Longrightarrow>
    live_step bad limit rounds reports s
      (s\<lparr>sent_reports := (sent_reports s)(ch := sent_reports s ch + 1),
         workers := (workers s)[i := Sending chs]\<rparr>)"
| unlock: "i < length (workers s) \<Longrightarrow> workers s ! i = Sending [] \<Longrightarrow> 0 < parChan s \<Longrightarrow>
    live_step bad limit rounds reports s
      (s\<lparr>parChan := parChan s - 1, workers := (workers s)[i := Ended]\<rparr>)"
| count: "\<not> passed s \<Longrightarrow> 0 < sent_reports s ReportEnd \<Longrightarrow>
    live_step bad limit rounds reports s
      (s\<lparr>sent_reports := (sent_reports s)(ReportEnd := sent_reports s ReportEnd - 1),
         setdone := setdone s + 1, passed := (setdone s + 1 = rounds)\<rparr>)"

text \<open>The program as a whole: while it runs, workers and main go on, a bad round ends the program by
  \<open>log.Fatalf\<close>, and so does a panic of \<open>NewCli\<close>, as for a daemon client.\<close>

inductive pstep :: "(nat \<Rightarrow> bool) \<Rightarrow> nat \<Rightarrow> nat \<Rightarrow> report list \<Rightarrow> phase \<Rightarrow> phase \<Rightarrow> bool"
  for bad limit rounds reports where
  live: "\<not> exited s \<Longrightarrow> live_step bad limit rounds reports s s' \<Longrightarrow> pstep bad limit rounds reports s s'"
| fatal: "\<not> exited s \<Longrightarrow> i < length (workers s) \<Longrightarrow> workers s ! i = Working \<Longrightarrow> bad i \<Longrightarrow>
    pstep bad limit rounds reports s (s\<lparr>exited := True\<rparr>)"
| NewCli_panics: "\<not> exited s \<Longrightarrow> i < length (workers s) \<Longrightarrow> workers s ! i = Locked \<Longrightarrow> cliChan s = 0 \<Longrightarrow>
    bad i \<Longrightarrow> pstep bad limit rounds reports s (s\<lparr>exited := True\<rparr>)"

inductive_cases live_stepE: "live_step bad limit rounds reports s s'"

inductive_cases pstepE: "pstep bad limit rounds reports s s'"

subsection \<open>Counting workers\<close>

definition number :: "(worker \<Rightarrow> bool) \<Rightarrow> worker list \<Rightarrow> nat" where
  "number P ws = (\<Sum>w\<leftarrow>ws. of_bool (P w))"

lemma number_update:
  assumes "i < length ws"
  shows "number P (ws[i := w]) + of_bool (P (ws ! i)) = number P ws + of_bool (P w)"
  unfolding number_def by (rule sum_list_update_nat [OF assms])

lemma number_pos: "i < length ws \<Longrightarrow> P (ws ! i) \<Longrightarrow> 0 < number P ws"
  unfolding number_def by (induction ws arbitrary: i) (auto simp: less_Suc_eq_0_disj)

lemma number_ex:
  assumes "0 < number P ws"
  obtains i where "i < length ws" and "P (ws ! i)"
proof -
  have "\<exists>w \<in> set ws. P w"
    using assms unfolding number_def by (induction ws) (auto split: if_splits)
  then show thesis using that by (metis in_set_conv_nth)
qed

lemma number_mono: "(\<And>w. P w \<Longrightarrow> Q w) \<Longrightarrow> number P ws \<le> number Q ws"
  unfolding number_def by (induction ws) auto

lemma number_all: "number (\<lambda>_. True) ws = length ws"
  unfolding number_def by (induction ws) simp_all

lemma number_every: "(\<And>w. w \<in> set ws \<Longrightarrow> P w) \<Longrightarrow> number P ws = length ws"
  unfolding number_def by (induction ws) simp_all

lemma number_disjoint:
  "(\<And>w. \<not> (P w \<and> Q w)) \<Longrightarrow> number (\<lambda>w. P w \<or> Q w) ws = number P ws + number Q ws"
  unfolding number_def by (induction ws) auto

text \<open>Holding a token of \<open>parChan\<close> (for ever, when it gave up); using a connection; having sent
  a report.\<close>

fun has_token :: "worker \<Rightarrow> bool" where
  "has_token Start = False"
| "has_token Ended = False"
| "has_token w = True"

fun has_client :: "worker \<Rightarrow> bool" where
  "has_client Working = True"
| "has_client HasClient = True"
| "has_client w = False"

fun has_sent :: "report \<Rightarrow> worker \<Rightarrow> bool" where
  "has_sent ch (Sending chs) = (ch \<notin> set chs)"
| "has_sent ch Ended = True"
| "has_sent ch w = False"

text \<open>Besides the counts, a worker that sends still has a suffix of the reports to send.\<close>

definition phase_inv :: "nat \<Rightarrow> nat \<Rightarrow> nat \<Rightarrow> report list \<Rightarrow> phase \<Rightarrow> bool" where
  "phase_inv limit rounds leftover reports s \<longleftrightarrow>
     distinct reports \<and> ReportEnd \<in> set reports \<and> length (workers s) = rounds + leftover \<and>
     parChan s = number has_token (workers s) \<and> parChan s \<le> limit \<and>
     cliChan s + number has_client (workers s) \<le> limit \<and>
     sent_reports s ReportEnd + setdone s + leftover = number (has_sent ReportEnd) (workers s) \<and>
     (ReportData \<in> set reports \<longrightarrow> sent_reports s ReportData + leftover = number (has_sent ReportData) (workers s)) \<and>
     (\<forall>i < length (workers s). \<forall>chs. workers s ! i = Sending chs \<longrightarrow>
        distinct chs \<and> set chs \<subseteq> set reports) \<and>
     passed s = (0 < setdone s \<and> setdone s = rounds)"

lemma phase_inv_start:
  assumes "distinct reports" and "ReportEnd \<in> set reports" and "leftover \<le> limit" and "conns \<le> limit"
  shows "phase_inv limit rounds leftover reports (phase_start rounds leftover conns)"
proof -
  have n: "number P (workers (phase_start rounds leftover conns)) = 
      (if P Start then rounds else 0) + (if P (Sending []) then leftover else 0)" for P
    by (simp add: phase_start_def number_def sum_list_replicate)
  show ?thesis using assms
    by (auto simp: phase_inv_def n) (auto simp: phase_start_def nth_append split: if_splits)
qed

text \<open>A new connection is made by a worker that holds a token and uses none.\<close>

lemma connect_room:
  assumes "phase_inv limit rounds leftover reports s" and "i < length (workers s)"
    and "workers s ! i = Locked"
  shows "Suc (number has_client (workers s)) \<le> limit"
proof -
  have "number has_client (workers s) + number (\<lambda>w. w = Locked) (workers s) =
      number (\<lambda>w. has_client w \<or> w = Locked) (workers s)"
    by (rule number_disjoint [symmetric]) auto
  also have "\<dots> \<le> number has_token (workers s)"
  proof (rule number_mono)
    show "has_token w" if "has_client w \<or> w = Locked" for w using that by (cases w) auto
  qed
  also have "\<dots> \<le> limit" using assms(1) by (simp add: phase_inv_def)
  finally show ?thesis using number_pos [of i "workers s" "\<lambda>w. w = Locked"] assms(2,3) by simp
qed

text \<open>Replacing one worker changes the counts by what it counts for.\<close>

lemma phase_inv_update:
  assumes inv: "phase_inv limit rounds leftover reports s" and i: "i < length (workers s)"
    and ws: "workers s' = (workers s)[i := w]"
    and "passed s' = passed s" "setdone s' = setdone s"
    and tok: "parChan s' + of_bool (has_token (workers s ! i)) = parChan s + of_bool (has_token w)"
    and "parChan s' \<le> limit"
    and cli: "cliChan s' + number has_client (workers s') \<le> limit"
    and sent: "\<And>ch. ch \<in> set reports \<Longrightarrow>
      sent_reports s' ch + of_bool (has_sent ch (workers s ! i)) =
      sent_reports s ch + of_bool (has_sent ch w)"
    and w: "\<And>chs. w = Sending chs \<Longrightarrow> distinct chs \<and> set chs \<subseteq> set reports"
  shows "phase_inv limit rounds leftover reports s'"
proof -
  note up = number_update [OF i, of _ w, folded ws]
  have "parChan s' = number has_token (workers s')"
    using inv tok up [of has_token] unfolding phase_inv_def by linarith
  moreover have "sent_reports s' ReportEnd + setdone s' + leftover = number (has_sent ReportEnd) (workers s')"
    using inv sent [of ReportEnd] up [of "has_sent ReportEnd"] assms(5) unfolding phase_inv_def by linarith
  moreover have "sent_reports s' ReportData + leftover = number (has_sent ReportData) (workers s')"
    if "ReportData \<in> set reports"
    using inv sent [OF that] up [of "has_sent ReportData"] that unfolding phase_inv_def by linarith
  moreover have "distinct chs \<and> set chs \<subseteq> set reports"
    if "j < length (workers s')" "workers s' ! j = Sending chs" for j chs
  proof (cases "j = i")
    case True
    then have "w = Sending chs" using that i by (simp add: ws)
    then show ?thesis by (rule assms(10))
  next
    case False
    then have "j < length (workers s)" "workers s ! j = Sending chs" using that by (simp_all add: ws)
    then show ?thesis using inv unfolding phase_inv_def by blast
  qed
  moreover have "length (workers s') = length (workers s)" by (simp add: ws)
  ultimately show ?thesis using inv assms(4,5,7) cli by (simp add: phase_inv_def)
qed

lemma live_step_inv:
  assumes "live_step bad limit rounds reports s s'" and inv: "phase_inv limit rounds leftover reports s"
  shows "phase_inv limit rounds leftover reports s'"
  using assms(1)
proof cases
  case (lock i)
  then show ?thesis using inv number_update [OF lock(2), of has_client Locked]
    by (intro phase_inv_update [OF inv lock(2), where w = Locked]) (simp_all add: phase_inv_def)
next
  case (reuse i)
  then show ?thesis using inv number_update [OF reuse(2), of has_client Working]
    by (intro phase_inv_update [OF inv reuse(2), where w = Working]) (simp_all add: phase_inv_def)
next
  case (connect i)
  then show ?thesis using inv number_update [OF connect(2), of has_client Working]
      connect_room [OF inv connect(2,3)]
    by (intro phase_inv_update [OF inv connect(2), where w = Working]) (simp_all add: phase_inv_def)
next
  case (connect_fails i)
  then show ?thesis using inv number_update [OF connect_fails(2), of has_client GaveUp]
    by (intro phase_inv_update [OF inv connect_fails(2), where w = GaveUp]) (simp_all add: phase_inv_def)
next
  case (work i)
  then show ?thesis using inv number_update [OF work(2), of has_client HasClient]
    by (intro phase_inv_update [OF inv work(2), where w = HasClient]) (simp_all add: phase_inv_def)
next
  case (return_client i)
  then show ?thesis using inv number_update [OF return_client(2), of has_client "Sending reports"]
    by (intro phase_inv_update [OF inv return_client(2), where w = "Sending reports"])
      (simp_all add: phase_inv_def)
next
  case (send i ch chs)
  have chs: "distinct (ch # chs)" "set (ch # chs) \<subseteq> set reports"
    using inv send(2,3) unfolding phase_inv_def by blast+
  then show ?thesis using send inv number_update [OF send(2), of has_client "Sending chs"]
    by (intro phase_inv_update [OF inv send(2), where w = "Sending chs"]) (auto simp: phase_inv_def)
next
  case (unlock i)
  moreover have "parChan s - 1 \<le> limit" using inv unfolding phase_inv_def by linarith
  ultimately show ?thesis using inv number_update [OF unlock(2), of has_client Ended]
    by (intro phase_inv_update [OF inv unlock(2), where w = Ended]) (simp_all add: phase_inv_def)
next
  case count
  then show ?thesis using inv by (auto simp: phase_inv_def)
qed

lemma phase_inv_exited [simp]: "phase_inv limit rounds leftover reports (s\<lparr>exited := x\<rparr>) =
    phase_inv limit rounds leftover reports s"
  by (simp add: phase_inv_def)

lemma pstep_inv:
  assumes "pstep bad limit rounds reports s s'" and "phase_inv limit rounds leftover reports s"
  shows "phase_inv limit rounds leftover reports s'"
  using assms by (auto elim!: pstepE intro: live_step_inv)

subsection \<open>Every execution is finite\<close>

fun steps_left :: "nat \<Rightarrow> worker \<Rightarrow> nat" where
  "steps_left n Start = n + 5"
| "steps_left n Locked = n + 4"
| "steps_left n Working = n + 3"
| "steps_left n HasClient = n + 2"
| "steps_left n (Sending chs) = length chs + 1"
| "steps_left n Ended = 0"
| "steps_left n GaveUp = 0"

definition live_left :: "nat \<Rightarrow> nat \<Rightarrow> phase \<Rightarrow> nat" where
  "live_left rounds n s = (\<Sum>w\<leftarrow>workers s. steps_left n w) + (rounds - setdone s)"

definition phase_left :: "nat \<Rightarrow> nat \<Rightarrow> phase \<Rightarrow> nat" where
  "phase_left rounds n s = (if exited s then 0 else live_left rounds n s)"

lemma count_bound:
  assumes "phase_inv limit rounds leftover reports s"
  shows "sent_reports s ReportEnd + setdone s \<le> rounds"
  using assms number_mono [of "has_sent ReportEnd" "\<lambda>_. True" "workers s"]
  unfolding phase_inv_def number_all by simp

lemma live_step_left:
  assumes "live_step bad limit rounds reports s s'" and inv: "phase_inv limit rounds leftover reports s"
  shows "live_left rounds (length reports) s' < live_left rounds (length reports) s"
proof -
  have upd: "live_left rounds (length reports) s' < live_left rounds (length reports) s"
    if "i < length (workers s)" "workers s' = (workers s)[i := w]" "setdone s' = setdone s"
      "steps_left (length reports) w < steps_left (length reports) (workers s ! i)" for i w
    using sum_list_update_nat [OF that(1), of "steps_left (length reports)" w] that(2-4)
    by (simp add: live_left_def)
  show ?thesis using assms(1)
  proof cases
    case count
    then show ?thesis using count_bound [OF inv] by (simp add: live_left_def)
  next
    case (lock i)
    then show ?thesis by (intro upd [of i Locked]) simp_all
  next
    case (reuse i)
    then show ?thesis by (intro upd [of i Working]) simp_all
  next
    case (connect i)
    then show ?thesis by (intro upd [of i Working]) simp_all
  next
    case (connect_fails i)
    then show ?thesis by (intro upd [of i GaveUp]) simp_all
  next
    case (work i)
    then show ?thesis by (intro upd [of i HasClient]) simp_all
  next
    case (return_client i)
    then show ?thesis by (intro upd [of i "Sending reports"]) simp_all
  next
    case (send i ch chs)
    then show ?thesis by (intro upd [of i "Sending chs"]) simp_all
  next
    case (unlock i)
    then show ?thesis by (intro upd [of i Ended]) simp_all
  qed
qed

lemma live_step_exited: "live_step bad limit rounds reports s s' \<Longrightarrow> exited s' = exited s"
  by (erule live_stepE) simp_all

lemma busy_left:
  assumes "i < length (workers s)" and "0 < steps_left n (workers s ! i)"
  shows "0 < live_left rounds n s"
proof -
  have "steps_left n (workers s ! i) \<in> set (map (steps_left n) (workers s))" using assms(1) by simp
  then have "steps_left n (workers s ! i) \<le> (\<Sum>w\<leftarrow>workers s. steps_left n w)"
    by (rule member_le_sum_list) simp
  then show ?thesis using assms(2) by (simp add: live_left_def)
qed

lemma pstep_left:
  assumes "pstep bad limit rounds reports s s'" and inv: "phase_inv limit rounds leftover reports s"
  shows "phase_left rounds (length reports) s' < phase_left rounds (length reports) s"
  using assms(1)
proof cases
  case live
  then show ?thesis using live_step_left [OF live(2) inv] by (simp add: phase_left_def live_step_exited)
next
  case (fatal i)
  then show ?thesis using busy_left [of i s] by (simp add: phase_left_def)
next
  case (NewCli_panics i)
  then show ?thesis using busy_left [of i s] by (simp add: phase_left_def)
qed

lemma phase_bounded:
  assumes "(pstep bad limit rounds reports ^^ n) s s'" and "phase_inv limit rounds leftover reports s"
  shows "phase_inv limit rounds leftover reports s' \<and>
    n + phase_left rounds (length reports) s' \<le> phase_left rounds (length reports) s"
  using assms(1)
proof (induction n arbitrary: s')
  case (Suc n)
  then obtain s1 where s1: "(pstep bad limit rounds reports ^^ n) s s1" "pstep bad limit rounds reports s1 s'"
    by auto
  from Suc.IH [OF s1(1)] pstep_inv [OF s1(2)] pstep_left [OF s1(2)] show ?case by fastforce
qed (use assms(2) in simp)

lemma phase_left_start:
  "phase_left rounds n (phase_start rounds leftover conns) = rounds * (n + 6) + leftover"
  by (simp add: phase_left_def live_left_def phase_start_def sum_list_replicate algebra_simps)

subsection \<open>No worker is stuck\<close>

lemma worker_steps:
  assumes inv: "phase_inv limit rounds leftover reports s" and i: "i < length (workers s)"
    and busy: "workers s ! i \<notin> {Start, Ended, GaveUp}"
    and alive: "\<not> exited s"
  shows "\<exists>s'. pstep bad limit rounds reports s s'"
proof -
  note live = pstep.live [OF alive]
  show ?thesis
  proof (cases "workers s ! i")
    case Locked
    then show ?thesis using live [OF live_step.reuse [OF i Locked]] live [OF live_step.connect [OF i Locked]] by blast
  next
    case Working
    then show ?thesis using live [OF live_step.work [OF i Working]] pstep.fatal [OF alive i Working] by blast
  next
    case HasClient
    then have "0 < number has_client (workers s)" using i by (intro number_pos [of i]) simp_all
    then have "cliChan s < limit" using inv unfolding phase_inv_def by linarith
    then show ?thesis using live [OF live_step.return_client [OF i HasClient]] by blast
  next
    case (Sending chs)
    show ?thesis
    proof (cases chs)
      case Nil
      then have "0 < number has_token (workers s)" using i Sending by (intro number_pos [of i]) simp_all
      then have "0 < parChan s" using inv unfolding phase_inv_def by linarith
      then show ?thesis using live [OF live_step.unlock [OF i Sending [unfolded Nil]]] by blast
    next
      case (Cons ch rest)
      have mem: "ch \<in> set reports" using inv i Sending Cons unfolding phase_inv_def by force
      have "number (has_sent ch) (workers s) + number (\<lambda>w. \<not> has_sent ch w) (workers s) = length (workers s)"
        using number_disjoint [of "has_sent ch" "\<lambda>w. \<not> has_sent ch w" "workers s"]
        by (simp add: number_all)
      moreover have "0 < number (\<lambda>w. \<not> has_sent ch w) (workers s)"
        using i Sending Cons by (intro number_pos [of i]) simp_all
      ultimately have "number (has_sent ch) (workers s) < rounds + leftover"
        using inv unfolding phase_inv_def by linarith
      moreover have "sent_reports s ch + leftover \<le> number (has_sent ch) (workers s)"
        using inv mem by (cases ch) (simp_all add: phase_inv_def)
      ultimately have "sent_reports s ch < rounds" by linarith
      then show ?thesis using live [OF live_step.send [OF i Sending [unfolded Cons]]] by blast
    qed
  qed (use busy in simp_all)
qed

lemma phase_progress:
  assumes inv: "phase_inv limit rounds leftover reports s"
    and "0 < limit" and "0 < rounds" and "GaveUp \<notin> set (workers s)" and "\<not> passed s" and alive: "\<not> exited s"
  shows "\<exists>s'. pstep bad limit rounds reports s s'"
proof (cases "\<exists>i < length (workers s). workers s ! i \<notin> {Start, Ended, GaveUp}")
  case True
  then show ?thesis using worker_steps [OF inv _ _ alive] by blast
next
  case False
  then have only: "w = Start \<or> w = Ended" if "w \<in> set (workers s)" for w
    using that assms(4) by (auto simp: in_set_conv_nth)
  show ?thesis
  proof (cases "Start \<in> set (workers s)")
    case True
    then obtain i where i: "i < length (workers s)" "workers s ! i = Start" by (auto simp: in_set_conv_nth)
    have "number has_token (workers s) = 0"
      using only by (metis has_token.simps(1,2) neq0_conv number_ex nth_mem)
    then have "parChan s < limit" using inv assms(2) by (simp add: phase_inv_def)
    then show ?thesis using pstep.live [OF alive live_step.lock [OF i]] by blast
  next
    case False
    then have "\<And>w. w \<in> set (workers s) \<Longrightarrow> has_sent ReportEnd w" using only by fastforce
    then have "number (has_sent ReportEnd) (workers s) = length (workers s)" by (rule number_every)
    then have "sent_reports s ReportEnd + setdone s = rounds" using inv unfolding phase_inv_def by linarith
    moreover have "setdone s \<noteq> rounds" using inv assms(3,5) unfolding phase_inv_def by auto
    ultimately have "0 < sent_reports s ReportEnd" by linarith
    then show ?thesis using pstep.live [OF alive live_step.count [OF assms(5)]] by blast
  qed
qed

subsection \<open>A worker that gave up\<close>

text \<open>A worker whose connection fails returns without its token and without a report. Then the
  count of main stays short for ever.\<close>

lemma pstep_GaveUp:
  assumes "pstep bad limit rounds reports s s'" and "GaveUp \<in> set (workers s)"
  shows "GaveUp \<in> set (workers s')"
proof -
  have upd: "GaveUp \<in> set ((workers s)[i := w])" if "i < length (workers s)" "workers s ! i \<noteq> GaveUp" for i w
    using assms(2) that by (metis in_set_conv_nth length_list_update nth_list_update_neq)
  show ?thesis using assms(1)
  proof cases
    case live
    from live(2) show ?thesis by cases (auto simp: upd assms(2))
  qed (use assms(2) in simp_all)
qed

lemma GaveUp_blocks:
  assumes "phase_inv limit rounds leftover reports s" and "GaveUp \<in> set (workers s)"
  shows "\<not> passed s"
proof -
  obtain i where i: "i < length (workers s)" "workers s ! i = GaveUp"
    using assms(2) by (auto simp: in_set_conv_nth)
  have "number (has_sent ReportEnd) (workers s) + number (\<lambda>w. w = GaveUp) (workers s) =
      number (\<lambda>w. has_sent ReportEnd w \<or> w = GaveUp) (workers s)"
    by (rule number_disjoint [symmetric]) auto
  also have "\<dots> \<le> length (workers s)"
    using number_mono [of _ "\<lambda>_. True" "workers s"] by (simp add: number_all)
  finally have "number (has_sent ReportEnd) (workers s) < rounds + leftover"
    using number_pos [of i "workers s" "\<lambda>w. w = GaveUp"] i assms(1) unfolding phase_inv_def by simp
  then have "setdone s < rounds" using assms(1) unfolding phase_inv_def by linarith
  then show ?thesis using assms(1) unfolding phase_inv_def by simp
qed

lemma preach_inv:
  assumes "(pstep bad limit rounds reports)\<^sup>*\<^sup>* s s'" and "phase_inv limit rounds leftover reports s"
  shows "phase_inv limit rounds leftover reports s'"
  using assms by (induction rule: rtranclp_induct) (auto intro: pstep_inv)

lemma preach_GaveUp:
  "(pstep bad limit rounds reports)\<^sup>*\<^sup>* s s' \<Longrightarrow> GaveUp \<in> set (workers s) \<Longrightarrow> GaveUp \<in> set (workers s')"
  by (induction rule: rtranclp_induct) (auto intro: pstep_GaveUp)

text \<open>The program ends in a phase only by a bad round.\<close>

lemma preach_exited:
  "(pstep bad limit rounds reports)\<^sup>*\<^sup>* s s' \<Longrightarrow> exited s' \<Longrightarrow> exited s \<or> (\<exists>i. bad i)"
  by (induction rule: rtranclp_induct) (auto elim!: pstepE simp: live_step_exited)

end
