(* ===== verification/RuntimeProperties.thy ===== *)
theory RuntimeProperties
  imports Concurrent Boot TestClient TestWorkers
begin

text \<open>
  Properties of the parts that run side by side: goroutines on the database, the connection
  numbers, the shutdown, and the test program with its workers.
\<close>

section \<open>Start of the server\<close>

text \<open>C15: Whenever main comes to serve, with a valid hash mode and whatever configuration file,
  environment and other flags, it runs in mode 1 on an empty, well-formed database with a permitted
  number of shards; the access list of the TCP and TLS sockets allows exactly the configured
  addresses (the unix socket and the web server have no access list); the TLS listener and the
  HTTPS server run if and only if TLS is configured; and the profiler is set if and only if the
  flag for it is.\<close>

theorem main_serves:
  assumes "main V M open_ok None listen_ok rs now fl h (salt0, E) = Inr ((salt, E'), h1, Some (db, srv))"
    and "flag_hashmode fl \<in> {HASH_siphash, HASH_FNV32A, HASH_FNV64A}"
    and "length (buf (pool E)) = 4"
  shows "flag_mode fl = 1 \<and> db_inv E' db \<and> db_view db = Map.empty \<and>
    SubCount (db_XDICK db) \<in> set AVAIL_SUBDICKS \<and>
    (\<exists>v n lvl. NewViperConf V M (flag_configfile fl) (h\<lparr>log_level := lvl\<rparr>) = Inr (v, n, h1) \<and>
       db = NewDICK now n \<and>
       (\<forall>ip. IsAllowed (srv_acl srv) ip \<longleftrightarrow> GetString V v VK_SERVER_SOCKET_ACL \<noteq> [] \<and>
          ip \<in> set (strings_Split (GetString V v VK_SERVER_SOCKET_ACL) '','')) \<and>
       ((\<exists>a. TLSListener a \<in> set (srv_listeners srv)) \<longleftrightarrow> GetBool V v VK_SEC_TLS_ENABLED) \<and>
       ((\<exists>w. srv_web srv = HttpsServer w) \<longleftrightarrow> GetBool V v VK_SEC_TLS_ENABLED) \<and>
       (srv_prof srv \<longleftrightarrow> flag_pprof fl \<noteq> []))"
proof -
  obtain v n l lvl srv0 where m: "NewViperConf V M (flag_configfile fl) (h\<lparr>log_level := lvl\<rparr>) = Inr (v, n, h1)"
    "boot_database (flag_mode fl) (flag_hashmode fl) rs now n (salt0, E) = Inr ((salt, E'), Some db)"
    "NewNDBServer open_ok None listen_ok (GetString V v) (GetBool V v) (conf h1) l = Inr srv0"
    "srv = (if flag_pprof fl \<noteq> [] then srv0\<lparr>srv_prof := True\<rparr> else srv0)"
    using main_result [OF assms(1)] by blast
  have b: "flag_mode fl = 1" "db = NewDICK now n" "env_ok E'"
    using boot_database_result [OF m(2) assms(2,3)] by auto
  have n: "n \<in> set AVAIL_SUBDICKS" by (rule NewViperConf_result(2) [OF m(1)])
  have "SubCount (db_XDICK db) = n" by (simp add: b(2) NewDICK_def NewXDICK_def)
  with n NewDICK_ok(1,2) [OF b(3) AVAIL_nonzero [OF n], of now, folded b(2)]
  have "db_inv E' db" "db_view db = Map.empty" "SubCount (db_XDICK db) \<in> set AVAIL_SUBDICKS" by auto
  moreover have "srv_acl srv = srv_acl srv0" "srv_listeners srv = srv_listeners srv0"
    "srv_web srv = srv_web srv0" "srv_prof srv \<longleftrightarrow> flag_pprof fl \<noteq> []"
    using NewNDBServer_result(5) [OF m(3)] by (simp_all add: m(4))
  ultimately show ?thesis using b(1,2) m(1) NewNDBServer_result(1-3) [OF m(3)] by metis
qed

definition demo_viper :: "(string \<Rightarrow> string) viper" where
  "demo_viper = \<lparr>viper_New = (\<lambda>_. []), SetDefault = (\<lambda>_ _ v. v), viper_Set = (\<lambda>k s v. v(k := s)),
     ReadInConfig = (\<lambda>_ v. Some v), WriteConfigAs = (\<lambda>_. []), GetString = (\<lambda>v k. v k),
     GetUint32 = (\<lambda>_ _. 100), GetInt = (\<lambda>_ _. 5), GetBool = (\<lambda>_ _. False)\<rparr>"

definition demo_machine :: machine where
  "demo_machine = \<lparr>LookupEnv = [''NDB_HOST'' \<mapsto> ''0.0.0.0''], ToUpper = (\<lambda>s. s),
     random_bytes = (\<lambda>_. 0), path_Join = (@), Getwd = Some ''/'', writable = (\<lambda>_. True)\<rparr>"

definition demo_host :: host where
  "demo_host = \<lparr>files = (\<lambda>_. Content []), log_level = 1,
     conf = \<lparr>RTO = 0, WTO = 0, ITO = 0, env_base_dir = None, made_dirs = []\<rparr>\<rparr>"

lemma demo_conf: "\<exists>v h1. NewViperConf demo_viper demo_machine [] (demo_host\<lparr>log_level := lvl\<rparr>) = Inr (v, 100, h1)"
  by (simp add: NewViperConf_def load_config_def demo_viper_def demo_machine_def demo_host_def
      checkFileExists_def apply_envs_def initDB_def AVAIL_SUBDICKS_def Let_def split: prod.split)

lemma demo_viper_sets: "viper_sets demo_viper"
  by (simp add: viper_sets_def demo_viper_def)

theorem main_serves_witness:
  "\<exists>p h1 db srv. main demo_viper demo_machine (\<lambda>_. True) None (\<lambda>_. True) [] 0
       \<lparr>flag_mode = 1, flag_configfile = [], flag_hashmode = 3, flag_logfile = [], flag_pprof = []\<rparr> demo_host
       (\<lparr>once_done = False, SALT = []\<rparr>, demo_env) = Inr (p, h1, Some (db, srv)) \<and>
     db_inv (snd p) db"
proof -
  let ?fl = "\<lparr>flag_mode = 1, flag_configfile = [], flag_hashmode = 3, flag_logfile = [], flag_pprof = []\<rparr>"
  let ?s = "\<lparr>once_done = False, SALT = []\<rparr>"
  obtain v h1 where c: "NewViperConf demo_viper demo_machine [] (demo_host\<lparr>log_level := 1\<rparr>) = Inr (v, 100, h1)"
    using demo_conf by blast
  have e: "GetEnvLOGLEVEL (LookupEnv demo_machine) = 1"
    by (simp add: GetEnvLOGLEVEL_def demo_machine_def INFO_def)
  have "\<exists>p h1 db srv. main demo_viper demo_machine (\<lambda>_. True) None (\<lambda>_. True) [] 0 ?fl demo_host
      (?s, demo_env) = Inr (p, h1, Some (db, srv))"
    using c SetACL_all_spec
    by (simp add: main_def Let_def e NewLogger_def boot_database_def HASH_siphash_def
        NewNDBServer_def NewSocketHandler_def Start_def handler_conf_def
        handler_acl_def NewACL_def SetupACL_def list_all_iff)
  then obtain p h1 db srv where m: "main demo_viper demo_machine (\<lambda>_. True) None (\<lambda>_. True) [] 0 ?fl demo_host
      (?s, demo_env) = Inr (p, h1, Some (db, srv))" by blast
  obtain salt E' where p: "p = (salt, E')" by fastforce
  have "db_inv E' db"
    using main_serves [OF m [unfolded p]] by (simp add: HASH_FNV64A_def demo_env_def zero_Hash_def)
  with m p show ?thesis by auto
qed

text \<open>C29: A setting in the environment wins over the configuration file: after start-up the
  configuration answers with the variable's value (for the log level, in upper case), given that
  the configuration library answers, for the program's own keys, with what has been set.\<close>

theorem environment_wins:
  assumes "NewViperConf V M cfgFile h = Inr (v, n, h')" and "viper_sets V"
    and "(key, envK) \<in> set mapEnvsToConf" and "LookupEnv M envK = Some s"
  shows "GetString V v key = (if envK = ''LOGLEVEL'' then ToUpper M s else s)"
  using NewViperConf_env [OF assms(1-3)] assms(4) by (auto simp: env_value_def)

theorem environment_wins_witness:
  "\<exists>v h1. NewViperConf demo_viper demo_machine [] (demo_host\<lparr>log_level := 1\<rparr>) = Inr (v, 100, h1) \<and>
     GetString demo_viper v VK_SERVER_HOST = ''0.0.0.0''"
proof -
  obtain v h1 where c: "NewViperConf demo_viper demo_machine [] (demo_host\<lparr>log_level := 1\<rparr>) = Inr (v, 100, h1)"
    using demo_conf by blast
  have "(VK_SERVER_HOST, ''NDB_HOST'') \<in> set mapEnvsToConf" by (simp add: mapEnvsToConf_def)
  from environment_wins [OF c demo_viper_sets this, of "''0.0.0.0''"] c show ?thesis
    by (auto simp: demo_machine_def)
qed

text \<open>With the default configuration the HTTPS server is started with the file of the private
  key as its certificate and the file of the certificate as its key.\<close>

theorem default_tls_files_swapped:
  "let cfg = map_of (default_settings join pass);
       gs = (\<lambda>k. case cfg k of Some (CStr s) \<Rightarrow> s | _ \<Rightarrow> [])
   in certFile (https_server_settings st gs) = join CONFIG_DIR DEFAULT_TLS_PRIVKEY \<and>
      keyFile (https_server_settings st gs) = join CONFIG_DIR DEFAULT_TLS_PUBCERT"
  by (simp add: default_settings_def https_server_settings_def conf_keys)

section \<open>Goroutines on the database\<close>

text \<open>C2: However goroutines interleave on a new database, the answers they get are those of a
  finite map that serves the requests one at a time, in the order in which the shards were
  written; the database stands for the map at the end; and what a goroutine returns is the answer
  recorded for its latest request.\<close>

theorem concurrent_use_linearizable:
  assumes "env_ok E" and "n \<noteq> 0" and "creach E (start_state (NewXDICK n)) evs s"
    and "length (history s) \<le> 2 ^ 61"
  shows "map_run (\<lambda>r. r) EntryNotFound (map (\<lambda>(_, q, _). q) (history s)) Map.empty =
      (xview (cdb s), map (\<lambda>(_, _, a). a) (history s)) \<and>
    (\<forall>t a. answer_of (routines s t) = Some a \<longrightarrow> (\<exists>es q. entries_of t s = es @ [(t, q, a)]))"
proof
  have "data_inv E s" using creach_inv [OF assms(3) lock_inv_start _ assms(4)]
      data_inv_start [OF NewXDICK_ok [OF assms(1,2)]] by blast
  then show "map_run (\<lambda>r. r) EntryNotFound (map (\<lambda>(_, q, _). q) (history s)) Map.empty =
      (xview (cdb s), map (\<lambda>(_, _, a). a) (history s))"
    by (simp add: data_inv_def history_run_def)
  show "\<forall>t a. answer_of (routines s t) = Some a \<longrightarrow> (\<exists>es q. entries_of t s = es @ [(t, q, a)])"
    using creach_answer_inv [OF assms(3) answer_inv_start] by (simp add: answer_inv_def)
qed

theorem concurrent_use_linearizable_witness:
  "\<exists>s a. creach demo_env (start_state (NewXDICK 10))
       [Call 0 (GetReq ''a''), Lock 0, Load 0, Store 0] s \<and>
     history s = [(0, GetReq ''a'', a)] \<and> a = Value None"
proof -
  have ok: "env_ok demo_env" "(10 :: uint32) \<noteq> 0" by (simp_all add: demo_env_ok)
  obtain s a where s: "creach demo_env (start_state (NewXDICK 10))
      [Call 0 (GetReq ''a''), Lock 0, Load 0, Store 0] s" "history s = [(0, GetReq ''a'', a)]"
    using run_one [of demo_env "NewXDICK 10" 0 "GetReq ''a''"] NewXDICK_ok [OF ok] by auto
  have "a = Value None"
    using concurrent_use_linearizable [OF ok s(1)] s(2) by simp
  with s show ?thesis by blast
qed

text \<open>C13: In every execution the shards stay well formed with every key in the shard it is routed
  to, and no two goroutines hold the mutex of the same shard.\<close>

theorem concurrent_use_well_formed:
  assumes "env_ok E" and "n \<noteq> 0" and "creach E (start_state (NewXDICK n)) evs s"
    and "length (history s) \<le> 2 ^ 61"
  shows "xinv E (cdb s) \<and> (\<forall>t t' i. holds (routines s t) i \<and> holds (routines s t') i \<longrightarrow> t = t')"
proof -
  have inv: "lock_inv s" "data_inv E s" using creach_inv [OF assms(3) lock_inv_start _ assms(4)]
      data_inv_start [OF NewXDICK_ok [OF assms(1,2)]] by blast+
  moreover have "t = t'" if "holds (routines s t) i" "holds (routines s t') i" for t t' i
    using inv(1) that by (simp add: lock_inv_def excl_inv_def)
  ultimately show ?thesis by (auto simp: data_inv_def)
qed

theorem concurrent_use_well_formed_witness:
  "\<exists>s. creach demo_env (start_state (NewXDICK 10))
       [Call 0 (SetReq ''a'' GoNil), Lock 0, Load 0, Store 0] s \<and> xinv demo_env (cdb s)"
proof -
  have ok: "env_ok demo_env" "(10 :: uint32) \<noteq> 0" by (simp_all add: demo_env_ok)
  obtain s a where s: "creach demo_env (start_state (NewXDICK 10))
      [Call 0 (SetReq ''a'' GoNil), Lock 0, Load 0, Store 0] s" "history s = [(0, SetReq ''a'' GoNil, a)]"
    using run_one [of demo_env "NewXDICK 10" 0 "SetReq ''a'' GoNil"] NewXDICK_ok [OF ok] by auto
  with concurrent_use_well_formed [OF ok s(1)] show ?thesis by auto
qed

text \<open>C14: No goroutine is ever stuck in an operation: from every state of every execution it can
  run to the end of its operation, in steps inside operations only, so without new calls.\<close>

theorem operations_can_finish:
  assumes "env_ok E" and "n \<noteq> 0" and "creach E (start_state (NewXDICK n)) evs s"
    and "length (history s) + 10 \<le> 2 ^ 61"
  shows "\<exists>evs' s'. creach E s evs' s' \<and> routines s' t = Idle \<and> list_all inside evs'"
proof -
  have "length (history s) \<le> 2 ^ 61" using assms(4) by linarith
  then have inv: "lock_inv s" "data_inv E s" using creach_inv [OF assms(3) lock_inv_start]
      data_inv_start [OF NewXDICK_ok [OF assms(1,2)]] by blast+
  have "length (history s) + wait_rank s t \<le> 2 ^ 61" using wait_rank_le [of s t] assms(4) by linarith
  then show ?thesis by (rule can_finish [OF inv])
qed

theorem operations_can_finish_witness:
  "\<exists>s s' evs'. creach demo_env (start_state (NewXDICK 10))
       [Call 0 (GetReq ''a''), Lock 0, Load 0, Store 0] s \<and>
     creach demo_env s evs' s' \<and> routines s' 0 = Idle"
proof -
  have ok: "env_ok demo_env" "(10 :: uint32) \<noteq> 0" by (simp_all add: demo_env_ok)
  obtain s a where s: "creach demo_env (start_state (NewXDICK 10))
      [Call 0 (GetReq ''a''), Lock 0, Load 0, Store 0] s" "history s = [(0, GetReq ''a'', a)]"
    using run_one [of demo_env "NewXDICK 10" 0 "GetReq ''a''"] NewXDICK_ok [OF ok] by auto
  with operations_can_finish [OF ok s(1), of 0] show ?thesis by auto
qed

section \<open>Connection numbers\<close>

text \<open>C40: Two accept loops can give the same number to two connections, as each reads the counter
  after it has released the mutex under which it incremented it.\<close>

theorem connections_share_a_number:
  "\<exists>s. id_step\<^sup>*\<^sup>* id_start s \<and> given_ids s = [(0, 2), (1, 2)]"
  by (rule same_id_twice)

section \<open>Shutdown\<close>

text \<open>C27: While main waits after its signal, the one token is either in the channel or with one of
  the parts, and the shutdown can go on until every part has closed and returned and the token is back in the
  channel; and every step of it brings it nearer to its end.\<close>

theorem shutdown_can_complete:
  assumes "sstep\<^sup>*\<^sup>* (shutdown_start (waiting_parts socketPath)) s" and "main_pc s = InWait"
  shows "tokens s = 1 \<and> (\<forall>s1. sstep s s1 \<longrightarrow> work_left s1 < work_left s) \<and>
    (\<exists>s'. sstep\<^sup>*\<^sup>* s s' \<and> main_pc s' = InWait \<and> stop_chan s' = 1 \<and>
      waiters s' = replicate (waiting_parts socketPath) Returned)"
proof -
  have inv: "token_inv s" by (rule sreach_token_inv [OF assms(1) token_inv_start])
  have "length (waiters s) = waiting_parts socketPath"
    using assms(1) by (induction rule: rtranclp_induct) (simp_all add: shutdown_start_def sstep_length)
  moreover have "waiting_parts socketPath \<le> 2" by (simp add: waiting_parts_def)
  ultimately show ?thesis using shutdown_completes [OF inv assms(2)] inv assms(2) sstep_work
    by (auto simp: token_inv_def)
qed

theorem shutdown_can_complete_witness:
  "\<exists>s. sstep\<^sup>*\<^sup>* (shutdown_start (waiting_parts ''/tmp/ndb.socket'')) s \<and>
     waiters s = [Returned, Returned]"
proof -
  let ?s0 = "shutdown_start (waiting_parts ''/tmp/ndb.socket'')"
  have "main_step ?s0 (?s0\<lparr>stop_chan := stop_chan ?s0 + 1, main_pc := InWait\<rparr>)" (is "main_step _ ?s1")
    by (rule main_step.signal) (simp_all add: shutdown_start_def)
  then have "sstep ?s0 ?s1" by (simp add: sstep_def)
  then have r: "sstep\<^sup>*\<^sup>* ?s0 ?s1" by blast
  have "main_pc ?s1 = InWait" by simp
  from shutdown_can_complete [OF r this] obtain s' where "sstep\<^sup>*\<^sup>* ?s1 s'"
    "waiters s' = replicate (waiting_parts ''/tmp/ndb.socket'') Returned" by blast
  with r show ?thesis by (auto simp: waiting_parts_def numeral_2_eq_2 intro: rtranclp_trans)
qed

text \<open>C28: But main need not wait for it: as the wait group is passed by value, the parts add
  themselves to copies of it, main's own counter is zero in every state, and the process can end
  when all parts have added themselves to their wait groups and none has closed.\<close>

theorem main_can_exit_early:
  "(\<forall>s. sstep\<^sup>*\<^sup>* (shutdown_start (waiting_parts socketPath)) s \<longrightarrow> counters s ! 0 = 0) \<and>
   (\<exists>s. sstep\<^sup>*\<^sup>* (shutdown_start (waiting_parts socketPath)) s \<and> main_pc s = Exited \<and>
     waiters s = replicate (waiting_parts socketPath) AwaitsToken \<and>
     (\<forall>i < waiting_parts socketPath. counters s ! (part_wg s ! i) = 1))"
proof -
  have n: "waiting_parts socketPath \<in> {1, 2}" "waiting_parts socketPath \<le> 2"
    by (simp_all add: waiting_parts_def)
  have "counters s ! 0 = 0" if "sstep\<^sup>*\<^sup>* (shutdown_start (waiting_parts socketPath)) s" for s
    using sreach_wg_inv [OF that wg_inv_start [OF n(2)]] by (simp add: wg_inv_def)
  then show ?thesis using early_exit [OF n(1)] by blast
qed

theorem main_can_exit_early_witness:
  "\<exists>s. sstep\<^sup>*\<^sup>* (shutdown_start (waiting_parts ''/tmp/ndb.socket'')) s \<and> counters s ! 0 = 0 \<and>
     main_pc s = Exited \<and> counters s ! (part_wg s ! 1) = 1"
proof -
  have "(1 :: nat) < waiting_parts ''/tmp/ndb.socket''" by (simp add: waiting_parts_def)
  then show ?thesis using main_can_exit_early [of "''/tmp/ndb.socket''"] by blast
qed

section \<open>The test program\<close>

text \<open>C21: The test with counted keys passes over a session: whatever the rounds and items, every
  round inserts all its pairs, and afterwards every round finds every one of its pairs unchanged
  and reports their number, with which the sum of main ends.\<close>

theorem counting_test_passes:
  assumes "session_ready E st" and "socket_client c" and "\<not> test_randomize fl"
    and "0 < test_items fl" and "0 < test_rounds fl"
    and "length rs = nat (test_rounds fl)" and "length rs' = nat (test_rounds fl)" and "set rs' \<subseteq> set rs"
    and "db_count (sdb st) + nat (test_items fl) * nat (test_rounds fl) \<le> 2 ^ 61"
  shows "\<exists>st'. test_main (session_wire E) c fl kb vb rs rs' st =
    Inr (Some (test_items fl * test_rounds fl), st')"
proof -
  have src: "round_source fl kb vb = (\<lambda>_. Counting)" using assms(3) by (auto simp: round_source_def)
  have "final_sum (test_items fl * test_rounds fl) 0 (replicate (length rs') (test_items fl)) =
      Some (test_items fl * test_rounds fl)"
    using final_sum_replicate [of "length rs'" "test_items fl" 0] assms(4,5,7) by (simp add: mult.commute)
  moreover obtain tms st1 st2 where
    "insert_rounds (session_wire E) c (\<lambda>_. Counting) (test_items fl) (test_startint fl) rs st = Inr (tms, st1)"
    "check_count_rounds (session_wire E) c (test_items fl) (test_startint fl) rs' st1 =
      Inr (replicate (length rs') (int (nat (test_items fl))), st2)"
    using sock.counting_rounds_pass [of E st c "test_items fl" rs rs' "test_startint fl"] assms
      plain_count_pair by auto
  ultimately show ?thesis using assms(3,4) by (simp add: test_main_def src)
qed

theorem counting_test_passes_witness:
  "\<exists>st'. test_main (session_wire demo_env) demo_client
       (default_test_flags\<lparr>test_items := 3, test_rounds := 2, test_randomize := False\<rparr>)
       (\<lambda>_ _ _. CHR ''a'') (\<lambda>_ _ _. CHR ''a'') [1, 2] [2, 1] demo_session = Inr (Some 6, st')"
proof -
  have "socket_client demo_client" by (simp add: socket_client_def demo_client_def)
  from counting_test_passes [OF demo_ready(1) this,
      of "default_test_flags\<lparr>test_items := 3, test_rounds := 2, test_randomize := False\<rparr>" "[1, 2]" "[2, 1]"]
  show ?thesis using demo_ready(2) demo_db_ok(3) by simp
qed

text \<open>A round with random keys, over HTTP or a socket, passes its own check in whatever order
  its map is visited; here over HTTP, for a router and a JSON decoder that carry the pairs.\<close>

theorem random_round_passes_http:
  assumes "db_inv E db" and "http_client c" and "db_count db + nat items \<le> 2 ^ 61"
    and "\<forall>i. web_pair c route_key json (DevUrandomString (kb i) kl) (DevUrandomString (vb i) vl)"
  shows "\<exists>tm db1. insert_round (http_wire E route_key json) c (Randomize kl vl kb vb) r items startint db =
       Inr (tm, db1) \<and> distinct (map fst tm) \<and>
     (\<forall>kvs. set kvs = set tm \<longrightarrow>
        (\<exists>db2. check_map_loop (http_wire E route_key json) c kvs 0 db1 = Inr (int (length kvs), db2)))"
proof (rule web.random_round_passes)
  show "case item_pair (Randomize kl vl kb vb) i s r of (k, v) \<Rightarrow> web_pair c route_key json k v" for i s
    using assms(4) by simp
qed (use assms in simp_all)

theorem random_round_passes_http_witness:
  "\<exists>tm db1. insert_round (http_wire demo_env (\<lambda>_. Some ''61'')
       (\<lambda>_. Some [(''61'', GoString ''62'')])) (demo_client\<lparr>cMode := 1\<rparr>)
       (Randomize 2 2 (\<lambda>_ _. CHR ''a'') (\<lambda>_ _. CHR ''b'')) 1 5 1 demo_db = Inr (tm, db1)"
proof -
  have "DevUrandomString (\<lambda>_. CHR ''a'') 2 = ''61''" "DevUrandomString (\<lambda>_. CHR ''b'') 2 = ''62''"
    by (simp_all add: DevUrandomString_def hex_EncodeToString_def hex_digit_def)
  then have "\<forall>i::nat. web_pair (demo_client\<lparr>cMode := 1\<rparr>) (\<lambda>_. Some ''61'')
      (\<lambda>_. Some [(''61'', GoString ''62'')])
      (DevUrandomString (\<lambda>_. CHR ''a'') 2) (DevUrandomString (\<lambda>_. CHR ''b'') 2)"
    by (simp add: web_pair_def)
  moreover have "http_client (demo_client\<lparr>cMode := 1\<rparr>)"
    by (simp add: http_client_def demo_client_def)
  ultimately show ?thesis
    using random_round_passes_http [OF demo_db_ok(1), where c = "demo_client\<lparr>cMode := 1\<rparr>" and items = 5 and
        kb = "\<lambda>_ _. CHR ''a''" and vb = "\<lambda>_ _. CHR ''b''" and kl = 2 and vl = 2 and r = 1 and
        startint = 1 and route_key = "\<lambda>_. Some ''61''" and json = "\<lambda>_. Some [(''61'', GoString ''62'')]"]
      demo_db_ok(3) by auto
qed

text \<open>C26: With random keys of length at most 3 and more than 256 items per round the test never
  comes to its end: the keys are one random byte each, equal keys are captured once, and the sum
  over which main waits stays below the number of items. Over any connection and server the program
  ends with an error in a round or waits for ever; over a session that works, a test of one round
  waits for ever (with more rounds colliding keys may make a check fail).\<close>

theorem short_random_keys_never_pass:
  assumes "test_randomize fl" and "flag_keylen fl \<le> 3" and "256 < test_items fl" and "rs \<noteq> []"
    and "length rs = nat (test_rounds fl)"
  shows "test_main W c fl kb vb rs rs' w \<noteq> Inr (Some n, w') \<and>
    (session_ready E st \<and> socket_client c \<and> length rs = 1 \<and> flag_vallen fl \<le> int VAL_LIMIT \<and>
       db_count (sdb st) + nat (test_items fl) \<le> 2 ^ 61 \<longrightarrow>
     (\<exists>st'. test_main (session_wire E) c fl kb vb rs rs' st = Inr (None, st')))"
proof -
  let ?src = "\<lambda>r. Randomize (flag_keylen fl) (flag_vallen fl) (kb r) (vb r)"
  have src: "round_source fl kb vb = ?src" using assms(1) by (simp add: round_source_def fun_eq_iff)
  have short: "r = None" if run: "test_main W c fl kb vb rs rs' w = Inr (r, w')" for W :: "'x wire" and w r w'
    by (rule short_keys_no_sum [OF run assms])
  have "\<exists>st'. test_main (session_wire E) c fl kb vb rs rs' st = Inr (None, st')"
    if s: "session_ready E st" "socket_client c" "length rs = 1" "flag_vallen fl \<le> int VAL_LIMIT"
      "db_count (sdb st) + nat (test_items fl) \<le> 2 ^ 61"
  proof -
    obtain r where rs: "rs = [r]" using s(3) by (cases rs) auto
    have "plain_pair (DevUrandomString (kb r i) (flag_keylen fl)) (DevUrandomString (vb r i) (flag_vallen fl))"
      for i using assms(2) s(4) by (intro plain_random_pair) (simp_all add: KEY_LIMIT_def)
    then obtain tm st1 st2 where
      "insert_round (session_wire E) c (?src r) r (test_items fl) (test_startint fl) st = Inr (tm, st1)"
      "check_map_loop (session_wire E) c tm 0 st1 = Inr (int (length tm), st2)"
      using sock.random_round_passes [of E st c "test_items fl" "?src r" r "test_startint fl"] s by auto
    then obtain x where "test_main (session_wire E) c fl kb vb rs rs' st = Inr (x, st2)"
      using assms(1) by (simp add: test_main_def src rs)
    with short [of "session_wire E"] show ?thesis by blast
  qed
  then show ?thesis using short [of W] by auto
qed

theorem short_random_keys_never_pass_witness:
  "\<exists>st'. test_main (session_wire demo_env) demo_client
       (default_test_flags\<lparr>test_items := 300, test_rounds := 1, flag_keylen := 2, flag_vallen := 2\<rparr>)
       (\<lambda>_ _ _. CHR ''a'') (\<lambda>_ _ _. CHR ''b'') [1] [] demo_session = Inr (None, st')"
proof -
  have "socket_client demo_client" by (simp add: socket_client_def demo_client_def)
  then show ?thesis
    using short_random_keys_never_pass [of
        "default_test_flags\<lparr>test_items := 300, test_rounds := 1, flag_keylen := 2, flag_vallen := 2\<rparr>"
        "[1]" "session_wire demo_env" demo_client "\<lambda>_ _ _. CHR ''a''" "\<lambda>_ _ _. CHR ''b''" "[]"
        demo_session 0 demo_session demo_env demo_session]
      demo_ready(1,2) demo_db_ok(3)
    by (simp add: default_test_flags_def VAL_LIMIT_def)
qed

text \<open>C24: A phase of the test with at least one round and one parallel worker takes boundedly many
  steps; when no more is possible and the program has not exited, main has counted all rounds or
  a connection failed; and it exits only by a round with a failed request or a wrong value, or a
  panic while connecting.\<close>

theorem test_phase_completes:
  assumes "reports \<in> {insert_reports randomize, check_reports randomize}"
    and "0 < limit" and "0 < rounds" and "leftover \<le> limit" and "conns \<le> limit"
    and "(pstep bad limit rounds reports ^^ n) (phase_start rounds leftover conns) s"
  shows "n \<le> rounds * 8 + leftover \<and>
    (GaveUp \<notin> set (workers s) \<and> \<not> exited s \<and> (\<forall>s'. \<not> pstep bad limit rounds reports s s') \<longrightarrow> passed s) \<and>
    (exited s \<longrightarrow> (\<exists>i. bad i))"
proof -
  have reports: "distinct reports" "ReportEnd \<in> set reports" "length reports \<le> 2"
    using assms(1) by (auto simp: insert_reports_def check_reports_def split: if_splits)
  note b = phase_bounded [OF assms(6) phase_inv_start [OF reports(1,2) assms(4,5)]]
  have "phase_left rounds (length reports) (phase_start rounds leftover conns) \<le> rounds * 8 + leftover"
    using reports(3) by (simp add: phase_left_start)
  then have "n \<le> rounds * 8 + leftover" using b by linarith
  moreover have "\<exists>i. bad i" if "exited s"
    using preach_exited [OF relpowp_imp_rtranclp [OF assms(6)] that] by (simp add: phase_start_def)
  ultimately show ?thesis using phase_progress [OF b [THEN conjunct1] assms(2,3)] by blast
qed

theorem test_phase_completes_witness:
  "\<exists>s. (pstep (\<lambda>_. False) 1 1 (insert_reports False) ^^ 7) (phase_start 1 0 0) s \<and> passed s"
proof -
  let ?R = "insert_reports False"
  let ?P = "pstep (\<lambda>_. False) 1 1 ?R"
  let ?s = "\<lambda>p c r w d. \<lparr>parChan = p, cliChan = c, sent_reports = (\<lambda>_. 0)(ReportEnd := r),
    workers = [w], setdone = d, passed = (d = 1), exited = False\<rparr>"
  note reports_def = insert_reports_def phase_start_def fun_eq_iff
  have live: "?P (?s p c r w d) s'" if "live_step (\<lambda>_. False) 1 1 ?R (?s p c r w d) s'" for p c r w d s'
    by (rule pstep.live [OF _ that]) simp
  have "?P (?s 0 0 0 Start 0) (?s 1 0 0 Locked 0)"
    by (rule live) (use live_step.lock [where s = "?s 0 0 0 Start 0" and bad = "\<lambda>_. False" and rounds = 1 and
        reports = ?R and i = 0 and limit = 1] in \<open>simp\<close>)
  moreover have "?P (?s 1 0 0 Locked 0) (?s 1 0 0 Working 0)"
    by (rule live) (use live_step.connect [where s = "?s 1 0 0 Locked 0" and bad = "\<lambda>_. False" and rounds = 1 and
        reports = ?R and i = 0 and limit = 1] in \<open>simp\<close>)
  moreover have "?P (?s 1 0 0 Working 0) (?s 1 0 0 HasClient 0)"
    by (rule live) (use live_step.work [where s = "?s 1 0 0 Working 0" and bad = "\<lambda>_. False" and rounds = 1 and
        reports = ?R and i = 0 and limit = 1] in \<open>simp\<close>)
  moreover have "?P (?s 1 0 0 HasClient 0) (?s 1 1 0 (Sending ?R) 0)"
    by (rule live) (use live_step.return_client [where s = "?s 1 0 0 HasClient 0" and bad = "\<lambda>_. False" and rounds = 1 and
        reports = ?R and i = 0 and limit = 1] in \<open>simp\<close>)
  moreover have "?P (?s 1 1 0 (Sending ?R) 0) (?s 1 1 1 (Sending []) 0)"
    by (rule live) (use live_step.send [where s = "?s 1 1 0 (Sending ?R) 0" and bad = "\<lambda>_. False" and rounds = 1 and
        reports = ?R and i = 0 and limit = 1 and ch = ReportEnd and chs = "[]"] in \<open>simp add: reports_def\<close>)
  moreover have "?P (?s 1 1 1 (Sending []) 0) (?s 0 1 1 Ended 0)"
    by (rule live) (use live_step.unlock [where s = "?s 1 1 1 (Sending []) 0" and bad = "\<lambda>_. False" and rounds = 1 and
        reports = ?R and i = 0 and limit = 1] in \<open>simp\<close>)
  moreover have "?P (?s 0 1 1 Ended 0) (?s 0 1 0 Ended 1)"
    by (rule live) (use live_step.count [where s = "?s 0 1 1 Ended 0" and bad = "\<lambda>_. False" and rounds = 1 and
        reports = ?R and limit = 1] in \<open>simp\<close>)
  ultimately have "(?P ^^ Suc (Suc (Suc (Suc (Suc (Suc (Suc 0))))))) (?s 0 0 0 Start 0) (?s 0 1 0 Ended 1)"
    by (blast intro: relpow_Suc_I relpowp_Suc_I relpowp_0_I)
  then have run: "(?P ^^ 7) (phase_start 1 0 0) (?s 0 1 0 Ended 1)"
    by (simp add: phase_start_def fun_upd_idem numeral_eq_Suc del: relpowp.simps)
  have "\<not> ?P (?s 0 1 0 Ended 1) s'" for s' by (auto elim!: pstepE live_stepE)
  then show ?thesis using run test_phase_completes [OF _ _ _ _ _ run, of False] by auto
qed

text \<open>C25: When one connection cannot be made in a phase, its worker returns without giving back its
  token and without a report, and main never counts all rounds: it waits until a bad round of
  another worker ends the program, and when no round is bad the program waits for ever.\<close>

theorem failed_connection_hangs:
  assumes "distinct reports" and "ReportEnd \<in> set reports"
    and "leftover \<le> limit" and "conns \<le> limit"
    and "(pstep bad limit rounds reports)\<^sup>*\<^sup>* (phase_start rounds leftover conns) s"
    and "GaveUp \<in> set (workers s)" and "(pstep bad limit rounds reports)\<^sup>*\<^sup>* s s'"
  shows "\<not> passed s' \<and> (exited s' \<longrightarrow> (\<exists>i. bad i))"
proof
  show "\<not> passed s'"
  proof (rule GaveUp_blocks)
    show "phase_inv limit rounds leftover reports s'"
      by (rule preach_inv [OF assms(7) preach_inv [OF assms(5) phase_inv_start [OF assms(1-4)]]])
    show "GaveUp \<in> set (workers s')" by (rule preach_GaveUp [OF assms(7,6)])
  qed
  show "exited s' \<longrightarrow> (\<exists>i. bad i)"
    using preach_exited [OF rtranclp_trans [OF assms(5,7)]] by (auto simp: phase_start_def)
qed

theorem failed_connection_hangs_witness:
  "\<exists>s. (pstep (\<lambda>_. False) 1 2 [ReportEnd])\<^sup>*\<^sup>* (phase_start 2 0 0) s \<and> GaveUp \<in> set (workers s) \<and>
     \<not> passed s \<and> \<not> exited s"
proof -
  let ?P = "pstep (\<lambda>_. False) 1 2 [ReportEnd]"
  let ?s0 = "phase_start 2 0 0"
  let ?s1 = "?s0\<lparr>parChan := parChan ?s0 + 1, workers := (workers ?s0)[0 := Locked]\<rparr>"
  let ?s2 = "?s1\<lparr>workers := (workers ?s1)[0 := GaveUp]\<rparr>"
  have s01: "?P ?s0 ?s1"
    by (rule pstep.live, simp add: phase_start_def, rule live_step.lock)
      (simp_all add: phase_start_def numeral_2_eq_2)
  have "?P ?s1 ?s2"
    by (rule pstep.live, simp add: phase_start_def, rule live_step.connect_fails)
      (simp_all add: phase_start_def numeral_2_eq_2)
  with s01 have r: "?P\<^sup>*\<^sup>* ?s0 ?s2"
    by (meson converse_rtranclp_into_rtranclp rtranclp.rtrancl_refl)
  have g: "GaveUp \<in> set (workers ?s2)" by (simp add: phase_start_def numeral_2_eq_2)
  have "\<not> passed ?s2 \<and> (exited ?s2 \<longrightarrow> (\<exists>i :: nat. False))"
    by (rule failed_connection_hangs [OF _ _ _ _ r g rtranclp.rtrancl_refl]) simp_all
  with r g show ?thesis by blast
qed

text \<open>The check of a round goes wrong when another round has drawn the same random key with
  another value: the program ends with an error although the server did nothing wrong.\<close>

theorem colliding_rounds_fail:
  assumes "session_ready E st" and "socket_client c" and "plain_pair k v1" and "plain_pair k v2"
    and "v1 \<noteq> v2" and "db_count (sdb st) + 2 \<le> 2 ^ 61"
  shows "\<exists>st1 st2. wire_set (session_wire E) c k v1 st = (None, st1) \<and>
    wire_set (session_wire E) c k v2 st1 = (None, st2) \<and>
    check_map_loop (session_wire E) c [(k, v1)] 0 st2 = Inl ProcessExit"
proof -
  obtain st1 where st1: "wire_set (session_wire E) c k v1 st = (None, st1)" "session_ready E st1"
    "db_count (sdb st1) \<le> Suc (db_count (sdb st))"
    using sock.set_law [of E st c k v1] assms by auto
  obtain st2 where st2: "wire_set (session_wire E) c k v2 st1 = (None, st2)" "session_ready E st2"
    "strings_of (db_view (sdb st2)) k = Some v2"
    using sock.set_law [of E st1 c k v2] st1 assms by auto
  obtain st3 where "wire_get (session_wire E) c k st2 = Inr (None, v2, True, st3)"
    using sock.get_law [of E st2 c k v2] st2 assms by auto
  then have "check_map_loop (session_wire E) c [(k, v1)] 0 st2 = Inl ProcessExit"
    using assms(5) by (simp add: check_pair_def)
  with st1(1) st2(1) show ?thesis by blast
qed

theorem colliding_rounds_fail_witness:
  "\<exists>st2. check_map_loop (session_wire demo_env) demo_client [(''k'', ''v'')] 0 st2 = Inl ProcessExit"
proof -
  have c: "socket_client demo_client" by (simp add: socket_client_def demo_client_def)
  have kv: "plain_pair ''k'' ''v''" "plain_pair ''k'' ''w''"
    by (simp_all add: plain_pair_def good_key_def good_value_def line_text_def KEY_LIMIT_def
        VAL_LIMIT_def byte_string_NUL)
  from colliding_rounds_fail [OF demo_ready(1) c kv] show ?thesis
    using demo_ready(2) demo_db_ok(3) by auto
qed

end
