(* ===== verification/Spec2Isabelle.thy ===== *)
theory Spec2Isabelle
  imports StoreProperties ServerProperties RuntimeProperties
begin

text \<open>
  \<^bold>\<open>nodare-db: an in-memory key-value store in Go, modelled and verified\<close>

  The program is a server that keeps string keys and dynamic values in memory and serves them
  over HTTP and over a line protocol on unix, TCP and TLS sockets, with a client library for
  both and a program that tests the server through it. Its data sits in \<open>N\<close> shards; the pcas
  hash of a key selects the shard, and within a shard a second hash (sipHash, FNV-32a or FNV-64a)
  selects the bucket of a chained hash table that grows by incremental rehashing. The parts and
  their theories:

  \<^item> \<open>GoPrelude\<close>: Go's run-time faults and results, slice accesses, lemmas on 64-bit words.
  \<^item> \<open>DickTable\<close> (database/DickEntry.go, dickTable.go, \<open>nextPower\<close> of dick.go): entries, one
    hash table, bucket chains as lists; the well-formedness of a table (\<open>table_ok\<close>: size a
    power of two, mask, counter, every entry in the bucket of its hash).
  \<^item> \<open>PcasHash\<close> (pcas_hash/hash.go, hasher.go): the hash functions and the streaming hasher.
  \<^item> \<open>KeyHash\<close> (\<open>hasher\<close>, \<open>split\<close>, \<open>GenerateSALT\<close> of database/dick.go): the bucket hash.
  \<^item> \<open>SubDick\<close>, \<open>SubDickInv\<close> (the functions of database/dick.go on one shard, and the shard's part
    of operations.go): get, add, del, expand, rehash on the two tables and the rehash index;
    the invariant \<open>sub_inv\<close>, the map \<open>sub_abs\<close> that a shard stands for, and the behaviour of
    every operation before, during and after a rehash.
  \<^item> \<open>KVStore\<close>: the contract of a key-value store as a locale, with the refinement of runs of
    requests to a finite map; \<open>XDick\<close> (the rest of dick.go, operations.go, db.go) interprets it
    three times: for a shard, for the sharded XDICK, for the XDatabase.
  \<^item> \<open>EntryHeap\<close>: the same functions of database/ with their pointers, entries and tables being
    cells of one heap. \<open>HeapRefinement\<close> proves that each of them does what the list program does
    and stays within its shard's cells, \<open>HeapDatabase\<close> that runs on the sharded database do, by
    the locale \<open>store_simulation\<close>, interpreted on it.
  \<^item> \<open>Concurrent\<close>: goroutines on the database. An operation is a call, the locking of its shard,
    the reading and the writing of the shard, the unlocking and the return, and the goroutines'
    steps interleave; likewise the numbering of connections by the accept loops.
  \<^item> \<open>Utils\<close> (utils/utils.go), \<open>Logger\<close> (logger/logger.go), \<open>Constants\<close> and \<open>Config\<close>
    (server/constants.go; the default file, the environment and \<open>initDB\<close> of configuration.go).
  \<^item> \<open>Protocol\<close> (the protocol's part of server/constants.go, the escaping of client.go),
    \<open>Session\<close> (\<open>handleSocketConn\<close> of server/socket.go, one function per mode and state),
    \<open>SessionInv\<close> (phases of a session and freedom from panics), \<open>SessionExchange\<close> (what each
    command does and answers).
  \<^item> \<open>Acl\<close> (access list, listeners and accept loops of server/socket.go), \<open>WebServer\<close>
    (server/ndb-server.go), \<open>Client\<close> (client/clilib/client.go).
  \<^item> \<open>SharedServer\<close>: sessions and HTTP requests at work on the one database, one line, one key or
    one pair at a time in any order; the steps of one session alone are the loop of \<open>Session\<close>.
  \<^item> \<open>Lifecycle\<close> (server/web-server.go, \<open>CloseSocket\<close>, the end of main.go): the web servers'
    settings, and the shutdown as a step relation on the channel \<open>stop_chan\<close>, the wait groups and
    their copies, the parts that wait for the token, and main. \<open>Boot\<close> (\<open>NewViperConf\<close>, server/factory.go, main.go): the start of the
    server from its flags, files and environment.
  \<^item> \<open>TestClient\<close>, \<open>TestWorkers\<close> (client/main.go): what a round of the test program inserts and
    checks, over any \<open>store_wire\<close> (a locale, interpreted for a socket session and for HTTP), and
    the goroutines and channels around the rounds, with the exits of the program, as a step
    relation.
  \<^item> \<open>EndToEnd\<close>: client requests meeting the server's handlers. \<open>StoreProperties\<close>,
    \<open>ServerProperties\<close>, \<open>RuntimeProperties\<close> and this theory hold the properties, each with an
    instance where it has hypotheses; this theory those that span the storage, the server and the
    client.

  State and operations. A shard's functions take the shard where the code takes its index, and in
  \<open>SubDick\<close> a chain of entries is a list. \<open>EntryHeap\<close> keeps the pointers: a chain is what \<open>next\<close>
  makes it, the loops along it are \<open>partial_function (option)\<close>, so that a loop that does not end
  is the result \<open>None\<close>, and every theorem about them proves that they return. A shard's mutex is
  held for the whole of Get, Set and Del; \<open>Concurrent\<close> has the locking as steps of its own. A
  session's state is the record of the local variables of its handler together with the bytes sent
  and what it reaches of the server; one call of \<open>readline_body\<close> is one turn of its loop. A
  function that may panic or end the process has a result of type \<open>'a go\<close>; Go's \<open>error\<close> results
  are values.

  Bounds. Sizes and counters are 64-bit words as in the code. The lemmas on insertion assume
  fewer than \<open>2 ^ 61\<close> entries, so that doubling and \<open>nextPower\<close> do not overflow; no machine has
  the memory for more. \<open>rehash\<close> visits at most ten empty buckets per step as the code does, and
  no other bound on recursion is introduced. The client handler's slot numbers and the counters of
  the test program are unbounded integers: they count allocated pointers and items of a test.

  Parameters, for code that is not in the repository: sipHash; Unicode's digits outside Latin-1;
  random numbers; the viper library, with its documented law that for the program's own keys a value
  that was set is what a lookup returns and other keys keep theirs (\<open>viper_sets\<close>); the file system and the environment; the JSON decoder and the
  router's path variables, that is, which addresses it takes for which key; the profiler, whose
  methods panic for a nil pointer, which \<open>server.Prof\<close> is without the flag for it; the network (which writes succeed, which lines arrive,
  whether dialling works). The pooled hasher of pcas_hash is a parameter too, as it keeps what
  earlier uses left in it.

  Not modelled: the profiling web server of main.go, net/http, and the clean-up of connections by
  the operating system; \<open>watchDog\<close>, which returns at once; the getters of \<open>ViperConfig\<close>, which pass
  on to viper and are not used; most texts of log messages. In \<open>SharedServer\<close> the work on one
  key is one step, as \<open>Concurrent\<close> shows that operations of the database do not disturb each other;
  the two models are not composed into one.

  What the properties show. The database behaves as a finite map for every sequence of
  requests, in every phase of its rehash, on lists and on the heap, and for goroutines in every
  interleaving; it never panics with a valid configuration, which the start-up code guarantees.
  No chain of entries becomes cyclic, no goroutine gets stuck in an operation, and a shutdown can
  always complete. Sessions never panic while values are strings, however their
  lines and the HTTP requests interleave, unless a unix connection asks for a profile and the
  profiler is nil; SET and GET do what the protocol says, also between two
  connections, and the test program passes over a socket whatever its rounds and items. They also pin
  down where the code departs from its intent: DEL's replies are inverted and leave the session in
  its mode, a SET takes one pair only, an absent key is reported as found by the client, a number
  posted over HTTP lets a socket client's GET end the server, every fifth byte of a key is ignored by the shard hash, daemon
  clients crash, the web server's timeouts are read only when the configuration is invalid, main
  can exit before the parts that it waits for, a profile command ends a server without a profiler,
  connections can share a number, and the test program hangs when a connection fails or random keys
  are short.
\<close>

section \<open>The database is a finite map\<close>

text \<open>C1: Any sequence of at most \<open>2 ^ 61\<close> requests to a freshly created database with at least
  one shard is answered exactly as by a finite map that starts empty, without a panic, and the
  database keeps its invariant and stands for that map at the end.\<close>

theorem database_refines_map:
  assumes "env_ok E" and "n \<noteq> 0" and "length qs \<le> 2 ^ 61"
  shows "\<exists>db. store_run (XDatabase_Get E) (XDatabase_Set E) (XDatabase_Del E) qs (NewDICK now n) =
       Inr (db, snd (map_run get_result EntryNotFound qs Map.empty)) \<and>
     db_inv E db \<and> db_view db = fst (map_run get_result EntryNotFound qs Map.empty)"
  using db.run_refines [OF NewDICK_ok(1) [OF assms(1,2), of now], of qs] assms(3)
  unfolding NewDICK_ok(2,3) [OF assms(1,2)] by auto

theorem database_refines_map_witness:
  "\<exists>db. store_run (XDatabase_Get demo_env) (XDatabase_Set demo_env) (XDatabase_Del demo_env)
       [SetReq ''a'' (GoString ''1''), GetReq ''a'', DelReq ''b''] (NewDICK 0 10) =
       Inr (db, [Done None, Value (GoString ''1''), Done (Some EntryNotFound)])"
  using database_refines_map [OF demo_env_ok(1), of 10
      "[SetReq ''a'' (GoString ''1''), GetReq ''a'', DelReq ''b'']" 0]
  by (auto simp: get_result_def)

text \<open>Whatever number of shards the configuration asks for, the start-up code with a valid
  hash mode boots an empty, well-formed database, on which no operation can panic.\<close>

theorem boot_gives_working_database:
  assumes "initDB (Some cwd) join gs gu gi st = Inr (st', n)"
    and "hashmode \<in> {HASH_siphash, HASH_FNV32A, HASH_FNV64A}"
    and "length (buf (pool E)) = 4"
  shows "\<exists>salt E' db. boot_database 1 hashmode rs now n (salt0, E) = Inr ((salt, E'), Some db) \<and>
     env_ok E' \<and> db_inv E' db \<and> db_view db = Map.empty"
proof -
  let ?E1 = "E\<lparr>HASHER := hashmode\<rparr>"
  let ?p = "if hashmode = HASH_siphash then generateSALT rs (salt0, ?E1) else (salt0, ?E1)"
  have "env_ok ?E1" using assms(2,3) by (simp add: env_ok_def hasher_ok_def)
  then have "env_ok (snd ?p)" by (auto simp: generateSALT_env)
  moreover have "n \<noteq> 0" using initDB_cases(1) [OF assms(1)] by (rule AVAIL_nonzero)
  moreover have "boot_database 1 hashmode rs now n (salt0, E) =
      Inr ((fst ?p, snd ?p), Some (NewDICK now n))"
    by (simp add: boot_database_def Let_def)
  ultimately show ?thesis using NewDICK_ok(1,2) [of "snd ?p" n now] by blast
qed

theorem boot_gives_working_database_witness:
  "\<exists>salt E' db. boot_database 1 3 (replicate 16 0) 0 100
       (\<lparr>once_done = False, SALT = []\<rparr>, demo_env) = Inr ((salt, E'), Some db) \<and> db_inv E' db"
proof -
  have "initDB (Some ''/'') (@) (\<lambda>_. ''dat'') (\<lambda>_. 100) (\<lambda>_. 5)
      \<lparr>RTO = 0, WTO = 0, ITO = 0, env_base_dir = None, made_dirs = []\<rparr> =
    Inr (\<lparr>RTO = 0, WTO = 0, ITO = 0, env_base_dir = Some ''/'', made_dirs = [''/cfg'', ''/dat'']\<rparr>, 100)"
    by (simp add: initDB_def Let_def AVAIL_SUBDICKS_def CONFIG_DIR_def)
  from boot_gives_working_database [OF this, of 3 demo_env "replicate 16 0" 0
      "\<lparr>once_done = False, SALT = []\<rparr>"]
  show ?thesis
    by (auto simp: HASH_FNV64A_def demo_env_def zero_Hash_def)
qed

section \<open>Client and server\<close>

text \<open>C4: A client that stores a value over a socket and then asks for the key gets exactly that
  value, and no other key changes, for every key and value without a line feed.\<close>

theorem socket_set_then_get:
  assumes "session_ready E st" and "tp_open c" and "good_key k" and "good_value v"
    and "db_count (sdb st) < 2 ^ 61"
  shows "\<exists>st1 st2. client_set E c st k v = Inr ((None, ACK), st1) \<and>
     client_get E c st1 k = Inr ((None, v, None, v \<noteq> []), st2) \<and> session_ready E st2 \<and>
     db_view (sdb st2) = (db_view (sdb st))(k \<mapsto> GoString v)"
proof -
  obtain st1 where 1: "client_set E c st k v = Inr ((None, ACK), st1)" "session_ready E st1"
    "db_view (sdb st1) = (db_view (sdb st))(k \<mapsto> GoString v)"
    using client_set_spec [OF assms] by blast
  have r: "reply_text (db_view (sdb st1)) k = v" by (simp add: reply_text_def 1(3))
  have "line_text (reply_text (db_view (sdb st1)) k)"
    using assms(4) unfolding r by (simp add: good_value_def)
  from client_get_spec [OF 1(2) assms(2,3) this] show ?thesis
    using 1 unfolding r by auto
qed

theorem socket_set_then_get_witness:
  "\<exists>st1 st2. client_set demo_env demo_client demo_session ''k'' ''v'' = Inr ((None, ACK), st1) \<and>
     client_get demo_env demo_client st1 ''k'' = Inr ((None, ''v'', None, True), st2)"
  using socket_set_then_get [OF demo_ready(1,3) demo_key] demo_ready(2) demo_db_ok(3) by auto

text \<open>C35: A text with line feeds and carriage returns but without a backslash travels unharmed
  when the client escapes it before storing and unescapes what it gets.\<close>

theorem escaped_value_roundtrip:
  assumes "session_ready E st" and "tp_open c" and "good_key k" and "CHR 0x5C \<notin> set v"
    and "length (Escape v) \<le> VAL_LIMIT" and "db_count (sdb st) < 2 ^ 61"
  shows "\<exists>st1 r f st2. client_set E c st k (Escape v) = Inr ((None, ACK), st1) \<and>
     client_get E c st1 k = Inr ((None, r, None, f), st2) \<and> UnEscape r = v"
proof -
  have v: "good_value (Escape v)" using assms(5) by (simp add: good_value_def line_text_Escape)
  obtain st1 where 1: "client_set E c st k (Escape v) = Inr ((None, ACK), st1)" "session_ready E st1"
    "db_view (sdb st1) = (db_view (sdb st))(k \<mapsto> GoString (Escape v))"
    using client_set_spec [OF assms(1-3) v assms(6)] by blast
  have r: "reply_text (db_view (sdb st1)) k = Escape v" by (simp add: reply_text_def 1(3))
  have "line_text (reply_text (db_view (sdb st1)) k)" unfolding r by (rule line_text_Escape)
  from client_get_spec [OF 1(2) assms(2,3) this] show ?thesis
    using 1(1) UnEscape_Escape [OF assms(4)] unfolding r by blast
qed

theorem escaped_value_roundtrip_witness:
  "\<exists>st1 r f st2. client_set demo_env demo_client demo_session ''k'' (Escape [CHR 0x0A]) =
       Inr ((None, ACK), st1) \<and>
     client_get demo_env demo_client st1 ''k'' = Inr ((None, r, None, f), st2) \<and>
     UnEscape r = [CHR 0x0A]"
proof -
  have "length (Escape [CHR 0x0A]) \<le> VAL_LIMIT"
    by (simp add: Escape_def Escape_Cons VAL_LIMIT_def)
  then show ?thesis
    using escaped_value_roundtrip [OF demo_ready(1,3) demo_key(1), of "[CHR 0x0A]"]
      demo_ready(2) demo_db_ok(3) by auto
qed

text \<open>C22: A value posted over HTTP is answered with 201, and a GET of its key then yields it, for a
  key that the router hands to the handler as the client wrote it into the address (one segment
  of the path, without a character that addresses encode) and a pair that the JSON decoder reads
  as the client wrote it.\<close>

theorem web_set_then_get:
  assumes "db_inv E db" and "db_count db < 2 ^ 61" and "http_open c" and "k \<noteq> []"
    and "json (json_pair k v) = Some [(k, GoString v)]"
    and "route_key (url c @ ''/get/'' @ k) = Some k"
  shows "\<exists>db' w. web_set E json db (json_pair k v) = Inr (db', w) \<and> status w = Some 201 \<and>
     db_view db' = (db_view db)(k \<mapsto> GoString v) \<and>
     HTTP_Get (get_reply_of E route_key db') c k val False = Inr (None, v, v \<noteq> [])"
proof -
  obtain db' w where db': "web_set E json db (json_pair k v) = Inr (db', w)" "status w = Some 201"
    "db_inv E db'" "db_view db' = db_view db ++ map_of (rev [(k, GoString v)])"
    using HandlerSet_post [OF assms(1), of "[(k, GoString v)]"] assms(2,5)
    by (auto simp: web_set_def)
  have view: "db_view db' = (db_view db)(k \<mapsto> GoString v)" using db'(4) by simp
  have "get_reply_of E route_key db' (url c @ ''/get/'' @ k) = HttpBody v"
    using assms(6) by (simp add: get_reply_of_def web_get_spec [OF db'(3) assms(4)] view)
  then have "HTTP_Get (get_reply_of E route_key db') c k val False = Inr (None, v, v \<noteq> [])"
    using assms(3) by (simp add: HTTP_Get_def)
  with db'(1,2) view show ?thesis by blast
qed

text \<open>A router and a decoder for one pair.\<close>

theorem web_set_then_get_witness:
  "\<exists>db' w. web_set demo_env (\<lambda>s. if s = json_pair ''k'' ''v'' then Some [(''k'', GoString ''v'')] else None)
       demo_db (json_pair ''k'' ''v'') = Inr (db', w) \<and> status w = Some 201 \<and>
     HTTP_Get (get_reply_of demo_env (\<lambda>u. if u = url demo_client @ ''/get/k'' then Some ''k'' else None) db')
       demo_client ''k'' [] False = Inr (None, ''v'', True)"
  using web_set_then_get [OF demo_db_ok(1) _ demo_ready(4), where k = "''k''" and v = "''v''" and
      json = "\<lambda>s. if s = json_pair ''k'' ''v'' then Some [(''k'', GoString ''v'')] else None" and
      route_key = "\<lambda>u. if u = url demo_client @ ''/get/k'' then Some ''k'' else None" and
      val = "[]"] demo_db_ok(3)
  by auto

end
